(* ===== verification/Zf_Prelude.thy ===== *)
theory Zf_Prelude
  imports Main "HOL-Library.Word" "HOL-Library.Monad_Syntax"
begin

unbundle bit_operations_syntax

text \<open>
  Shared material of the development: the C and C++ language features the
  sources use (integer conversions, character classes, zero-terminated strings,
  \<open>memcpy\<close>, little-endian loads and stores, \<open>std::vector::resize\<close>), the
  named collections the component proofs draw on, and generic lemmas about
  lists and words.

  Conventions. A byte is a \<^typ>\<open>char\<close>; a byte buffer or a C string is a
  \<^typ>\<open>string\<close>. An \<open>int\<close>, \<open>size_t\<close> or \<open>long long\<close> of the source is an
  \<^typ>\<open>int\<close> together with the conversion functions below wherever a value is
  stored into a variable of that width; the word types of the library are used
  where the code works on bits (hashes, checksums).
\<close>

section \<open>Collections\<close>

text \<open>
  \<open>inv_pres\<close> collects the preservation lemmas of the component invariants,
  \<open>abs_eqs\<close> the equations that say what an operation does to the abstract
  value of a component.
\<close>

named_theorems inv_pres
named_theorems abs_eqs

section \<open>Integer conversions of the source language\<close>

text \<open>Conversion to a signed or unsigned integer of 32 or 64 bits (two's complement).\<close>

definition s32 :: "int \<Rightarrow> int" where
  "s32 x = signed_take_bit 31 x"

definition u32 :: "int \<Rightarrow> int" where
  "u32 x = take_bit 32 x"

definition s64 :: "int \<Rightarrow> int" where
  "s64 x = signed_take_bit 63 x"

definition u64 :: "int \<Rightarrow> int" where
  "u64 x = take_bit 64 x"

lemma s32_id [simp]: "- (2 ^ 31) \<le> x \<Longrightarrow> x < 2 ^ 31 \<Longrightarrow> s32 x = x"
  by (simp add: s32_def signed_take_bit_int_eq_self)

lemma u32_id [simp]: "0 \<le> x \<Longrightarrow> x < 2 ^ 32 \<Longrightarrow> u32 x = x"
  by (simp add: u32_def take_bit_int_eq_self)

lemma s64_id [simp]: "- (2 ^ 63) \<le> x \<Longrightarrow> x < 2 ^ 63 \<Longrightarrow> s64 x = x"
  by (simp add: s64_def signed_take_bit_int_eq_self)

lemma u64_id [simp]: "0 \<le> x \<Longrightarrow> x < 2 ^ 64 \<Longrightarrow> u64 x = x"
  by (simp add: u64_def take_bit_int_eq_self)

lemma u64_mod: "u64 x = x mod 2 ^ 64"
  by (simp add: u64_def take_bit_eq_mod)

lemma u32_mod: "u32 x = x mod 2 ^ 32"
  by (simp add: u32_def take_bit_eq_mod)

lemma s32_range: "- (2 ^ 31) \<le> s32 x \<and> s32 x < 2 ^ 31"
  unfolding s32_def
  using signed_take_bit_int_greater_eq_minus_exp [of 31 x] signed_take_bit_int_less_exp [of 31 x]
  by simp

lemma s64_range: "- (2 ^ 63) \<le> s64 x \<and> s64 x < 2 ^ 63"
  unfolding s64_def
  using signed_take_bit_int_greater_eq_minus_exp [of 63 x] signed_take_bit_int_less_exp [of 63 x]
  by simp

lemma u64_range: "0 \<le> u64 x \<and> u64 x < 2 ^ 64"
  by (simp add: u64_mod)

lemma u32_range: "0 \<le> u32 x \<and> u32 x < 2 ^ 32"
  by (simp add: u32_mod)

lemma u64_neg: "- (2 ^ 64) \<le> x \<Longrightarrow> x < 0 \<Longrightarrow> u64 x = x + 2 ^ 64"
proof -
  assume "- (2 ^ 64) \<le> x" "x < 0"
  then have "(x + 2 ^ 64) mod 2 ^ 64 = x + 2 ^ 64"
    by (intro mod_pos_pos_trivial) simp_all
  moreover have "(x + 2 ^ 64) mod 2 ^ 64 = x mod 2 ^ 64"
    by (rule mod_add_self2)
  ultimately show ?thesis
    by (simp only: u64_mod)
qed

lemma nat_1_plus_int [simp]: "nat (1 + int k) = Suc k"
  by simp

lemma nat_int_plus_1 [simp]: "nat (int k + 1) = Suc k"
  by simp

section \<open>Characters and zero-terminated strings\<close>

abbreviation NUL :: char where
  "NUL \<equiv> CHR 0x00"

abbreviation ord :: "char \<Rightarrow> nat" where
  "ord c \<equiv> (of_char c :: nat)"

text \<open>The classes of \<open>ctype.h\<close> in the C locale, and ASCII case folding.\<close>

definition c_isdigit :: "char \<Rightarrow> bool" where
  "c_isdigit c \<longleftrightarrow> 48 \<le> ord c \<and> ord c \<le> 57"

definition c_isspace :: "char \<Rightarrow> bool" where
  "c_isspace c \<longleftrightarrow> c = CHR '' '' \<or> (9 \<le> ord c \<and> ord c \<le> 13)"

definition c_isprint :: "char \<Rightarrow> bool" where
  "c_isprint c \<longleftrightarrow> 32 \<le> ord c \<and> ord c \<le> 126"

definition c_tolower :: "char \<Rightarrow> char" where
  "c_tolower c = (if 65 \<le> ord c \<and> ord c \<le> 90 then char_of (ord c + 32) else c)"

definition c_toupper :: "char \<Rightarrow> char" where
  "c_toupper c = (if 97 \<le> ord c \<and> ord c \<le> 122 then char_of (ord c - 32) else c)"

text \<open>The C string at the start of a buffer, its length, and equality up to case.\<close>

definition cstr :: "string \<Rightarrow> string" where
  "cstr s = takeWhile (\<lambda>c. c \<noteq> NUL) s"

definition strlen :: "string \<Rightarrow> nat" where
  "strlen s = length (cstr s)"

definition strcaseeq :: "string \<Rightarrow> string \<Rightarrow> bool" where
  "strcaseeq s t \<longleftrightarrow> map c_tolower s = map c_tolower t"

lemma cstr_no_nul: "NUL \<notin> set s \<Longrightarrow> cstr s = s"
  unfolding cstr_def by (induction s) auto

lemma cstr_append_nul [simp]: "cstr (s @ NUL # t) = cstr s"
  unfolding cstr_def by (induction s) auto

lemma nul_notin_cstr: "NUL \<notin> set (cstr s)"
  unfolding cstr_def by (auto dest: set_takeWhileD)

lemma cstr_idem [simp]: "cstr (cstr s) = cstr s"
  by (rule cstr_no_nul) (rule nul_notin_cstr)

lemma strcaseeq_refl [simp]: "strcaseeq s s"
  by (simp add: strcaseeq_def)

lemma strcaseeq_sym: "strcaseeq s t \<Longrightarrow> strcaseeq t s"
  by (simp add: strcaseeq_def)

lemma strcaseeq_trans: "strcaseeq s t \<Longrightarrow> strcaseeq t u \<Longrightarrow> strcaseeq s u"
  by (simp add: strcaseeq_def)

section \<open>Buffers\<close>

text \<open>
  \<open>blit d i s\<close> is the buffer \<open>d\<close> after \<open>memcpy(d + i, s, length s)\<close>. It is only
  used where \<open>i + length s \<le> length d\<close>.
\<close>

definition blit :: "'a list \<Rightarrow> nat \<Rightarrow> 'a list \<Rightarrow> 'a list" where
  "blit d i s = take i d @ s @ drop (i + length s) d"

lemma length_blit [simp]: "i + length s \<le> length d \<Longrightarrow> length (blit d i s) = length d"
  by (simp add: blit_def)

lemma blit_Nil [simp]: "blit d i [] = d"
  by (simp add: blit_def)

lemma take_blit_before: "n \<le> i \<Longrightarrow> i \<le> length d \<Longrightarrow> take n (blit d i s) = take n d"
  by (simp add: blit_def min_def)

lemma take_blit_whole:
  "i \<le> length d \<Longrightarrow> take (i + length s) (blit d i s) = take i d @ s"
  by (simp add: blit_def min_def)

lemma nth_blit_in:
  "i + length s \<le> length d \<Longrightarrow> i \<le> k \<Longrightarrow> k < i + length s \<Longrightarrow> blit d i s ! k = s ! (k - i)"
  by (auto simp add: blit_def nth_append min_def)

lemma nth_blit_out:
  "i + length s \<le> length d \<Longrightarrow> k < i \<or> i + length s \<le> k \<Longrightarrow> k < length d \<Longrightarrow> blit d i s ! k = d ! k"
  by (auto simp add: blit_def nth_append min_def)

text \<open>\<open>std::vector::resize(n, x)\<close>.\<close>

definition resize :: "'a list \<Rightarrow> nat \<Rightarrow> 'a \<Rightarrow> 'a list" where
  "resize xs n x = take n xs @ replicate (n - length xs) x"

lemma length_resize [simp]: "length (resize xs n x) = n"
  by (auto simp: resize_def)

lemma nth_resize_old [simp]: "i < length xs \<Longrightarrow> i < n \<Longrightarrow> resize xs n x ! i = xs ! i"
  by (simp add: resize_def nth_append)

lemma nth_resize_new [simp]: "length xs \<le> i \<Longrightarrow> i < n \<Longrightarrow> resize xs n x ! i = x"
  by (simp add: resize_def nth_append)

lemma nth_upd: "xs[i := x] ! j = (if i = j \<and> j < length xs then x else xs ! j)"
  by (cases "i = j") (auto simp: nth_list_update not_less list_update_beyond)

section \<open>Little-endian integers in memory\<close>

text \<open>
  \<open>le_nat bs\<close> is the unsigned value of the bytes \<open>bs\<close>, least significant first;
  \<open>le_bytes k n\<close> stores the low \<open>k\<close> bytes of \<open>n\<close>.
\<close>

fun le_nat :: "string \<Rightarrow> nat" where
  "le_nat [] = 0"
| "le_nat (b # bs) = ord b + 256 * le_nat bs"

fun le_bytes :: "nat \<Rightarrow> nat \<Rightarrow> string" where
  "le_bytes 0 n = []"
| "le_bytes (Suc k) n = char_of n # le_bytes k (n div 256)"

lemma length_le_bytes [simp]: "length (le_bytes k n) = k"
  by (induction k arbitrary: n) auto

lemma ord_char_of [simp]: "ord (char_of (n::nat)) = n mod 256"
  by simp

lemma le_nat_bytes: "le_nat (le_bytes k n) = n mod 256 ^ k"
proof (induction k arbitrary: n)
  case 0
  then show ?case by simp
next
  case (Suc k)
  have "le_nat (le_bytes (Suc k) n) = n mod 256 + 256 * (n div 256 mod 256 ^ k)"
    by (simp add: Suc)
  also have "\<dots> = n mod (256 * 256 ^ k)"
    by (simp add: mod_mult2_eq)
  finally show ?case by simp
qed

lemma le_nat_bytes_id: "n < 256 ^ k \<Longrightarrow> le_nat (le_bytes k n) = n"
  by (simp add: le_nat_bytes)

lemma ord_less_256: "ord c < 256"
proof -
  have "ord (char_of (ord c)) = ord c mod 256" by (rule ord_char_of)
  then show ?thesis by simp
qed

lemma le_nat_less: "le_nat bs < 256 ^ length bs"
proof (induction bs)
  case Nil
  then show ?case by simp
next
  case (Cons b bs)
  have "ord b < 256" by (rule ord_less_256)
  moreover have "le_nat bs + 1 \<le> 256 ^ length bs" using Cons by simp
  ultimately have "ord b + 256 * le_nat bs < 256 * 256 ^ length bs" by linarith
  then show ?case by simp
qed

section \<open>Checked memory accesses and allocation\<close>

text \<open>
  An access outside a buffer is undefined behaviour in the source; here it is the
  result \<open>None\<close>. An \<open>allocator\<close> stands for the C library's heap: which request
  sizes it can serve, and the bytes it leaves in a block it hands out.
\<close>

definition poke :: "'a list \<Rightarrow> nat \<Rightarrow> 'a \<Rightarrow> 'a list option" where
  "poke b i c = (if i < length b then Some (b[i := c]) else None)"

definition peek :: "'a list \<Rightarrow> nat \<Rightarrow> 'a option" where
  "peek b i = (if i < length b then Some (b ! i) else None)"

definition store_at :: "'a list \<Rightarrow> nat \<Rightarrow> 'a list \<Rightarrow> 'a list option" where
  "store_at b i s = (if i + length s \<le> length b then Some (blit b i s) else None)"

definition load_at :: "'a list \<Rightarrow> nat \<Rightarrow> nat \<Rightarrow> 'a list option" where
  "load_at b i n = (if i + n \<le> length b then Some (take n (drop i b)) else None)"

lemma poke_ok [simp]: "i < length b \<Longrightarrow> poke b i c = Some (b[i := c])"
  by (simp add: poke_def)

lemma peek_ok [simp]: "i < length b \<Longrightarrow> peek b i = Some (b ! i)"
  by (simp add: peek_def)

lemma store_at_ok [simp]: "i + length s \<le> length b \<Longrightarrow> store_at b i s = Some (blit b i s)"
  by (simp add: store_at_def)

lemma load_at_ok [simp]: "i + n \<le> length b \<Longrightarrow> load_at b i n = Some (take n (drop i b))"
  by (simp add: load_at_def)

record allocator =
  hs_ok :: "nat \<Rightarrow> bool"
  hs_byte :: "nat \<Rightarrow> nat \<Rightarrow> char"

definition mem_ok :: "allocator \<Rightarrow> bool" where
  "mem_ok a \<longleftrightarrow> hs_ok a = (\<lambda>_. True)"

definition malloc_block :: "allocator \<Rightarrow> nat \<Rightarrow> string option" where
  "malloc_block a n = (if hs_ok a n then Some (map (hs_byte a n) [0..<n]) else None)"

definition calloc_block :: "allocator \<Rightarrow> nat \<Rightarrow> string option" where
  "calloc_block a n = (if hs_ok a n then Some (replicate n NUL) else None)"

definition realloc_block :: "allocator \<Rightarrow> string \<Rightarrow> nat \<Rightarrow> string option" where
  "realloc_block a b n =
     (if hs_ok a n then Some (take n b @ map (hs_byte a n) [length b..<n]) else None)"

lemma malloc_block_ok: "mem_ok a \<Longrightarrow> \<exists>b. malloc_block a n = Some b \<and> length b = n"
  by (simp add: mem_ok_def malloc_block_def)

lemma calloc_block_ok: "mem_ok a \<Longrightarrow> calloc_block a n = Some (replicate n NUL)"
  by (simp add: mem_ok_def calloc_block_def)

lemma realloc_block_ok:
  "mem_ok a \<Longrightarrow> \<exists>b'. realloc_block a b n = Some b' \<and> length b' = n \<and>
     (\<forall>k \<le> min n (length b). take k b' = take k b)"
  by (auto simp: mem_ok_def realloc_block_def min_def)

section \<open>Decimal numerals\<close>

definition digit :: "nat \<Rightarrow> char" where
  "digit d = char_of (48 + d)"

fun dec_str :: "nat \<Rightarrow> string" where
  "dec_str n = (if n < 10 then [digit n] else dec_str (n div 10) @ [digit (n mod 10)])"

definition dec_val :: "string \<Rightarrow> nat" where
  "dec_val s = foldl (\<lambda>a c. a * 10 + (ord c - 48)) 0 s"

declare dec_str.simps [simp del]

lemma ord_digit [simp]: "d < 10 \<Longrightarrow> ord (digit d) = 48 + d"
  by (simp add: digit_def)

lemma isdigit_digit [simp]: "d < 10 \<Longrightarrow> c_isdigit (digit d)"
  by (simp add: c_isdigit_def)

lemma digit_neq_NUL: "d < 10 \<Longrightarrow> digit d \<noteq> NUL"
proof
  assume "d < 10" "digit d = NUL"
  then have "ord (digit d) = ord NUL" by simp
  then show False using \<open>d < 10\<close> by simp
qed

lemma dec_str_neq_Nil [simp]: "dec_str n \<noteq> []"
  by (subst dec_str.simps) simp

lemma dec_val_snoc: "dec_val (s @ [c]) = dec_val s * 10 + (ord c - 48)"
  by (simp add: dec_val_def)

lemma dec_val_dec_str [simp]: "dec_val (dec_str n) = n"
proof (induction n rule: dec_str.induct)
  case (1 n)
  show ?case
  proof (cases "n < 10")
    case True
    then show ?thesis by (subst dec_str.simps) (simp add: dec_val_def)
  next
    case False
    then show ?thesis using 1 by (subst dec_str.simps) (simp add: dec_val_snoc)
  qed
qed

lemma dec_str_digits: "c \<in> set (dec_str n) \<Longrightarrow> c_isdigit c"
proof (induction n rule: dec_str.induct)
  case (1 n)
  then show ?case by (subst (asm) (2) dec_str.simps) (auto split: if_splits)
qed

lemma length_dec_str: "n < 10 ^ Suc k \<Longrightarrow> length (dec_str n) \<le> Suc k"
proof (induction k arbitrary: n)
  case 0
  then show ?case by (subst dec_str.simps) simp
next
  case (Suc k)
  then have "n div 10 < 10 ^ Suc k" by (simp add: less_mult_imp_div_less)
  then have "length (dec_str (n div 10)) \<le> Suc k" by (rule Suc.IH)
  then show ?case by (subst dec_str.simps) simp
qed

lemma dec_str_step: "\<not> n < 10 \<Longrightarrow> dec_str n = dec_str (n div 10) @ [digit (n mod 10)]"
  by (subst dec_str.simps) simp

lemma dec_str_small: "n < 10 \<Longrightarrow> dec_str n = [digit n]"
  by (subst dec_str.simps) simp

text \<open>A signed number is printed with a leading minus sign.\<close>

definition dec_int :: "int \<Rightarrow> string" where
  "dec_int v = (if v < 0 then CHR ''-'' # dec_str (nat (- v)) else dec_str (nat v))"

end
