(* ===== verification/Lockfree_Queue.thy ===== *)
theory Lockfree_Queue
  imports Zf_Prelude
begin

text \<open>
  The single-producer single-consumer queue of \<open>src/src/util/queue.h\<close>. Nodes
  live in a heap (a partial map from addresses to nodes); a pointer is an
  optional address. Every dereference of the source is a lookup that can fail,
  so an operation that would touch a freed node returns \<^const>\<open>None\<close>.

  The first part is the queue as one thread sees it and its contract, the
  locale \<open>fifo\<close>. The second part splits \<open>produce\<close> and \<open>consume\<close> into their
  memory accesses and interleaves them arbitrarily.
\<close>

section \<open>State\<close>

(* src/src/util/queue.h:10-14, LockFreeQueue::Node *)
record 'a node =
  node_value :: 'a
  node_next :: "nat option"

text \<open>\<open>q_brk\<close> is the next address the allocator hands out.\<close>

(* src/src/util/queue.h:15-17, LockFreeQueue *)
record 'a lfq =
  q_nodes :: "nat \<rightharpoonup> 'a node"
  q_first :: "nat option"
  q_divider :: "nat option"
  q_last :: "nat option"
  q_brk :: nat

section \<open>Operations\<close>

(* src/src/util/queue.h:11-11, LockFreeQueue::Node::Node *)
definition new_node :: "'a \<Rightarrow> 'a node" where
  "new_node v = \<lparr>node_value = v, node_next = None\<rparr>"

(* src/src/util/queue.h:19-21, LockFreeQueue::LockFreeQueue *)
definition lfq_new :: "'a \<Rightarrow> 'a lfq" where
  "lfq_new dflt =
     \<lparr>q_nodes = [0 \<mapsto> new_node dflt], q_first = Some 0, q_divider = Some 0,
      q_last = Some 0, q_brk = 1\<rparr>"

text \<open>The loop of \<open>produce\<close> that deletes the nodes the consumer has passed.\<close>

(* src/src/util/queue.h:34-38, LockFreeQueue::produce *)
partial_function (option) lfq_trim :: "'a lfq \<Rightarrow> 'a lfq option" where
  "lfq_trim q =
     (if q_first q = q_divider q then Some q
      else (case q_first q of None \<Rightarrow> None
        | Some temp \<Rightarrow> (case q_nodes q temp of None \<Rightarrow> None
          | Some n \<Rightarrow> lfq_trim (q\<lparr>q_first := node_next n, q_nodes := (q_nodes q)(temp := None)\<rparr>))))"

(* src/src/util/queue.h:31-39, LockFreeQueue::produce *)
definition lfq_produce :: "'a \<Rightarrow> 'a lfq \<Rightarrow> 'a lfq option" where
  "lfq_produce t q =
     (case q_last q of None \<Rightarrow> None
      | Some l \<Rightarrow> (case q_nodes q l of None \<Rightarrow> None
        | Some n \<Rightarrow>
          (let a = q_brk q
           in lfq_trim (q\<lparr>q_nodes := (q_nodes q)(a \<mapsto> new_node t, l \<mapsto> n\<lparr>node_next := Some a\<rparr>),
                          q_last := Some a, q_brk := Suc a\<rparr>))))"

text \<open>The result is the value handed out (\<open>consume\<close> returns true) or nothing.\<close>

(* src/src/util/queue.h:41-48, LockFreeQueue::consume *)
definition lfq_consume :: "'a lfq \<Rightarrow> ('a option \<times> 'a lfq) option" where
  "lfq_consume q =
     (if q_divider q \<noteq> q_last q
      then (case q_divider q of None \<Rightarrow> None
        | Some d \<Rightarrow> (case q_nodes q d of None \<Rightarrow> None
          | Some n \<Rightarrow> (case node_next n of None \<Rightarrow> None
            | Some d' \<Rightarrow> (case q_nodes q d' of None \<Rightarrow> None
              | Some n' \<Rightarrow> Some (Some (node_value n'), q\<lparr>q_divider := node_next n\<rparr>)))))
      else Some (None, q))"

(* src/src/util/queue.h:23-29, LockFreeQueue::~LockFreeQueue *)
partial_function (option) lfq_destroy :: "'a lfq \<Rightarrow> 'a lfq option" where
  "lfq_destroy q =
     (case q_first q of None \<Rightarrow> Some q
      | Some temp \<Rightarrow> (case q_nodes q temp of None \<Rightarrow> None
        | Some n \<Rightarrow> lfq_destroy (q\<lparr>q_first := node_next n, q_nodes := (q_nodes q)(temp := None)\<rparr>)))"

section \<open>Chains of nodes\<close>

text \<open>
  \<open>chain h as e\<close>: the nodes at \<open>as\<close> are allocated, each points to the next, and
  the last one points to \<open>e\<close>.
\<close>

fun chain :: "(nat \<rightharpoonup> 'a node) \<Rightarrow> nat list \<Rightarrow> nat option \<Rightarrow> bool" where
  "chain h [] e = True"
| "chain h (a # as) e =
     ((case h a of None \<Rightarrow> False
       | Some n \<Rightarrow> node_next n = (case as of [] \<Rightarrow> e | b # _ \<Rightarrow> Some b)) \<and> chain h as e)"

definition val_at :: "(nat \<rightharpoonup> 'a node) \<Rightarrow> nat \<Rightarrow> 'a" where
  "val_at h a = node_value (the (h a))"

lemma chain_append:
  "chain h (xs @ ys) e \<longleftrightarrow> chain h xs (if ys = [] then e else Some (hd ys)) \<and> chain h ys e"
proof (induction xs)
  case Nil
  then show ?case by simp
next
  case (Cons x xs)
  then show ?case by (cases xs; cases ys) (auto split: option.splits)
qed

lemma chain_upd_other: "a \<notin> set xs \<Longrightarrow> chain (h(a := n)) xs e = chain h xs e"
  by (induction xs) auto

lemma val_at_upd_other: "a \<notin> set xs \<Longrightarrow> map (val_at (h(a := n))) xs = map (val_at h) xs"
  by (auto simp: val_at_def)

lemma chain_allocated: "chain h xs e \<Longrightarrow> a \<in> set xs \<Longrightarrow> \<exists>n. h a = Some n"
  by (induction xs) (auto split: option.splits)

lemma chain_link:
  assumes "chain h xs e" and "xs \<noteq> []" and "distinct xs" and "a \<notin> set xs"
    and "h (last xs) = Some n"
  shows "chain (h(a \<mapsto> m, last xs \<mapsto> n\<lparr>node_next := Some a\<rparr>)) xs (Some a)"
proof -
  obtain ys l where xs: "xs = ys @ [l]" using assms(2) by (cases xs rule: rev_cases) auto
  have "l \<notin> set ys" "a \<notin> set ys" "a \<noteq> l" "h l = Some n" "chain h ys (Some l)"
    using assms xs by (auto simp: chain_append)
  then show ?thesis by (simp add: xs chain_append chain_upd_other)
qed

text \<open>
  The shape of the queue: garbage nodes \<open>gs\<close> from \<open>first\<close> up to the divider
  \<open>d\<close>, then the nodes \<open>ps\<close> whose values are pending.
\<close>

definition lfq_shape :: "'a lfq \<Rightarrow> nat list \<Rightarrow> nat \<Rightarrow> nat list \<Rightarrow> nat option \<Rightarrow> bool" where
  "lfq_shape q gs d ps e \<longleftrightarrow>
     distinct (gs @ d # ps) \<and> chain (q_nodes q) (gs @ d # ps) e \<and>
     q_first q = Some (hd (gs @ [d])) \<and> q_divider q = Some d \<and>
     q_last q = Some (last (d # ps))"

text \<open>The queue holds exactly the values \<open>xs\<close>, and owns no other node.\<close>

definition lfq_rep :: "'a lfq \<Rightarrow> 'a list \<Rightarrow> bool" where
  "lfq_rep q xs \<longleftrightarrow>
     (\<exists>gs d ps. lfq_shape q gs d ps None \<and> dom (q_nodes q) = set (gs @ d # ps) \<and>
        map (val_at (q_nodes q)) ps = xs \<and> (\<forall>a \<in> dom (q_nodes q). a < q_brk q))"

lemma lfq_repE:
  assumes "lfq_rep q xs"
  obtains gs d ps where "lfq_shape q gs d ps None" "dom (q_nodes q) = set (gs @ d # ps)"
    "map (val_at (q_nodes q)) ps = xs" "\<forall>a \<in> dom (q_nodes q). a < q_brk q"
  using assms unfolding lfq_rep_def by blast

lemma lfq_rep_new: "lfq_rep (lfq_new v) []"
proof -
  have "lfq_shape (lfq_new v) [] 0 [] None"
    by (simp add: lfq_shape_def lfq_new_def new_node_def)
  then show ?thesis
    unfolding lfq_rep_def
    by (intro exI [of _ "[]"] exI [of _ 0] conjI) (simp_all add: lfq_new_def)
qed

text \<open>
  One deletion removes the first garbage node; the whole loop removes them all
  and stops at the divider.
\<close>

lemma lfq_shape_free_first:
  assumes "lfq_shape q (g # gs) d ps e" and "q_nodes q g = Some n"
  shows "lfq_shape (q\<lparr>q_first := node_next n, q_nodes := (q_nodes q)(g := None)\<rparr>) gs d ps e"
    and "node_next n = Some (hd (gs @ [d]))"
proof -
  have nn: "node_next n = Some (hd (gs @ [d]))"
    using assms by (cases gs) (auto simp: lfq_shape_def)
  then show "node_next n = Some (hd (gs @ [d]))" .
  have "g \<notin> set (gs @ d # ps)" and "chain (q_nodes q) (gs @ d # ps) e"
    using assms(1) by (auto simp: lfq_shape_def)
  then have "chain ((q_nodes q)(g := None)) (gs @ d # ps) e"
    by (subst chain_upd_other)
  then show "lfq_shape (q\<lparr>q_first := node_next n, q_nodes := (q_nodes q)(g := None)\<rparr>) gs d ps e"
    using assms(1) nn by (auto simp: lfq_shape_def)
qed

lemma lfq_trim_shape:
  assumes "lfq_shape q gs d ps e"
  shows "\<exists>q'. lfq_trim q = Some q' \<and> lfq_shape q' [] d ps e \<and>
           q_nodes q' = (q_nodes q) |` (- set gs) \<and> q_brk q' = q_brk q"
  using assms
proof (induction gs arbitrary: q)
  case Nil
  then have "lfq_trim q = Some q"
    by (subst lfq_trim.simps) (simp add: lfq_shape_def)
  with Nil show ?case by simp
next
  case (Cons g gs)
  then obtain n where n: "q_nodes q g = Some n"
    by (auto simp: lfq_shape_def split: option.splits)
  let ?q = "q\<lparr>q_first := node_next n, q_nodes := (q_nodes q)(g := None)\<rparr>"
  have "lfq_shape ?q gs d ps e"
    using Cons.prems n by (rule lfq_shape_free_first)
  then obtain q' where q': "lfq_trim ?q = Some q'" "lfq_shape q' [] d ps e"
      "q_nodes q' = (q_nodes ?q) |` (- set gs)" "q_brk q' = q_brk ?q"
    using Cons.IH by blast
  have "lfq_trim q = lfq_trim ?q"
    using Cons.prems n by (subst lfq_trim.simps) (auto simp: lfq_shape_def)
  moreover have "q_nodes q' = (q_nodes q) |` (- set (g # gs))"
    using q'(3) by (auto simp: restrict_map_def fun_eq_iff)
  ultimately show ?case using q' by auto
qed

text \<open>Linking a fresh node behind the last one, and publishing it.\<close>

definition lfq_link :: "'a \<Rightarrow> nat \<Rightarrow> nat \<Rightarrow> 'a node \<Rightarrow> 'a lfq \<Rightarrow> 'a lfq" where
  "lfq_link t a l n q = q\<lparr>q_nodes := (q_nodes q)(a \<mapsto> new_node t, l \<mapsto> n\<lparr>node_next := Some a\<rparr>)\<rparr>"

lemma lfq_shape_link:
  assumes sh: "lfq_shape q gs d ps e" and a: "a \<notin> set (gs @ d # ps)"
    and n: "q_nodes q (last (d # ps)) = Some n"
  shows "lfq_shape (lfq_link t a (last (d # ps)) n q) gs d ps (Some a)"
proof -
  have l: "last (gs @ d # ps) = last (d # ps)" by simp
  have "chain (q_nodes (lfq_link t a (last (d # ps)) n q)) (gs @ d # ps) (Some a)"
    using chain_link [of "q_nodes q" "gs @ d # ps" e a n "new_node t"] sh a n
    unfolding lfq_shape_def lfq_link_def l by simp
  then show ?thesis using sh unfolding lfq_shape_def by (simp add: lfq_link_def)
qed

lemma lfq_shape_publish:
  assumes "lfq_shape q gs d ps (Some a)" and "a \<notin> set (gs @ d # ps)"
    and "q_nodes q a = Some m" and "node_next m = None"
  shows "lfq_shape (q\<lparr>q_last := Some a\<rparr>) gs d (ps @ [a]) None"
proof -
  have "chain (q_nodes q) ((gs @ d # ps) @ [a]) None"
    using assms by (subst chain_append) (simp add: lfq_shape_def)
  then show ?thesis using assms by (simp add: lfq_shape_def)
qed

lemma val_at_link:
  assumes "q_nodes q l = Some n" and "a \<notin> set ps"
  shows "map (val_at (q_nodes (lfq_link t a l n q))) ps = map (val_at (q_nodes q)) ps"
  using assms by (auto simp: lfq_link_def val_at_def)

lemma last_allocated: "lfq_shape q gs d ps e \<Longrightarrow> \<exists>n. q_nodes q (last (d # ps)) = Some n"
proof -
  assume "lfq_shape q gs d ps e"
  then have "chain (q_nodes q) (gs @ d # ps) e" by (simp add: lfq_shape_def)
  moreover have "last (d # ps) \<in> set (gs @ d # ps)" using last_in_set [of "d # ps"] by auto
  ultimately show ?thesis by (rule chain_allocated)
qed

lemma lfq_produce_rep:
  assumes "lfq_rep q xs"
  shows "\<exists>q'. lfq_produce t q = Some q' \<and> lfq_rep q' (xs @ [t])"
proof -
  obtain gs d ps where sh: "lfq_shape q gs d ps None"
      and dm: "dom (q_nodes q) = set (gs @ d # ps)" and xs: "map (val_at (q_nodes q)) ps = xs"
      and brk: "\<forall>a \<in> dom (q_nodes q). a < q_brk q"
    using assms by (rule lfq_repE)
  obtain n where n: "q_nodes q (last (d # ps)) = Some n" using last_allocated [OF sh] by blast
  define a where "a = q_brk q"
  define l where "l = last (d # ps)"
  define q1 where "q1 = lfq_link t a l n q"
  define q2 where "q2 = q1\<lparr>q_last := Some a, q_brk := Suc a\<rparr>"
  have fresh: "a \<notin> set (gs @ d # ps)" using brk dm a_def by blast
  have ne: "a \<noteq> l" using fresh last_in_set [of "d # ps"] l_def by auto
  have q1a: "q_nodes q1 a = Some (new_node t)" using ne by (simp add: q1_def lfq_link_def)
  have "lfq_shape q1 gs d ps (Some a)"
    using lfq_shape_link [OF sh fresh n, of t] by (simp add: q1_def l_def lfq_shape_def)
  then have "lfq_shape (q1\<lparr>q_last := Some a\<rparr>) gs d (ps @ [a]) None"
    using fresh q1a by (rule lfq_shape_publish) (simp add: new_node_def)
  then have "lfq_shape q2 gs d (ps @ [a]) None" by (simp add: q2_def lfq_shape_def)
  then obtain q' where q': "lfq_trim q2 = Some q'"
      "lfq_shape q' [] d (ps @ [a]) None" "q_nodes q' = (q_nodes q1) |` (- set gs)"
      "q_brk q' = Suc a"
    using lfq_trim_shape [of q2 gs d "ps @ [a]" None] by (auto simp: q2_def)
  have "q_last q = Some l" using sh by (simp add: lfq_shape_def l_def)
  moreover have "q_nodes q l = Some n" using n by (simp add: l_def)
  ultimately have eq: "lfq_produce t q = Some q'"
    using q'(1) by (simp add: lfq_produce_def Let_def q1_def q2_def lfq_link_def flip: a_def)
  have disj: "set gs \<inter> set (d # ps) = {}" using sh by (auto simp: lfq_shape_def)
  have "dom (q_nodes q1) = insert a (set (gs @ d # ps))"
    using dm n l_def by (auto simp: q1_def lfq_link_def)
  then have dm': "dom (q_nodes q') = set ([] @ d # ps @ [a])"
    using q'(3) disj fresh by auto
  have "map (val_at (q_nodes q1)) ps = xs"
    using val_at_link [of q l n a ps t] n fresh xs by (simp add: q1_def l_def)
  moreover have "map (val_at (q_nodes q')) ps = map (val_at (q_nodes q1)) ps"
    using q'(3) disj by (auto simp: val_at_def restrict_map_def)
  moreover have "val_at (q_nodes q') a = t"
    using q'(3) fresh q1a by (auto simp: val_at_def restrict_map_def new_node_def)
  ultimately have "map (val_at (q_nodes q')) (ps @ [a]) = xs @ [t]" by simp
  moreover have "\<forall>b \<in> dom (q_nodes q'). b < q_brk q'"
    using dm' q'(4) brk dm a_def by (auto simp: less_Suc_eq)
  ultimately have "lfq_rep q' (xs @ [t])"
    using q'(2) dm' unfolding lfq_rep_def by blast
  then show ?thesis using eq by blast
qed

lemma lfq_consume_empty: "lfq_rep q [] \<Longrightarrow> lfq_consume q = Some (None, q)"
  by (auto simp: lfq_rep_def lfq_shape_def lfq_consume_def)

lemma lfq_consume_rep:
  assumes "lfq_rep q (x # xs)"
  shows "\<exists>q'. lfq_consume q = Some (Some x, q') \<and> lfq_rep q' xs"
proof -
  obtain gs d ps where sh: "lfq_shape q gs d ps None"
      and dm: "dom (q_nodes q) = set (gs @ d # ps)" and xs: "map (val_at (q_nodes q)) ps = x # xs"
      and brk: "\<forall>a \<in> dom (q_nodes q). a < q_brk q"
    using assms by (rule lfq_repE)
  obtain p ps' where ps: "ps = p # ps'" and xs': "map (val_at (q_nodes q)) ps' = xs"
      and x: "val_at (q_nodes q) p = x"
    using xs by (cases ps) simp_all
  have ch: "chain (q_nodes q) (d # p # ps') None"
    using sh ps by (auto simp: lfq_shape_def chain_append)
  then obtain n n' where n: "q_nodes q d = Some n" "node_next n = Some p" "q_nodes q p = Some n'"
    by (auto split: option.splits)
  have "d \<noteq> last (p # ps')" using sh ps by (auto simp: lfq_shape_def)
  then have c: "lfq_consume q = Some (Some x, q\<lparr>q_divider := Some p\<rparr>)"
    using sh ps x n by (simp add: lfq_consume_def lfq_shape_def val_at_def)
  have "lfq_shape (q\<lparr>q_divider := Some p\<rparr>) (gs @ [d]) p ps' None"
    using sh ps by (cases gs) (auto simp: lfq_shape_def)
  then have "lfq_rep (q\<lparr>q_divider := Some p\<rparr>) xs"
    using dm xs' brk ps unfolding lfq_rep_def
    by (intro exI [of _ "gs @ [d]"] exI [of _ p] exI [of _ ps']) simp
  with c show ?thesis by blast
qed

lemma lfq_destroy_chain:
  "chain (q_nodes q) as None \<Longrightarrow> distinct as \<Longrightarrow>
   q_first q = (case as of [] \<Rightarrow> None | a # _ \<Rightarrow> Some a) \<Longrightarrow>
   \<exists>q'. lfq_destroy q = Some q' \<and> q_nodes q' = (q_nodes q) |` (- set as)"
proof (induction as arbitrary: q)
  case Nil
  then show ?case by (subst lfq_destroy.simps) (simp add: restrict_map_def)
next
  case (Cons a as)
  then obtain n where n: "q_nodes q a = Some n"
      "node_next n = (case as of [] \<Rightarrow> None | b # _ \<Rightarrow> Some b)"
    by (auto split: option.splits)
  let ?q = "q\<lparr>q_first := node_next n, q_nodes := (q_nodes q)(a := None)\<rparr>"
  have "chain (q_nodes ?q) as None" using Cons.prems by (simp add: chain_upd_other)
  moreover have "distinct as" using Cons.prems by simp
  moreover have "q_first ?q = (case as of [] \<Rightarrow> None | b # _ \<Rightarrow> Some b)" using n by simp
  ultimately obtain q' where q': "lfq_destroy ?q = Some q'"
      "q_nodes q' = (q_nodes ?q) |` (- set as)"
    using Cons.IH by blast
  have "lfq_destroy q = lfq_destroy ?q"
    using Cons.prems n by (subst lfq_destroy.simps) simp
  moreover have "q_nodes q' = (q_nodes q) |` (- set (a # as))"
    using q'(2) by (auto simp: restrict_map_def fun_eq_iff)
  ultimately show ?case using q' by auto
qed

lemma lfq_destroy_rep:
  assumes "lfq_rep q xs"
  shows "\<exists>q'. lfq_destroy q = Some q' \<and> q_nodes q' = Map.empty"
proof -
  obtain gs d ps where sh: "lfq_shape q gs d ps None"
      and dm: "dom (q_nodes q) = set (gs @ d # ps)"
    using assms by (rule lfq_repE)
  have "q_first q = (case gs @ d # ps of [] \<Rightarrow> None | a # _ \<Rightarrow> Some a)"
    using sh by (cases gs) (simp_all add: lfq_shape_def)
  then obtain q' where "lfq_destroy q = Some q'"
      "q_nodes q' = (q_nodes q) |` (- set (gs @ d # ps))"
    using lfq_destroy_chain [of q "gs @ d # ps"] sh unfolding lfq_shape_def by blast
  then show ?thesis using dm by (auto simp: restrict_map_def fun_eq_iff dom_def)
qed

section \<open>The contract of a FIFO queue\<close>

text \<open>
  A history of calls on a queue: \<open>qrun\<close> performs it on an implementation,
  \<open>spec_run\<close> on a list. Both return what each \<open>Pop\<close> handed out.
\<close>

datatype 'a qop = Push 'a | Pop

fun qrun :: "('a \<Rightarrow> 'q \<Rightarrow> 'q option) \<Rightarrow> ('q \<Rightarrow> ('a option \<times> 'q) option) \<Rightarrow>
    'a qop list \<Rightarrow> 'q \<Rightarrow> ('a option list \<times> 'q) option" where
  "qrun push pop [] q = Some ([], q)"
| "qrun push pop (Push x # ops) q =
     (case push x q of None \<Rightarrow> None | Some q' \<Rightarrow> qrun push pop ops q')"
| "qrun push pop (Pop # ops) q =
     (case pop q of None \<Rightarrow> None
      | Some (r, q') \<Rightarrow> (case qrun push pop ops q' of None \<Rightarrow> None
          | Some (rs, q'') \<Rightarrow> Some (r # rs, q'')))"

fun spec_run :: "'a qop list \<Rightarrow> 'a list \<Rightarrow> 'a option list \<times> 'a list" where
  "spec_run [] xs = ([], xs)"
| "spec_run (Push x # ops) xs = spec_run ops (xs @ [x])"
| "spec_run (Pop # ops) [] = (let (rs, ys) = spec_run ops [] in (None # rs, ys))"
| "spec_run (Pop # ops) (x # xs) = (let (rs, ys) = spec_run ops xs in (Some x # rs, ys))"

locale fifo =
  fixes push :: "'a \<Rightarrow> 'q \<Rightarrow> 'q option"
    and pop :: "'q \<Rightarrow> ('a option \<times> 'q) option"
    and rep :: "'q \<Rightarrow> 'a list \<Rightarrow> bool"
  assumes push_rep: "rep q xs \<Longrightarrow> \<exists>q'. push x q = Some q' \<and> rep q' (xs @ [x])"
    and pop_nil: "rep q [] \<Longrightarrow> pop q = Some (None, q)"
    and pop_cons: "rep q (x # xs) \<Longrightarrow> \<exists>q'. pop q = Some (Some x, q') \<and> rep q' xs"
begin

lemma qrun_refines:
  "rep q xs \<Longrightarrow> \<exists>q'. qrun push pop ops q = Some (fst (spec_run ops xs), q') \<and>
     rep q' (snd (spec_run ops xs))"
proof (induction ops xs arbitrary: q rule: spec_run.induct)
  case (1 xs)
  then show ?case by simp
next
  case (2 x ops xs)
  then obtain q' where "push x q = Some q'" "rep q' (xs @ [x])" using push_rep by blast
  with 2 show ?case by auto
next
  case (3 ops)
  then obtain q' where "qrun push pop ops q = Some (fst (spec_run ops []), q')"
      "rep q' (snd (spec_run ops []))" by blast
  with 3 show ?case by (auto simp: pop_nil split: prod.splits)
next
  case (4 ops x xs)
  then obtain q' where q': "pop q = Some (Some x, q')" "rep q' xs" using pop_cons by blast
  then obtain q'' where "qrun push pop ops q' = Some (fst (spec_run ops xs), q'')"
      "rep q'' (snd (spec_run ops xs))" using 4 by blast
  with q' show ?case by (auto split: prod.splits)
qed

lemma push_never_fails: "rep q xs \<Longrightarrow> push x q \<noteq> None"
  using push_rep by fastforce

lemma pop_some_iff:
  assumes "rep q xs"
  shows "(\<exists>x q'. pop q = Some (Some x, q')) \<longleftrightarrow> xs \<noteq> []"
  using assms pop_nil pop_cons by (cases xs) fastforce+

lemma pop_order:
  assumes "rep q (x # xs)" and "pop q = Some (r, q')"
  shows "r = Some x \<and> rep q' xs"
  using assms pop_cons by fastforce

end

interpretation lq: fifo lfq_produce lfq_consume lfq_rep
  by unfold_locales (simp_all add: lfq_produce_rep lfq_consume_empty lfq_consume_rep)

section \<open>Interleaved execution\<close>

text \<open>
  The producer and the consumer as two threads. A step is one access to a shared
  pointer or node; the ghost fields record what was handed to \<open>produce\<close> (once
  published) and what \<open>consume\<close> returned. A rule that dereferences a node
  requires it to be allocated, so a thread that would touch freed memory has
  no step. Addresses of new nodes are any free ones: a freed address may be
  handed out again.
\<close>

datatype 'a ppc = PIdle | PLinked 'a | PTrim | PFree

datatype 'a cpc = CIdle | CTaken | CRead 'a

record 'a csys =
  cs_q :: "'a lfq"
  cs_p :: "'a ppc"
  cs_c :: "'a cpc"
  cs_in :: "'a list"
  cs_out :: "'a list"

(* src/src/util/queue.h:31-39, LockFreeQueue::produce *)
inductive lfq_pstep :: "'a csys \<Rightarrow> 'a csys \<Rightarrow> bool" where
  p_link: "cs_p s = PIdle \<Longrightarrow> q_last (cs_q s) = Some l \<Longrightarrow> q_nodes (cs_q s) l = Some n \<Longrightarrow>
     q_nodes (cs_q s) a = None \<Longrightarrow>
     lfq_pstep s (s\<lparr>cs_q := lfq_link t a l n (cs_q s), cs_p := PLinked t\<rparr>)"
| p_publish: "cs_p s = PLinked t \<Longrightarrow> q_last (cs_q s) = Some l \<Longrightarrow>
     q_nodes (cs_q s) l = Some n \<Longrightarrow>
     lfq_pstep s (s\<lparr>cs_q := (cs_q s)\<lparr>q_last := node_next n\<rparr>, cs_p := PTrim, cs_in := cs_in s @ [t]\<rparr>)"
| p_test: "cs_p s = PTrim \<Longrightarrow> q_first (cs_q s) \<noteq> q_divider (cs_q s) \<Longrightarrow>
     lfq_pstep s (s\<lparr>cs_p := PFree\<rparr>)"
| p_exit: "cs_p s = PTrim \<Longrightarrow> q_first (cs_q s) = q_divider (cs_q s) \<Longrightarrow>
     lfq_pstep s (s\<lparr>cs_p := PIdle\<rparr>)"
| p_free: "cs_p s = PFree \<Longrightarrow> q_first (cs_q s) = Some temp \<Longrightarrow>
     q_nodes (cs_q s) temp = Some n \<Longrightarrow>
     lfq_pstep s (s\<lparr>cs_q := (cs_q s)\<lparr>q_first := node_next n,
       q_nodes := (q_nodes (cs_q s))(temp := None)\<rparr>, cs_p := PTrim\<rparr>)"

(* src/src/util/queue.h:41-48, LockFreeQueue::consume *)
inductive lfq_cstep :: "'a csys \<Rightarrow> 'a csys \<Rightarrow> bool" where
  c_empty: "cs_c s = CIdle \<Longrightarrow> q_divider (cs_q s) = q_last (cs_q s) \<Longrightarrow> lfq_cstep s s"
| c_test: "cs_c s = CIdle \<Longrightarrow> q_divider (cs_q s) \<noteq> q_last (cs_q s) \<Longrightarrow>
     lfq_cstep s (s\<lparr>cs_c := CTaken\<rparr>)"
| c_read: "cs_c s = CTaken \<Longrightarrow> q_divider (cs_q s) = Some d \<Longrightarrow>
     q_nodes (cs_q s) d = Some n \<Longrightarrow> node_next n = Some d' \<Longrightarrow> q_nodes (cs_q s) d' = Some n' \<Longrightarrow>
     lfq_cstep s (s\<lparr>cs_c := CRead (node_value n')\<rparr>)"
| c_advance: "cs_c s = CRead v \<Longrightarrow> q_divider (cs_q s) = Some d \<Longrightarrow>
     q_nodes (cs_q s) d = Some n \<Longrightarrow>
     lfq_cstep s (s\<lparr>cs_q := (cs_q s)\<lparr>q_divider := node_next n\<rparr>, cs_c := CIdle,
       cs_out := cs_out s @ [v]\<rparr>)"

definition csys_init :: "'a \<Rightarrow> 'a csys" where
  "csys_init v = \<lparr>cs_q = lfq_new v, cs_p = PIdle, cs_c = CIdle, cs_in = [], cs_out = []\<rparr>"

inductive lfq_reachable :: "'a \<Rightarrow> 'a csys \<Rightarrow> bool" for v where
  start: "lfq_reachable v (csys_init v)"
| producer: "lfq_reachable v s \<Longrightarrow> lfq_pstep s t \<Longrightarrow> lfq_reachable v t"
| consumer: "lfq_reachable v s \<Longrightarrow> lfq_cstep s t \<Longrightarrow> lfq_reachable v t"

text \<open>
  The invariant: the chain has the shape above; a node that is linked but not
  yet published hangs behind the last one; nothing else is allocated; what went
  in is what came out followed by the pending values; and a consumer in the
  middle of \<open>consume\<close> has a pending node in front of it.
\<close>

definition owned :: "'a csys \<Rightarrow> nat list \<Rightarrow> nat option \<Rightarrow> bool" where
  "owned s xs e \<longleftrightarrow>
     (case cs_p s of
        PLinked t \<Rightarrow> (\<exists>a. e = Some a \<and> a \<notin> set xs \<and> q_nodes (cs_q s) a = Some (new_node t) \<and>
          dom (q_nodes (cs_q s)) = insert a (set xs))
      | _ \<Rightarrow> e = None \<and> dom (q_nodes (cs_q s)) = set xs)"

definition consumer_ok :: "'a csys \<Rightarrow> nat list \<Rightarrow> bool" where
  "consumer_ok s ps \<longleftrightarrow>
     (case cs_c s of CIdle \<Rightarrow> True | CTaken \<Rightarrow> ps \<noteq> []
      | CRead v \<Rightarrow> ps \<noteq> [] \<and> val_at (q_nodes (cs_q s)) (hd ps) = v)"

definition cinv :: "'a csys \<Rightarrow> nat list \<Rightarrow> nat \<Rightarrow> nat list \<Rightarrow> nat option \<Rightarrow> bool" where
  "cinv s gs d ps e \<longleftrightarrow>
     lfq_shape (cs_q s) gs d ps e \<and> owned s (gs @ d # ps) e \<and>
     (cs_p s = PFree \<longrightarrow> gs \<noteq> []) \<and>
     cs_in s = cs_out s @ map (val_at (q_nodes (cs_q s))) ps \<and> consumer_ok s ps"

lemma cinv_init: "cinv (csys_init v) [] 0 [] None"
  by (simp add: cinv_def csys_init_def lfq_new_def new_node_def lfq_shape_def owned_def consumer_ok_def)

lemma cinv_pstep:
  assumes "lfq_pstep s t" and "cinv s gs d ps e"
  shows "\<exists>gs' ps' e'. cinv t gs' d ps' e'"
  using assms
proof (induction rule: lfq_pstep.induct)
  case (p_link s l n a t)
  have l: "l = last (d # ps)" using p_link by (simp add: cinv_def lfq_shape_def)
  have dm: "dom (q_nodes (cs_q s)) = set (gs @ d # ps)" and "e = None"
    using p_link by (simp_all add: cinv_def owned_def)
  then have fresh: "a \<notin> set (gs @ d # ps)" using p_link(4) by (metis domIff)
  have "lfq_shape (lfq_link t a l n (cs_q s)) gs d ps (Some a)"
    using p_link fresh unfolding l cinv_def by (intro lfq_shape_link) auto
  moreover have "a \<noteq> l" using p_link by auto
  moreover have "map (val_at (q_nodes (lfq_link t a l n (cs_q s)))) ps = map (val_at (q_nodes (cs_q s))) ps"
    using p_link fresh by (intro val_at_link) auto
  moreover have "ps \<noteq> [] \<Longrightarrow> val_at (q_nodes (lfq_link t a l n (cs_q s))) (hd ps) = val_at (q_nodes (cs_q s)) (hd ps)"
    using calculation(3) by (cases ps) auto
  moreover have "dom (q_nodes (lfq_link t a l n (cs_q s))) = insert a (set (gs @ d # ps))"
    using dm p_link by (auto simp: lfq_link_def)
  ultimately have "cinv (s\<lparr>cs_q := lfq_link t a l n (cs_q s), cs_p := PLinked t\<rparr>) gs d ps (Some a)"
    using p_link fresh unfolding cinv_def owned_def consumer_ok_def
    by (auto simp: lfq_link_def split: cpc.splits)
  then show ?case by blast
next
  case (p_publish s t l n)
  obtain a where a: "e = Some a" "a \<notin> set (gs @ d # ps)" "q_nodes (cs_q s) a = Some (new_node t)"
      "dom (q_nodes (cs_q s)) = insert a (set (gs @ d # ps))"
    using p_publish by (auto simp: cinv_def owned_def)
  have sh: "lfq_shape (cs_q s) gs d ps (Some a)" using p_publish a by (simp add: cinv_def)
  then have "node_next n = Some a"
    using p_publish(2,3) chain_append [of "q_nodes (cs_q s)" "gs @ butlast (d # ps)" "[last (d # ps)]"]
    by (simp add: lfq_shape_def del: last.simps butlast.simps)
  then have "lfq_shape ((cs_q s)\<lparr>q_last := node_next n\<rparr>) gs d (ps @ [a]) None"
    using lfq_shape_publish [OF sh a(2,3)] by (simp add: new_node_def)
  moreover have "val_at (q_nodes (cs_q s)) a = t" using a by (simp add: val_at_def new_node_def)
  ultimately have "cinv (s\<lparr>cs_q := (cs_q s)\<lparr>q_last := node_next n\<rparr>, cs_p := PTrim,
      cs_in := cs_in s @ [t]\<rparr>) gs d (ps @ [a]) None"
    using p_publish a unfolding cinv_def owned_def consumer_ok_def
    by (auto split: cpc.splits simp: hd_append)
  then show ?case by blast
next
  case (p_test s)
  then have "gs \<noteq> []" by (auto simp: cinv_def lfq_shape_def)
  with p_test have "cinv (s\<lparr>cs_p := PFree\<rparr>) gs d ps e"
    by (auto simp: cinv_def owned_def consumer_ok_def split: ppc.splits cpc.splits)
  then show ?case by blast
next
  case (p_exit s)
  then have "cinv (s\<lparr>cs_p := PIdle\<rparr>) gs d ps e"
    by (auto simp: cinv_def owned_def consumer_ok_def split: ppc.splits cpc.splits)
  then show ?case by blast
next
  case (p_free s temp n)
  then obtain g gs' where gs: "gs = g # gs'" by (cases gs) (auto simp: cinv_def)
  then have g: "temp = g" using p_free by (simp add: cinv_def lfq_shape_def)
  let ?h = "(q_nodes (cs_q s))(g := None)"
  have sh: "lfq_shape ((cs_q s)\<lparr>q_first := node_next n, q_nodes := ?h\<rparr>) gs' d ps e"
    using p_free gs g by (intro lfq_shape_free_first) (auto simp: cinv_def)
  have notin: "g \<notin> set (gs' @ d # ps)" using p_free gs by (simp add: cinv_def lfq_shape_def)
  then have vals: "map (val_at ?h) ps = map (val_at (q_nodes (cs_q s))) ps"
    by (intro val_at_upd_other) simp
  moreover have "dom ?h = set (gs' @ d # ps)"
    using p_free gs notin by (auto simp: cinv_def owned_def)
  moreover have "ps \<noteq> [] \<Longrightarrow> val_at ?h (hd ps) = val_at (q_nodes (cs_q s)) (hd ps)"
    using vals by (cases ps) auto
  ultimately have "cinv (s\<lparr>cs_q := (cs_q s)\<lparr>q_first := node_next n, q_nodes := ?h\<rparr>, cs_p := PTrim\<rparr>) gs' d ps e"
    using p_free sh unfolding cinv_def owned_def consumer_ok_def
    by (auto split: cpc.splits)
  then show ?case using g by blast
qed

lemma cinv_cstep:
  assumes "lfq_cstep s t" and "cinv s gs d ps e"
  shows "\<exists>gs' d' ps'. cinv t gs' d' ps' e"
  using assms
proof (induction rule: lfq_cstep.induct)
  case (c_empty s)
  then show ?case by blast
next
  case (c_test s)
  then have "ps \<noteq> []" by (auto simp: cinv_def lfq_shape_def)
  with c_test have "cinv (s\<lparr>cs_c := CTaken\<rparr>) gs d ps e"
    by (auto simp: cinv_def owned_def consumer_ok_def split: ppc.splits cpc.splits)
  then show ?case by blast
next
  case (c_read s d0 n d' n')
  then obtain p ps' where ps: "ps = p # ps'" by (cases ps) (auto simp: cinv_def consumer_ok_def)
  then have "d' = p" using c_read by (auto simp: cinv_def lfq_shape_def chain_append)
  then have "cinv (s\<lparr>cs_c := CRead (node_value n')\<rparr>) gs d ps e"
    using c_read ps by (auto simp: cinv_def owned_def consumer_ok_def val_at_def split: ppc.splits)
  then show ?case by blast
next
  case (c_advance s v d0 n)
  then obtain p ps' where ps: "ps = p # ps'" by (cases ps) (auto simp: cinv_def consumer_ok_def)
  then have "node_next n = Some p"
    using c_advance by (auto simp: cinv_def lfq_shape_def chain_append)
  moreover have "lfq_shape ((cs_q s)\<lparr>q_divider := Some p\<rparr>) (gs @ [d]) p ps' e"
    using c_advance ps by (cases gs) (auto simp: cinv_def lfq_shape_def)
  ultimately have "cinv (s\<lparr>cs_q := (cs_q s)\<lparr>q_divider := node_next n\<rparr>, cs_c := CIdle,
       cs_out := cs_out s @ [v]\<rparr>) (gs @ [d]) p ps' e"
    using c_advance ps unfolding cinv_def owned_def consumer_ok_def
    by (auto split: ppc.splits)
  then show ?case by blast
qed

lemma reachable_cinv: "lfq_reachable v s \<Longrightarrow> \<exists>gs d ps e. cinv s gs d ps e"
proof (induction rule: lfq_reachable.induct)
  case start
  show ?case using cinv_init [of v] by blast
next
  case (producer s t)
  then show ?case using cinv_pstep by blast
next
  case (consumer s t)
  then show ?case using cinv_cstep by blast
qed

lemma cinv_producer_steps:
  assumes "cinv s gs d ps e"
  shows "\<exists>t. lfq_pstep s t"
proof -
  have sh: "lfq_shape (cs_q s) gs d ps e" using assms by (simp add: cinv_def)
  obtain n where n: "q_nodes (cs_q s) (last (d # ps)) = Some n" using last_allocated [OF sh] by blast
  have l: "q_last (cs_q s) = Some (last (d # ps))" using sh by (simp add: lfq_shape_def)
  show ?thesis
  proof (cases "cs_p s")
    case PIdle
    then have "finite (dom (q_nodes (cs_q s)))" using assms by (simp add: cinv_def owned_def)
    then obtain a where "a \<notin> dom (q_nodes (cs_q s))" using ex_new_if_finite infinite_UNIV_nat by metis
    then show ?thesis using lfq_pstep.p_link [OF PIdle l n] by blast
  next
    case (PLinked t)
    then show ?thesis using lfq_pstep.p_publish [OF PLinked l n] by blast
  next
    case PTrim
    then show ?thesis by (cases "q_first (cs_q s) = q_divider (cs_q s)")
      (blast intro: lfq_pstep.p_test lfq_pstep.p_exit)+
  next
    case PFree
    then obtain g gs' where "gs = g # gs'" using assms by (cases gs) (auto simp: cinv_def)
    then show ?thesis using PFree sh
      by (auto simp: lfq_shape_def split: option.splits intro: lfq_pstep.p_free)
  qed
qed

lemma cinv_consumer_steps:
  assumes "cinv s gs d ps e"
  shows "\<exists>t. lfq_cstep s t"
proof -
  have sh: "lfq_shape (cs_q s) gs d ps e" and co: "consumer_ok s ps"
    using assms by (auto simp: cinv_def)
  have dv: "q_divider (cs_q s) = Some d" using sh by (simp add: lfq_shape_def)
  obtain n where n: "q_nodes (cs_q s) d = Some n"
    using sh by (auto simp: lfq_shape_def chain_append split: option.splits)
  show ?thesis
  proof (cases "cs_c s")
    case CIdle
    then show ?thesis by (cases "q_divider (cs_q s) = q_last (cs_q s)")
      (blast intro: lfq_cstep.c_empty lfq_cstep.c_test)+
  next
    case CTaken
    then obtain p ps' where ps: "ps = p # ps'" using co by (cases ps) (auto simp: consumer_ok_def)
    then have "node_next n = Some p" "\<exists>n'. q_nodes (cs_q s) p = Some n'"
      using sh n by (auto simp: lfq_shape_def chain_append split: option.splits)
    then show ?thesis using lfq_cstep.c_read [OF CTaken dv n] by blast
  next
    case (CRead v)
    then show ?thesis using lfq_cstep.c_advance [OF CRead dv n] by blast
  qed
qed

section \<open>Properties\<close>

text \<open>
  C24: Used by one thread, the queue is a FIFO list: for every sequence of
  \<open>produce\<close> and \<open>consume\<close> calls on a new queue, no call touches freed or
  unallocated memory, every call terminates, and the results are those of the
  list specification.
\<close>

theorem lfq_refines_list:
  "\<exists>q'. qrun lfq_produce lfq_consume ops (lfq_new v) = Some (fst (spec_run ops []), q') \<and>
     lfq_rep q' (snd (spec_run ops []))"
  by (rule lq.qrun_refines [OF lfq_rep_new])

text \<open>
  C3: In every interleaving of the producer's and the consumer's memory accesses
  the values consumed so far are a prefix of the values produced so far, in
  order, and what is still missing is exactly what the list from the divider
  holds.
\<close>

theorem lfq_concurrent_fifo:
  assumes "lfq_reachable v s"
  shows "\<exists>gs d ps e. lfq_shape (cs_q s) gs d ps e \<and>
           cs_in s = cs_out s @ map (val_at (q_nodes (cs_q s))) ps"
  using reachable_cinv [OF assms] unfolding cinv_def by blast

definition one_in :: "nat csys" where
  "one_in = \<lparr>cs_q = (lfq_link 7 1 0 (new_node 0) (lfq_new 0))\<lparr>q_last := Some 1\<rparr>,
     cs_p = PTrim, cs_c = CIdle, cs_in = [7], cs_out = []\<rparr>"

lemma one_in_reachable: "lfq_reachable 0 one_in"
proof -
  let ?q = "lfq_link 7 1 0 (new_node 0) (lfq_new (0::nat))"
  have "lfq_pstep (csys_init 0) ((csys_init 0)\<lparr>cs_q := lfq_link 7 1 0 (new_node 0) (cs_q (csys_init (0::nat))),
      cs_p := PLinked 7\<rparr>)"
    by (rule lfq_pstep.p_link) (simp_all add: csys_init_def lfq_new_def)
  then have 1: "lfq_reachable 0 \<lparr>cs_q = ?q, cs_p = PLinked 7, cs_c = CIdle, cs_in = [], cs_out = []\<rparr>"
    using lfq_reachable.producer [OF lfq_reachable.start] by (simp add: csys_init_def)
  have "q_nodes ?q 0 = Some ((new_node 0)\<lparr>node_next := Some 1\<rparr>)" "q_last ?q = Some 0"
    by (simp_all add: lfq_link_def lfq_new_def)
  then show ?thesis
    using lfq_reachable.producer [OF 1 lfq_pstep.p_publish [of _ 7 0 "(new_node 0)\<lparr>node_next := Some 1\<rparr>"]]
    by (simp add: one_in_def)
qed

theorem lfq_concurrent_fifo_witness:
  "cs_in one_in = [7] \<and> (\<exists>gs d ps e. lfq_shape (cs_q one_in) gs d ps e \<and>
     cs_in one_in = cs_out one_in @ map (val_at (q_nodes (cs_q one_in))) ps)"
  using lfq_concurrent_fifo [OF one_in_reachable] by (simp add: one_in_def)

text \<open>
  C17: No interleaving makes either thread touch freed or unallocated memory:
  in every reachable state both threads can take their next step, although the
  producer deletes nodes while the consumer reads.
\<close>

theorem lfq_concurrent_safe:
  assumes "lfq_reachable v s"
  shows "(\<exists>t. lfq_pstep s t) \<and> (\<exists>t. lfq_cstep s t)"
  using reachable_cinv [OF assms] cinv_producer_steps cinv_consumer_steps by blast

theorem lfq_concurrent_safe_witness:
  "cs_in one_in = [7] \<and> (\<exists>t. lfq_pstep one_in t) \<and> (\<exists>t. lfq_cstep one_in t)"
  using lfq_concurrent_safe [OF one_in_reachable] by (simp add: one_in_def)

text \<open>
  After any sequence of calls, the destructor returns, frees every node
  the queue still owns, and frees none twice.
\<close>

lemma lfq_destructor_frees_all:
  "\<exists>rs q q'. qrun lfq_produce lfq_consume ops (lfq_new v) = Some (rs, q) \<and>
     lfq_destroy q = Some q' \<and> q_nodes q' = Map.empty"
  using lq.qrun_refines [OF lfq_rep_new, of ops v] lfq_destroy_rep by blast

end
