(* ===== verification/Sds.thy ===== *)
theory Sds
  imports Zf_Prelude
begin

text \<open>
  The dynamic strings of \<open>src/util/sds.h\<close> and \<open>src/util/sds.cpp\<close>: the header
  record, one definition per function, the representation invariant
  \<open>sds_ok\<close> with its preservation by every operation, and the value
  \<open>sds_val\<close> that callers see with what every operation does to it.

  A result \<open>None\<close> is undefined behaviour or a failed assertion, \<open>Some None\<close> a
  returned \<open>NULL\<close>, \<open>Some (Some s)\<close> a returned string. The block behind a string
  is its header and the whole of \<open>sds_buf\<close>. Arguments that are pointers are the
  bytes they point to; they do not alias the string being changed.
\<close>

section \<open>The header and its accessors\<close>

(* src/src/util/sds.h:39-45, sdshdr *)
record sds =
  sds_len :: int
  sds_free :: int
  sds_buf :: string

(* src/src/util/sds.h:34-34, SDS_MAX_PREALLOC *)
definition SDS_MAX_PREALLOC :: int where
  "SDS_MAX_PREALLOC = 1024 * 1024"

(* src/src/util/sds.h:47-50, sdslen *)
definition sdslen :: "sds \<Rightarrow> int" where
  "sdslen s = u64 (sds_len s)"

(* src/src/util/sds.h:52-55, sdsavail *)
definition sdsavail :: "sds \<Rightarrow> int" where
  "sdsavail s = u64 (sds_free s)"

text \<open>
  The bytes of \<open>buf\<close> in a block of \<open>sizeof(struct sdshdr) + n + 1\<close> bytes, the
  size computed in \<open>size_t\<close>.
\<close>

definition sizeof_sdshdr :: int where
  "sizeof_sdshdr = 8"

definition sds_room :: "int \<Rightarrow> nat" where
  "sds_room n = nat (u64 (sizeof_sdshdr + n + 1) - sizeof_sdshdr)"

section \<open>Creation\<close>

(* src/src/util/sds.cpp:39-54, sdsnewlen *)
definition sdsnewlen :: "allocator \<Rightarrow> string option \<Rightarrow> int \<Rightarrow> sds option option" where
  "sdsnewlen a init initlen =
     (case (case init of Some _ \<Rightarrow> malloc_block a (sds_room initlen)
                       | None \<Rightarrow> calloc_block a (sds_room initlen)) of
        None \<Rightarrow> Some None
      | Some b \<Rightarrow> do {
          b \<leftarrow> (case init of
                  Some t \<Rightarrow> (if initlen \<noteq> 0 then do { src \<leftarrow> load_at t 0 (nat initlen); store_at b 0 src }
                            else Some b)
                | None \<Rightarrow> Some b);
          b \<leftarrow> poke b (nat initlen) NUL;
          Some (Some \<lparr>sds_len = s32 initlen, sds_free = 0, sds_buf = b\<rparr>) })"

(* src/src/util/sds.cpp:56-58, sdsempty *)
definition sdsempty :: "allocator \<Rightarrow> sds option option" where
  "sdsempty a = sdsnewlen a (Some [NUL]) 0"

(* src/src/util/sds.cpp:60-63, sdsnew *)
definition sdsnew :: "allocator \<Rightarrow> string option \<Rightarrow> sds option option" where
  "sdsnew a init = sdsnewlen a init (case init of None \<Rightarrow> 0 | Some t \<Rightarrow> int (strlen t))"

(* src/src/util/sds.cpp:65-67, sdsdup *)
definition sdsdup :: "allocator \<Rightarrow> sds \<Rightarrow> sds option option" where
  "sdsdup a s = sdsnewlen a (Some (sds_buf s)) (sdslen s)"

section \<open>Length and room\<close>

(* src/src/util/sds.cpp:74-79, sdsupdatelen *)
definition sdsupdatelen :: "sds \<Rightarrow> sds option" where
  "sdsupdatelen s =
     (if NUL \<in> set (sds_buf s) then
        let reallen = s32 (int (strlen (sds_buf s))) in
        Some (s\<lparr>sds_free := s32 (sds_free s + (sds_len s - reallen)), sds_len := reallen\<rparr>)
      else None)"

(* src/src/util/sds.cpp:81-86, sdsclear *)
definition sdsclear :: "sds \<Rightarrow> sds option" where
  "sdsclear s = do {
     b \<leftarrow> poke (sds_buf s) 0 NUL;
     Some (s\<lparr>sds_free := s32 (sds_free s + sds_len s), sds_len := 0, sds_buf := b\<rparr>) }"

(* src/src/util/sds.cpp:88-112, sdsMakeRoomFor *)
definition sdsMakeRoomFor :: "allocator \<Rightarrow> sds \<Rightarrow> int \<Rightarrow> sds option" where
  "sdsMakeRoomFor a s addlen =
     (if addlen \<le> sdsavail s then Some s
      else let len = sdslen s;
               newlen = u64 (len + addlen);
               newlen = (if newlen < SDS_MAX_PREALLOC then u64 (newlen * 2)
                         else u64 (newlen + SDS_MAX_PREALLOC))
           in case realloc_block a (sds_buf s) (sds_room newlen) of
                None \<Rightarrow> None
              | Some b \<Rightarrow> Some (s\<lparr>sds_free := s32 (newlen - len), sds_buf := b\<rparr>))"

text \<open>
  \<open>sdsRemoveFreeSpace\<close> does not test the result of \<open>zrealloc\<close>; a refused request
  makes it write through \<open>NULL\<close>.
\<close>

(* src/src/util/sds.cpp:114-124, sdsRemoveFreeSpace *)
definition sdsRemoveFreeSpace :: "allocator \<Rightarrow> sds \<Rightarrow> sds option" where
  "sdsRemoveFreeSpace a s = do {
     b \<leftarrow> realloc_block a (sds_buf s) (sds_room (sds_len s));
     Some (s\<lparr>sds_free := 0, sds_buf := b\<rparr>) }"

(* src/src/util/sds.cpp:126-130, sdsAllocSize *)
definition sdsAllocSize :: "sds \<Rightarrow> int" where
  "sdsAllocSize s = u64 (sizeof_sdshdr + sds_len s + sds_free s + 1)"

(* src/src/util/sds.cpp:132-161, sdsIncrLen *)
definition sdsIncrLen :: "sds \<Rightarrow> int \<Rightarrow> sds option" where
  "sdsIncrLen s incr =
     (if incr \<le> sds_free s then
        let len = s32 (sds_len s + incr); free = s32 (sds_free s - incr) in
        if 0 \<le> free \<and> 0 \<le> len then do {
          b \<leftarrow> poke (sds_buf s) (nat len) NUL;
          Some (s\<lparr>sds_len := len, sds_free := free, sds_buf := b\<rparr>) }
        else None
      else None)"

(* src/src/util/sds.cpp:163-180, sdsgrowzero *)
definition sdsgrowzero :: "allocator \<Rightarrow> sds \<Rightarrow> int \<Rightarrow> sds option option" where
  "sdsgrowzero a s len =
     (let curlen = u64 (sds_len s) in
      if len \<le> curlen then Some (Some s)
      else case sdsMakeRoomFor a s (len - curlen) of
             None \<Rightarrow> Some None
           | Some s \<Rightarrow> do {
               b \<leftarrow> store_at (sds_buf s) (nat curlen) (replicate (nat (len - curlen + 1)) NUL);
               let totlen = u64 (sds_len s + sds_free s);
               Some (Some (s\<lparr>sds_len := s32 len, sds_free := s32 (totlen - s32 len), sds_buf := b\<rparr>)) })"

section \<open>Appending and copying\<close>

(* src/src/util/sds.cpp:182-194, sdscatlen *)
definition sdscatlen :: "allocator \<Rightarrow> sds \<Rightarrow> string \<Rightarrow> int \<Rightarrow> sds option option" where
  "sdscatlen a s t len =
     (let curlen = sdslen s in
      case sdsMakeRoomFor a s len of
        None \<Rightarrow> Some None
      | Some s \<Rightarrow> do {
          src \<leftarrow> load_at t 0 (nat len);
          b \<leftarrow> store_at (sds_buf s) (nat curlen) src;
          b \<leftarrow> poke b (nat (curlen + len)) NUL;
          Some (Some (s\<lparr>sds_len := s32 (curlen + len), sds_free := s32 (sds_free s - len), sds_buf := b\<rparr>)) })"

(* src/src/util/sds.cpp:196-198, sdscat *)
definition sdscat :: "allocator \<Rightarrow> sds \<Rightarrow> string \<Rightarrow> sds option option" where
  "sdscat a s t = sdscatlen a s t (int (strlen t))"

(* src/src/util/sds.cpp:200-202, sdscatsds *)
definition sdscatsds :: "allocator \<Rightarrow> sds \<Rightarrow> sds \<Rightarrow> sds option option" where
  "sdscatsds a s t = sdscatlen a s (sds_buf t) (sdslen t)"

(* src/src/util/sds.cpp:204-219, sdscpylen *)
definition sdscpylen :: "allocator \<Rightarrow> sds \<Rightarrow> string \<Rightarrow> int \<Rightarrow> sds option option" where
  "sdscpylen a s t len =
     (let totlen = u64 (sds_free s + sds_len s) in
      case (if totlen < len then sdsMakeRoomFor a s (u64 (len - sds_len s)) else Some s) of
        None \<Rightarrow> Some None
      | Some s \<Rightarrow> do {
          let totlen = u64 (sds_free s + sds_len s);
          src \<leftarrow> load_at t 0 (nat len);
          b \<leftarrow> store_at (sds_buf s) 0 src;
          b \<leftarrow> poke b (nat len) NUL;
          Some (Some (s\<lparr>sds_len := s32 len, sds_free := s32 (totlen - len), sds_buf := b\<rparr>)) })"

(* src/src/util/sds.cpp:221-223, sdscpy *)
definition sdscpy :: "allocator \<Rightarrow> sds \<Rightarrow> string \<Rightarrow> sds option option" where
  "sdscpy a s t = sdscpylen a s t (int (strlen t))"

text \<open>
  \<open>vsnprintf\<close> with a format and arguments whose complete output is \<open>out\<close>: it
  writes as much of it as fits and a terminating zero. The loop doubles the
  scratch buffer until its last but one byte stays zero.
\<close>

definition vsnprintf_into :: "string \<Rightarrow> string \<Rightarrow> string" where
  "vsnprintf_into buf out = blit buf 0 (take (length buf - 1) out @ [NUL])"

(* src/src/util/sds.cpp:228-242, sdscatvprintf *)
partial_function (option) catvprintf_buf :: "allocator \<Rightarrow> string \<Rightarrow> nat \<Rightarrow> string option option" where
  "catvprintf_buf a out buflen =
     (case malloc_block a buflen of
        None \<Rightarrow> Some None
      | Some buf \<Rightarrow>
          (let buf = vsnprintf_into (buf[buflen - 2 := NUL]) out in
           if buf ! (buflen - 2) \<noteq> NUL then catvprintf_buf a out (buflen * 2) else Some (Some buf)))"

(* src/src/util/sds.cpp:225-255, sdscatvprintf *)
definition sdscatprintf :: "allocator \<Rightarrow> sds \<Rightarrow> string \<Rightarrow> sds option option" where
  "sdscatprintf a s out = do {
     r \<leftarrow> catvprintf_buf a out 16;
     case r of None \<Rightarrow> Some None | Some buf \<Rightarrow> sdscat a s buf }"

section \<open>Changes in place\<close>

text \<open>\<open>strchr(cset, c) != NULL\<close>: the terminating zero of \<open>cset\<close> also matches.\<close>

definition strchr_in :: "string \<Rightarrow> char \<Rightarrow> bool" where
  "strchr_in cset c \<longleftrightarrow> c = NUL \<or> c \<in> set (cstr cset)"

(* src/src/util/sds.cpp:264-264, sdstrim *)
function trim_sp :: "string \<Rightarrow> string \<Rightarrow> int \<Rightarrow> int \<Rightarrow> int" where
  "trim_sp cset b sp e = (if sp \<le> e \<and> strchr_in cset (b ! nat sp) then trim_sp cset b (sp + 1) e else sp)"
  by auto
termination by (relation "measure (\<lambda>(_, _, sp, e). nat (e + 1 - sp))") auto

(* src/src/util/sds.cpp:265-265, sdstrim *)
function trim_ep :: "string \<Rightarrow> string \<Rightarrow> int \<Rightarrow> int" where
  "trim_ep cset b ep = (if 0 < ep \<and> strchr_in cset (b ! nat ep) then trim_ep cset b (ep - 1) else ep)"
  by auto
termination by (relation "measure (\<lambda>(_, _, ep). nat ep)") auto

declare trim_sp.simps [simp del] trim_ep.simps [simp del]

(* src/src/util/sds.cpp:257-272, sdstrim *)
definition sdstrim :: "sds \<Rightarrow> string \<Rightarrow> sds option" where
  "sdstrim s cset =
     (let e = sdslen s - 1;
          sp = trim_sp cset (sds_buf s) 0 e;
          ep = trim_ep cset (sds_buf s) e;
          len = (if ep < sp then 0 else ep - sp + 1)
      in do {
        src \<leftarrow> load_at (sds_buf s) (nat sp) (nat len);
        b \<leftarrow> (if sp \<noteq> 0 then store_at (sds_buf s) 0 src else Some (sds_buf s));
        b \<leftarrow> poke b (nat len) NUL;
        Some (s\<lparr>sds_free := s32 (sds_free s + (sds_len s - len)), sds_len := s32 len, sds_buf := b\<rparr>) })"

text \<open>
  \<open>sdsrange\<close>: the signed subtractions of the source are taken modulo the width of
  \<open>int\<close>, which is what its targets do.
\<close>

(* src/src/util/sds.cpp:279-286, sdsrange *)
definition range_index :: "int \<Rightarrow> int \<Rightarrow> int" where
  "range_index len i = (if i < 0 then let i' = s32 (u64 (len + i)) in if i' < 0 then 0 else i' else i)"

(* src/src/util/sds.cpp:287-297, sdsrange *)
definition range_window :: "int \<Rightarrow> int \<Rightarrow> int \<Rightarrow> int \<times> int" where
  "range_window len start e =
     (let newlen = (if e < start then 0 else u64 (s32 (e - start + 1))) in
      if newlen \<noteq> 0 then
        if s32 len \<le> start then (start, 0)
        else if s32 len \<le> e then
          let e = s32 (len - 1) in (start, if e < start then 0 else u64 (s32 (e - start + 1)))
        else (start, newlen)
      else (0, newlen))"

(* src/src/util/sds.cpp:274-303, sdsrange *)
definition sdsrange :: "sds \<Rightarrow> int \<Rightarrow> int \<Rightarrow> sds option" where
  "sdsrange s start0 end0 =
     (let len = sdslen s in
      if len = 0 then Some s
      else
        let (start, newlen) = range_window len (range_index len start0) (range_index len end0)
        in do {
          b \<leftarrow> (if start \<noteq> 0 \<and> newlen \<noteq> 0
               then do { src \<leftarrow> load_at (sds_buf s) (nat start) (nat newlen); store_at (sds_buf s) 0 src }
               else Some (sds_buf s));
          b \<leftarrow> poke b (nat newlen) NUL;
          Some (s\<lparr>sds_free := s32 (sds_free s + (sds_len s - newlen)), sds_len := s32 newlen, sds_buf := b\<rparr>) })"

text \<open>The loops that rewrite the first \<open>len\<close> bytes one by one.\<close>

fun map_upto :: "(char \<Rightarrow> char) \<Rightarrow> nat \<Rightarrow> nat \<Rightarrow> string \<Rightarrow> string option" where
  "map_upto f j 0 b = Some b"
| "map_upto f j (Suc n) b = do { c \<leftarrow> peek b j; b \<leftarrow> poke b j (f c); map_upto f (Suc j) n b }"

(* src/src/util/sds.cpp:305-309, sdstolower *)
definition sdstolower :: "sds \<Rightarrow> sds option" where
  "sdstolower s = do { b \<leftarrow> map_upto c_tolower 0 (nat (s32 (sdslen s))) (sds_buf s); Some (s\<lparr>sds_buf := b\<rparr>) }"

(* src/src/util/sds.cpp:311-315, sdstoupper *)
definition sdstoupper :: "sds \<Rightarrow> sds option" where
  "sdstoupper s = do { b \<leftarrow> map_upto c_toupper 0 (nat (s32 (sdslen s))) (sds_buf s); Some (s\<lparr>sds_buf := b\<rparr>) }"

text \<open>The inner loop of \<open>sdsmapchars\<close> stops at the first match.\<close>

(* src/src/util/sds.cpp:611-616, sdsmapchars *)
fun map_char :: "(char \<times> char) list \<Rightarrow> char \<Rightarrow> char" where
  "map_char [] c = c"
| "map_char ((f, t) # ps) c = (if c = f then t else map_char ps c)"

(* src/src/util/sds.cpp:598-619, sdsmapchars *)
definition sdsmapchars :: "sds \<Rightarrow> string \<Rightarrow> string \<Rightarrow> nat \<Rightarrow> sds option" where
  "sdsmapchars s from to setlen = do {
     f \<leftarrow> load_at from 0 setlen;
     t \<leftarrow> load_at to 0 setlen;
     b \<leftarrow> map_upto (map_char (zip f t)) 0 (nat (sdslen s)) (sds_buf s);
     Some (s\<lparr>sds_buf := b\<rparr>) }"

text \<open>\<open>memcmp\<close> up to the sign of its result.\<close>

fun memcmp_sgn :: "string \<Rightarrow> string \<Rightarrow> int" where
  "memcmp_sgn (x # xs) (y # ys) = (if x = y then memcmp_sgn xs ys else if ord x < ord y then -1 else 1)"
| "memcmp_sgn _ _ = 0"

(* src/src/util/sds.cpp:317-327, sdscmp *)
definition sdscmp :: "sds \<Rightarrow> sds \<Rightarrow> int option" where
  "sdscmp s1 s2 =
     (let l1 = sdslen s1; l2 = sdslen s2; minlen = (if l1 < l2 then l1 else l2) in do {
        x \<leftarrow> load_at (sds_buf s1) 0 (nat minlen);
        y \<leftarrow> load_at (sds_buf s2) 0 (nat minlen);
        let cmp = memcmp_sgn x y;
        if cmp = 0 then Some (s32 (u64 (l1 - l2))) else Some cmp })"

section \<open>The invariant and the value\<close>

text \<open>
  The header counts the buffer exactly, the byte after the contents is zero, and
  the sizes fit the \<open>int\<close> fields.
\<close>

definition sds_ok :: "sds \<Rightarrow> bool" where
  "sds_ok s \<longleftrightarrow> 0 \<le> sds_len s \<and> 0 \<le> sds_free s \<and> sds_len s + sds_free s < 2 ^ 31 \<and>
     length (sds_buf s) = nat (sds_len s + sds_free s) + 1 \<and> sds_buf s ! nat (sds_len s) = NUL"

definition sds_val :: "sds \<Rightarrow> string" where
  "sds_val s = take (nat (sds_len s)) (sds_buf s)"

lemma sds_okE:
  assumes "sds_ok s"
  obtains l f where "sds_len s = int l" "sds_free s = int f" "l + f < 2 ^ 31"
    "length (sds_buf s) = l + f + 1" "sds_buf s ! l = NUL"
proof
  show "sds_len s = int (nat (sds_len s))" "sds_free s = int (nat (sds_free s))"
    using assms by (simp_all add: sds_ok_def)
  show "nat (sds_len s) + nat (sds_free s) < 2 ^ 31"
    using assms by (simp add: sds_ok_def nat_add_distrib [symmetric] nat_less_iff)
  show "length (sds_buf s) = nat (sds_len s) + nat (sds_free s) + 1" "sds_buf s ! nat (sds_len s) = NUL"
    using assms by (simp_all add: sds_ok_def nat_add_distrib)
qed

lemma sds_okI:
  assumes "sds_len s = int l" "sds_free s = int f" "l + f < 2 ^ 31"
    "length (sds_buf s) = l + f + 1" "sds_buf s ! l = NUL"
  shows "sds_ok s"
  using assms by (simp add: sds_ok_def nat_add_distrib)

lemma length_sds_val: "sds_ok s \<Longrightarrow> length (sds_val s) = nat (sds_len s)"
  by (erule sds_okE) (simp add: sds_val_def)

lemma sdslen_val: "sds_ok s \<Longrightarrow> sdslen s = int (length (sds_val s))"
  by (simp add: length_sds_val) (simp add: sds_ok_def sdslen_def)

lemma sdsavail_free: "sds_ok s \<Longrightarrow> sdsavail s = sds_free s"
  by (simp add: sds_ok_def sdsavail_def)

lemma sdslen_len: "sds_ok s \<Longrightarrow> sdslen s = sds_len s"
  by (simp add: sds_ok_def sdslen_def)

text \<open>How a record with contents \<open>v\<close>, a zero and \<open>f\<close> spare bytes is recognised.\<close>

lemma sds_builtI:
  assumes "sds_buf s = v @ NUL # r" "sds_len s = int (length v)" "sds_free s = int (length r)"
    "length v + length r < 2 ^ 31"
  shows "sds_ok s \<and> sds_val s = v"
  using assms by (auto simp: sds_val_def nth_append intro!: sds_okI)

lemma sds_split:
  assumes "sds_ok s"
  obtains r where "sds_buf s = sds_val s @ NUL # r" "sds_free s = int (length r)"
    "sds_len s = int (length (sds_val s))" "length (sds_val s) + length r < 2 ^ 31"
proof -
  obtain l f where *: "sds_len s = int l" "sds_free s = int f" "l + f < 2 ^ 31"
    "length (sds_buf s) = l + f + 1" "sds_buf s ! l = NUL" using assms by (rule sds_okE)
  have "sds_buf s = take l (sds_buf s) @ sds_buf s ! l # drop (Suc l) (sds_buf s)"
    by (rule id_take_nth_drop) (use * in simp)
  with * that [of "drop (Suc l) (sds_buf s)"] show thesis by (simp add: sds_val_def)
qed

lemma sds_room_small: "0 \<le> n \<Longrightarrow> n < 2 ^ 63 \<Longrightarrow> sds_room n = nat n + 1"
  by (simp add: sds_room_def sizeof_sdshdr_def nat_add_distrib)

subsection \<open>Creation\<close>

lemma blit_all:
  assumes "length b = length w + 1"
  shows "(blit b 0 w)[length w := c] = w @ [c]"
proof (cases b rule: rev_cases)
  case Nil
  then show ?thesis using assms by simp
next
  case (snoc b' x)
  then show ?thesis using assms by (simp add: blit_def list_update_append)
qed

lemma sdsnewlen_init:
  assumes "mem_ok a" "0 \<le> n" "n < 2 ^ 31" "nat n \<le> length t"
  shows "\<exists>s. sdsnewlen a (Some t) n = Some (Some s) \<and> sds_ok s \<and> sds_val s = take (nat n) t \<and> sds_free s = 0"
proof -
  obtain b where b: "malloc_block a (nat n + 1) = Some b" "length b = nat n + 1"
    using malloc_block_ok [OF assms(1)] by blast
  let ?b = "(blit b 0 (take (nat n) t))[nat n := NUL]"
  have "?b = take (nat n) t @ [NUL]"
    using assms b blit_all [of b "take (nat n) t" NUL] by (simp add: min_def)
  then have "sds_ok \<lparr>sds_len = n, sds_free = 0, sds_buf = ?b\<rparr> \<and>
      sds_val \<lparr>sds_len = n, sds_free = 0, sds_buf = ?b\<rparr> = take (nat n) t"
    using assms by (intro sds_builtI [where r = "[]"]) (auto simp: min_def)
  then show ?thesis
    using assms b by (auto simp: sdsnewlen_def sds_room_small min_def)
qed

lemma sdsnewlen_zero:
  assumes "mem_ok a" "0 \<le> n" "n < 2 ^ 31"
  shows "\<exists>s. sdsnewlen a None n = Some (Some s) \<and> sds_ok s \<and> sds_val s = replicate (nat n) NUL \<and> sds_free s = 0"
proof -
  have "replicate (nat n + 1) NUL = replicate (nat n) NUL @ [NUL]"
    by (simp add: replicate_append_same)
  then have "(replicate (nat n + 1) NUL)[nat n := NUL] = replicate (nat n) NUL @ NUL # []"
    by (simp add: list_update_append del: replicate_Suc)
  then show ?thesis
    using assms sds_builtI [of "\<lparr>sds_len = n, sds_free = 0, sds_buf = replicate (nat n) NUL @ NUL # []\<rparr>" "replicate (nat n) NUL" "[]"]
    by (simp add: sdsnewlen_def sds_room_small calloc_block_ok del: replicate_Suc)
qed

lemma sdsempty_ok:
  "mem_ok a \<Longrightarrow> \<exists>s. sdsempty a = Some (Some s) \<and> sds_ok s \<and> sds_val s = [] \<and> sds_free s = 0"
  using sdsnewlen_init [of a 0 "[NUL]"] by (simp add: sdsempty_def)

lemma sdsnew_ok:
  assumes "mem_ok a" "strlen t < 2 ^ 31"
  shows "\<exists>s. sdsnew a (Some t) = Some (Some s) \<and> sds_ok s \<and> sds_val s = cstr t"
proof -
  have "take (strlen t) t = cstr t" "strlen t \<le> length t"
    by (auto simp: strlen_def cstr_def length_takeWhile_le) (metis takeWhile_eq_take)
  then show ?thesis using sdsnewlen_init [of a "int (strlen t)" t] assms by (auto simp: sdsnew_def)
qed

lemma sdsdup_ok:
  assumes "mem_ok a" "sds_ok s"
  shows "\<exists>s'. sdsdup a s = Some (Some s') \<and> sds_ok s' \<and> sds_val s' = sds_val s \<and> sds_free s' = 0"
proof -
  obtain r where r: "sds_buf s = sds_val s @ NUL # r" "length (sds_val s) + length r < 2 ^ 31"
    using assms(2) by (rule sds_split)
  have "\<exists>s'. sdsnewlen a (Some (sds_val s @ NUL # r)) (int (length (sds_val s))) = Some (Some s') \<and> sds_ok s' \<and>
      sds_val s' = take (nat (int (length (sds_val s)))) (sds_val s @ NUL # r) \<and> sds_free s' = 0"
    using r(2) assms(1) by (intro sdsnewlen_init) auto
  then show ?thesis using sdslen_val [OF assms(2)] r(1) by (simp add: sdsdup_def)
qed

subsection \<open>Room\<close>

text \<open>
  The largest content the operations that grow a string accept without a
  narrowing of the \<open>int\<close> fields.
\<close>

definition sds_limit :: nat where
  "sds_limit = 2 ^ 31 - 2 ^ 20 - 1"

lemma sdsMakeRoomFor_ok:
  assumes "mem_ok a" "sds_ok s" "0 \<le> n" "length (sds_val s) + nat n \<le> sds_limit"
  shows "\<exists>s'. sdsMakeRoomFor a s n = Some s' \<and> sds_ok s' \<and> sds_val s' = sds_val s \<and>
           sds_len s' = sds_len s \<and> n \<le> sds_free s'"
proof (cases "n \<le> sds_free s")
  case True
  then show ?thesis using assms by (simp add: sdsMakeRoomFor_def sdsavail_free)
next
  case False
  obtain r where r: "sds_buf s = sds_val s @ NUL # r" "sds_free s = int (length r)"
    "sds_len s = int (length (sds_val s))" "length (sds_val s) + length r < 2 ^ 31"
    using assms(2) by (rule sds_split)
  let ?m = "int (length (sds_val s)) + n"
  define k where "k = (if ?m < SDS_MAX_PREALLOC then ?m * 2 else ?m + SDS_MAX_PREALLOC)"
  have k: "?m \<le> k" "k < 2 ^ 31" "0 \<le> ?m"
    using assms(3,4) by (auto simp: k_def SDS_MAX_PREALLOC_def sds_limit_def)
  have k': "(if u64 (sdslen s + n) < SDS_MAX_PREALLOC then u64 (u64 (sdslen s + n) * 2)
      else u64 (u64 (sdslen s + n) + SDS_MAX_PREALLOC)) = k"
    using k assms(2,3) by (simp add: k_def sdslen_val SDS_MAX_PREALLOC_def)
  obtain b where b: "realloc_block a (sds_buf s) (nat k + 1) = Some b" "length b = nat k + 1"
      "\<forall>j \<le> min (nat k + 1) (length (sds_buf s)). take j b = take j (sds_buf s)"
    using realloc_block_ok [OF assms(1)] by blast
  let ?s = "s\<lparr>sds_free := k - sds_len s, sds_buf := b\<rparr>"
  have "take (length (sds_val s) + 1) b = sds_val s @ [NUL]"
    using b(3) [rule_format, of "length (sds_val s) + 1"] k False r assms(3) by simp
  then have "b = sds_val s @ NUL # drop (length (sds_val s) + 1) b"
    by (metis append.assoc append_Cons append_Nil append_take_drop_id)
  then have "sds_ok ?s \<and> sds_val ?s = sds_val s"
    using r k b(2) False assms(3) by (intro sds_builtI) auto
  moreover have "sdsMakeRoomFor a s n = Some ?s"
    using False assms(2) k b(1) r(2,3) unfolding sdsMakeRoomFor_def Let_def k'
    by (simp add: sdsavail_free sds_room_small sdslen_len)
  ultimately show ?thesis using k r False by auto
qed

lemma sdsMakeRoomFor_null:
  "\<not> n \<le> sdsavail s \<Longrightarrow> hs_ok a = (\<lambda>_. False) \<Longrightarrow> sdsMakeRoomFor a s n = None"
  by (simp add: sdsMakeRoomFor_def realloc_block_def Let_def)

lemma sdsRemoveFreeSpace_ok:
  assumes "mem_ok a" "sds_ok s"
  shows "\<exists>s'. sdsRemoveFreeSpace a s = Some s' \<and> sds_ok s' \<and> sds_val s' = sds_val s \<and> sds_free s' = 0"
proof -
  obtain r where r: "sds_buf s = sds_val s @ NUL # r" "sds_free s = int (length r)"
    "sds_len s = int (length (sds_val s))" "length (sds_val s) + length r < 2 ^ 31"
    using assms(2) by (rule sds_split)
  obtain b where b: "realloc_block a (sds_buf s) (length (sds_val s) + 1) = Some b"
      "length b = length (sds_val s) + 1"
      "\<forall>j \<le> min (length (sds_val s) + 1) (length (sds_buf s)). take j b = take j (sds_buf s)"
    using realloc_block_ok [OF assms(1)] by blast
  have "b = sds_val s @ [NUL]"
    using b(2) b(3) [rule_format, of "length (sds_val s) + 1"] r(1) by simp
  then have "sds_ok (s\<lparr>sds_free := 0, sds_buf := b\<rparr>) \<and> sds_val (s\<lparr>sds_free := 0, sds_buf := b\<rparr>) = sds_val s"
    using r by (intro sds_builtI [where r = "[]"]) auto
  then show ?thesis using b(1) r by (auto simp: sdsRemoveFreeSpace_def sds_room_small)
qed

lemma sdsAllocSize_ok: "sds_ok s \<Longrightarrow> sdsAllocSize s = sizeof_sdshdr + int (length (sds_buf s))"
  by (erule sds_okE) (simp add: sdsAllocSize_def sizeof_sdshdr_def)

subsection \<open>Appending and copying\<close>

lemma sdscatlen_ok:
  assumes "mem_ok a" "sds_ok s" "0 \<le> n" "nat n \<le> length t" "length (sds_val s) + nat n \<le> sds_limit"
  shows "\<exists>s'. sdscatlen a s t n = Some (Some s') \<and> sds_ok s' \<and> sds_val s' = sds_val s @ take (nat n) t"
proof -
  obtain s1 where s1: "sdsMakeRoomFor a s n = Some s1" "sds_ok s1" "sds_val s1 = sds_val s"
      "sds_len s1 = sds_len s" "n \<le> sds_free s1"
    using sdsMakeRoomFor_ok [OF assms(1,2,3,5)] by blast
  obtain r where r: "sds_buf s1 = sds_val s @ NUL # r" "sds_free s1 = int (length r)"
    "sds_len s1 = int (length (sds_val s))" "length (sds_val s) + length r < 2 ^ 31"
    using sds_split [OF s1(2)] s1(3) by metis
  define w where "w = take (nat n) t"
  have w: "length w = nat n" using assms by (simp add: w_def)
  have cur: "sdslen s = int (length (sds_val s))" using assms(2) by (rule sdslen_val)
  let ?b = "(blit (sds_buf s1) (length (sds_val s)) w)[length (sds_val s) + length w := NUL]"
  have lw: "length w \<le> length r" using s1(5) r(2) w by simp
  have "?b = (sds_val s @ w) @ NUL # drop (length w) r"
    using lw r(1) by (cases w) (auto simp: blit_def list_update_append drop_Cons' upd_conv_take_nth_drop Cons_nth_drop_Suc)
  moreover define s2 where "s2 = s1\<lparr>sds_len := int (length (sds_val s)) + n, sds_free := sds_free s1 - n, sds_buf := ?b\<rparr>"
  ultimately have "sds_ok s2 \<and> sds_val s2 = sds_val s @ w"
    using r w lw s1 assms(3) by (intro sds_builtI) auto
  moreover have "sdscatlen a s t n = Some (Some s2)"
    using s1(1) r w lw assms(3-5) unfolding sdscatlen_def Let_def s2_def cur
    by (simp add: w_def [symmetric] nat_add_distrib sds_limit_def)
  ultimately show ?thesis by (auto simp: w_def)
qed

lemma take_strlen: "take (strlen t) t = cstr t" "strlen t \<le> length t"
  by (auto simp: strlen_def cstr_def length_takeWhile_le) (metis takeWhile_eq_take)

lemma sdscat_ok:
  assumes "mem_ok a" "sds_ok s" "length (sds_val s) + strlen t \<le> sds_limit"
  shows "\<exists>s'. sdscat a s t = Some (Some s') \<and> sds_ok s' \<and> sds_val s' = sds_val s @ cstr t"
  using sdscatlen_ok [OF assms(1,2), of "int (strlen t)" t] assms(3)
  by (auto simp: sdscat_def take_strlen)

lemma sdscatsds_ok:
  assumes "mem_ok a" "sds_ok s" "sds_ok t" "length (sds_val s) + length (sds_val t) \<le> sds_limit"
  shows "\<exists>s'. sdscatsds a s t = Some (Some s') \<and> sds_ok s' \<and> sds_val s' = sds_val s @ sds_val t"
proof -
  obtain r where "sds_buf t = sds_val t @ NUL # r" using assms(3) by (rule sds_split)
  then show ?thesis using sdscatlen_ok [OF assms(1,2), of "int (length (sds_val t))" "sds_buf t"] assms(3,4)
    by (auto simp: sdscatsds_def sdslen_val)
qed

lemma blit_front:
  "length w < length b \<Longrightarrow> (blit b 0 w)[length w := c] = w @ c # drop (Suc (length w)) b"
  by (simp add: blit_def list_update_append upd_conv_take_nth_drop)

lemma sdscpylen_ok:
  assumes "mem_ok a" "sds_ok s" "0 \<le> n" "nat n \<le> length t" "nat n \<le> sds_limit"
  shows "\<exists>s'. sdscpylen a s t n = Some (Some s') \<and> sds_ok s' \<and> sds_val s' = take (nat n) t"
proof -
  have tot: "u64 (sds_free s' + sds_len s') = sds_len s' + sds_free s'" if "sds_ok s'" for s'
    using that by (simp add: sds_ok_def add.commute)
  obtain s1 where s1: "(if u64 (sds_free s + sds_len s) < n then sdsMakeRoomFor a s (u64 (n - sds_len s)) else Some s) = Some s1"
      "sds_ok s1" "n \<le> sds_len s1 + sds_free s1"
  proof (cases "sds_len s + sds_free s < n")
    case True
    have pos: "0 \<le> sds_len s" "0 \<le> sds_free s" using assms(2) by (auto simp: sds_ok_def)
    then have d: "u64 (n - sds_len s) = n - sds_len s" "0 \<le> n - sds_len s"
      using True assms(5) by (simp_all add: sds_limit_def)
    have "length (sds_val s) + nat (n - sds_len s) \<le> sds_limit"
      using assms(2,5) d(2) pos by (simp add: length_sds_val)
    then obtain s1 where "sdsMakeRoomFor a s (n - sds_len s) = Some s1" "sds_ok s1"
        "sds_len s1 = sds_len s" "n - sds_len s \<le> sds_free s1"
      using sdsMakeRoomFor_ok [OF assms(1,2) d(2)] by blast
    then show thesis using that [of s1] True assms(2) d tot by simp
  next
    case False
    then show thesis using that [of s] assms(2) tot by simp
  qed
  obtain l f where lf: "sds_len s1 = int l" "sds_free s1 = int f" "l + f < 2 ^ 31"
      "length (sds_buf s1) = l + f + 1" using s1(2) by (rule sds_okE)
  define w where "w = take (nat n) t"
  have w: "length w = nat n" "nat n \<le> l + f" using assms s1(3) lf by (simp_all add: w_def)
  let ?b = "(blit (sds_buf s1) 0 w)[length w := NUL]"
  have "?b = w @ NUL # drop (Suc (length w)) (sds_buf s1)"
    using w lf by (intro blit_front) simp
  moreover define s2 where "s2 = s1\<lparr>sds_len := n, sds_free := sds_len s1 + sds_free s1 - n, sds_buf := ?b\<rparr>"
  ultimately have "sds_ok s2 \<and> sds_val s2 = w"
    using w lf assms(3) by (intro sds_builtI) auto
  moreover have "sdscpylen a s t n = Some (Some s2)"
    using w lf assms(3-5) s1(1) tot [OF s1(2)] unfolding sdscpylen_def Let_def s2_def
    by (simp add: w_def [symmetric] sds_limit_def)
  ultimately show ?thesis by (auto simp: w_def)
qed

subsection \<open>Formatted output\<close>

lemma vsnprintf_short:
  assumes "length out + 1 < length buf" and "NUL \<notin> set out"
  shows "cstr (vsnprintf_into buf out) = out"
  using assms by (simp add: vsnprintf_into_def blit_def cstr_no_nul)

lemma nth_vsnprintf_long:
  assumes "length buf \<le> length out + 1" "2 \<le> length buf"
  shows "vsnprintf_into buf out ! (length buf - 2) = out ! (length buf - 2)"
proof -
  have "length buf - 2 < length (take (length buf - 1) out)" using assms by simp
  then show ?thesis using assms by (simp add: vsnprintf_into_def blit_def nth_append)
qed

lemma nth_vsnprintf_short:
  assumes "length out + 1 < length buf" "buf ! (length buf - 2) = NUL"
  shows "vsnprintf_into buf out ! (length buf - 2) = NUL"
proof (cases "length buf - 2 = length out")
  case True
  then show ?thesis using assms by (simp add: vsnprintf_into_def blit_def nth_append)
next
  case False
  then have "length (out @ [NUL]) \<le> length buf - 2" using assms by simp
  then show ?thesis using assms nth_blit_out [of 0 "out @ [NUL]" buf "length buf - 2"]
    by (simp add: vsnprintf_into_def)
qed

text \<open>
  The doubling loop returns for every output without zero bytes: a long enough
  buffer leaves the probed byte zero.
\<close>

lemma catvprintf_buf_ok:
  assumes "mem_ok a" "NUL \<notin> set out" "2 \<le> n"
  shows "\<exists>b. catvprintf_buf a out n = Some (Some b) \<and> cstr b = out"
  using assms(3)
proof (induction "length out + 2 - n" arbitrary: n rule: less_induct)
  case less
  obtain b0 where b0: "malloc_block a n = Some b0" "length b0 = n"
    using malloc_block_ok [OF assms(1)] by blast
  let ?b = "b0[n - 2 := NUL]"
  show ?case
  proof (cases "length out + 1 < n")
    case True
    then have "vsnprintf_into ?b out ! (n - 2) = NUL" "cstr (vsnprintf_into ?b out) = out"
      using nth_vsnprintf_short [of out ?b] vsnprintf_short [of out ?b] b0(2) assms(2) by simp_all
    then show ?thesis by (subst catvprintf_buf.simps) (simp add: b0 Let_def)
  next
    case False
    then have "n - 2 < length out" using less.prems by simp
    then have "out ! (n - 2) \<noteq> NUL" using assms(2) nth_mem [of "n - 2" out] by metis
    moreover have "vsnprintf_into ?b out ! (n - 2) = out ! (n - 2)"
      using nth_vsnprintf_long [of ?b out] b0(2) less.prems False by simp
    moreover have "\<exists>b. catvprintf_buf a out (n * 2) = Some (Some b) \<and> cstr b = out"
      using False less.prems by (intro less.hyps) auto
    ultimately show ?thesis by (subst catvprintf_buf.simps) (simp add: b0 Let_def)
  qed
qed

lemma sdscatprintf_ok:
  assumes "mem_ok a" "sds_ok s" "NUL \<notin> set out" "length (sds_val s) + length out \<le> sds_limit"
  shows "\<exists>s'. sdscatprintf a s out = Some (Some s') \<and> sds_ok s' \<and> sds_val s' = sds_val s @ out"
proof -
  obtain b where b: "catvprintf_buf a out 16 = Some (Some b)" "cstr b = out"
    using catvprintf_buf_ok [OF assms(1,3), of 16] by auto
  then show ?thesis
    using sdscat_ok [OF assms(1,2), of b] assms(4) by (simp add: sdscatprintf_def strlen_def)
qed

subsection \<open>Changes in place\<close>

lemma sdsclear_ok:
  assumes "sds_ok s"
  shows "\<exists>s'. sdsclear s = Some s' \<and> sds_ok s' \<and> sds_val s' = [] \<and> length (sds_buf s') = length (sds_buf s)"
proof -
  obtain l f where lf: "sds_len s = int l" "sds_free s = int f" "l + f < 2 ^ 31"
      "length (sds_buf s) = l + f + 1" using assms by (rule sds_okE)
  let ?s = "s\<lparr>sds_free := sds_free s + sds_len s, sds_len := 0, sds_buf := (sds_buf s)[0 := NUL]\<rparr>"
  have "sds_ok ?s" using lf by (intro sds_okI [of _ 0 "l + f"]) auto
  moreover have "sdsclear s = Some ?s" using lf by (simp add: sdsclear_def)
  ultimately show ?thesis by (auto simp: sds_val_def)
qed

lemma sdsIncrLen_ok:
  assumes "sds_ok s" "- sds_len s \<le> n" "n \<le> sds_free s"
  shows "\<exists>s'. sdsIncrLen s n = Some s' \<and> sds_ok s' \<and>
           sds_val s' = take (nat (sds_len s + n)) (sds_buf s)"
proof -
  obtain l f where lf: "sds_len s = int l" "sds_free s = int f" "l + f < 2 ^ 31"
      "length (sds_buf s) = l + f + 1" using assms(1) by (rule sds_okE)
  define k where "k = nat (int l + n)"
  have k: "int l + n = int k" "k \<le> l + f" using assms lf by (auto simp: k_def)
  let ?s = "s\<lparr>sds_len := int k, sds_free := int (l + f - k), sds_buf := (sds_buf s)[k := NUL]\<rparr>"
  have "sds_ok ?s" using lf k by (intro sds_okI [of _ k "l + f - k"]) auto
  moreover have "sdsIncrLen s n = Some ?s"
    using lf k assms by (simp add: sdsIncrLen_def Let_def algebra_simps)
  ultimately show ?thesis using lf k by (auto simp: sds_val_def)
qed

text \<open>A direct read into the free space, followed by \<open>sdsIncrLen\<close>.\<close>

lemma sdsIncrLen_after_read:
  assumes "sds_ok s" "int (length bs) \<le> sds_free s"
  shows "\<exists>buf s'. store_at (sds_buf s) (length (sds_val s)) bs = Some buf \<and>
    sdsIncrLen (s\<lparr>sds_buf := buf\<rparr>) (int (length bs)) = Some s' \<and> sds_ok s' \<and> sds_val s' = sds_val s @ bs"
proof -
  obtain r where r: "sds_buf s = sds_val s @ NUL # r" "sds_free s = int (length r)"
    "sds_len s = int (length (sds_val s))" "length (sds_val s) + length r < 2 ^ 31"
    using assms(1) by (rule sds_split)
  let ?v = "sds_val s" and ?n = "length bs"
  have n: "?n \<le> length r" using assms(2) r(2) by simp
  let ?buf = "?v @ bs @ drop ?n (NUL # r)"
  have st: "store_at (sds_buf s) (length ?v) bs = Some ?buf" using n r(1) by (simp add: blit_def)
  have l: "s32 (sds_len s + int ?n) = int (length ?v + ?n)" "s32 (sds_free s - int ?n) = int (length r - ?n)"
    using n r by (simp_all add: of_nat_diff)
  let ?b = "(?v @ bs) @ NUL # drop (Suc ?n) (NUL # r)"
  have "(drop ?n (NUL # r))[0 := NUL] = NUL # drop (Suc ?n) (NUL # r)"
    using n Cons_nth_drop_Suc [of ?n "NUL # r"] by (metis le_imp_less_Suc length_Cons list_update_code(2))
  then have pk: "poke ?buf (length ?v + ?n) NUL = Some ?b" using n by (simp add: list_update_append)
  let ?s = "s\<lparr>sds_len := int (length ?v + ?n), sds_free := int (length r - ?n), sds_buf := ?b\<rparr>"
  have "sdsIncrLen (s\<lparr>sds_buf := ?buf\<rparr>) (int ?n) = Some ?s"
    using assms(2) l pk by (simp add: sdsIncrLen_def Let_def nat_int_add del: append_assoc drop_Suc_Cons)
  moreover have "sds_ok ?s \<and> sds_val ?s = ?v @ bs" using n r(4) 
    by (intro sds_builtI [of _ _ "drop (Suc ?n) (NUL # r)"]) simp_all
  ultimately show ?thesis using st by blast
qed

lemma sdsIncrLen_assert: "sds_free s < n \<Longrightarrow> sdsIncrLen s n = None"
  by (simp add: sdsIncrLen_def)

lemma sdsgrowzero_ok:
  assumes "mem_ok a" "sds_ok s" "0 \<le> n" "nat n \<le> sds_limit"
  shows "\<exists>s'. sdsgrowzero a s n = Some (Some s') \<and> sds_ok s' \<and>
           sds_val s' = sds_val s @ replicate (nat n - length (sds_val s)) NUL"
proof (cases "n \<le> sds_len s")
  case True
  then show ?thesis using assms by (simp add: sdsgrowzero_def sds_ok_def length_sds_val)
next
  case False
  have pos: "0 \<le> sds_len s" "u64 (sds_len s) = sds_len s" using assms(2) by (auto simp: sds_ok_def)
  have "length (sds_val s) + nat (n - sds_len s) \<le> sds_limit"
    using assms(2,4) False pos by (simp add: length_sds_val)
  then obtain s1 where s1: "sdsMakeRoomFor a s (n - sds_len s) = Some s1" "sds_ok s1"
      "sds_val s1 = sds_val s" "sds_len s1 = sds_len s" "n - sds_len s \<le> sds_free s1"
    using sdsMakeRoomFor_ok [OF assms(1,2), of "n - sds_len s"] False by auto
  obtain r where r: "sds_buf s1 = sds_val s @ NUL # r" "sds_free s1 = int (length r)"
    "sds_len s = int (length (sds_val s))" "length (sds_val s) + length r < 2 ^ 31"
    using sds_split [OF s1(2)] s1(3,4) by metis
  define k where "k = nat (n - sds_len s)"
  have k: "n = int (length (sds_val s)) + int k" "k \<le> length r" "k \<noteq> 0" using False r s1(5) by (auto simp: k_def)
  let ?b = "blit (sds_buf s1) (length (sds_val s)) (replicate (Suc k) NUL)"
  have "?b = (sds_val s @ replicate k NUL) @ NUL # drop k r"
    using r k by (simp add: blit_def replicate_app_Cons_same)
  moreover define s2 where "s2 = s1\<lparr>sds_len := n, sds_free := int (length r) - int k, sds_buf := ?b\<rparr>"
  ultimately have "sds_ok s2 \<and> sds_val s2 = sds_val s @ replicate k NUL"
    using r k by (intro sds_builtI) auto
  moreover have "sdsgrowzero a s n = Some (Some s2)"
    using s1(1,4) r k assms(4) unfolding sdsgrowzero_def Let_def s2_def
    by (simp add: sds_limit_def nat_add_distrib)
  ultimately show ?thesis using k by auto
qed

lemma sdsupdatelen_ok:
  assumes "sds_ok s"
  shows "\<exists>s'. sdsupdatelen s = Some s' \<and> sds_ok s' \<and> sds_val s' = cstr (sds_buf s)"
proof -
  obtain r where r: "sds_buf s = sds_val s @ NUL # r" "sds_free s = int (length r)"
    "sds_len s = int (length (sds_val s))" "length (sds_val s) + length r < 2 ^ 31"
    using assms by (rule sds_split)
  let ?k = "strlen (sds_buf s)"
  have k: "?k \<le> length (sds_val s)" using r(1) by (simp add: strlen_def) (simp add: cstr_def length_takeWhile_le)
  have "sds_buf s ! ?k = NUL"
    using nth_length_takeWhile [of "\<lambda>c. c \<noteq> NUL" "sds_buf s"] k r(1) by (simp add: strlen_def cstr_def)
  moreover define s2 where "s2 = s\<lparr>sds_free := int (length (sds_val s) + length r - ?k), sds_len := int ?k\<rparr>"
  ultimately have "sds_ok s2" using r k by (intro sds_okI [of _ ?k "length (sds_val s) + length r - ?k"]) auto
  moreover have "sdsupdatelen s = Some s2"
    using r k by (simp add: sdsupdatelen_def Let_def s2_def algebra_simps)
  ultimately show ?thesis using take_strlen by (auto simp: sds_val_def s2_def)
qed

text \<open>
  The shrinking operations move a shorter content \<open>w\<close> to the front and hand the
  rest of the block to the free space.
\<close>

definition sds_shrunk :: "sds \<Rightarrow> string \<Rightarrow> sds" where
  "sds_shrunk s w = s\<lparr>sds_free := sds_free s + (sds_len s - int (length w)), sds_len := int (length w),
     sds_buf := (blit (sds_buf s) 0 w)[length w := NUL]\<rparr>"

lemma sds_shrunk_ok:
  assumes "sds_ok s" "length w \<le> length (sds_val s)"
  shows "sds_ok (sds_shrunk s w) \<and> sds_val (sds_shrunk s w) = w"
proof -
  obtain r where r: "sds_buf s = sds_val s @ NUL # r" "sds_free s = int (length r)"
    "sds_len s = int (length (sds_val s))" "length (sds_val s) + length r < 2 ^ 31"
    using assms(1) by (rule sds_split)
  then have "(blit (sds_buf s) 0 w)[length w := NUL] = w @ NUL # drop (Suc (length w)) (sds_buf s)"
    using assms(2) by (intro blit_front) simp
  then show ?thesis
    using r assms(2) unfolding sds_shrunk_def by (intro sds_builtI) auto
qed

lemma blit_self: "blit b 0 (take m b) = b"
  by (simp add: blit_def min_def)

lemma trim_sp_eq:
  "i \<le> n \<Longrightarrow> n \<le> length b \<Longrightarrow>
   trim_sp cset b (int i) (int n - 1) = int (i + length (takeWhile (strchr_in cset) (drop i (take n b))))"
proof (induction "n - i" arbitrary: i)
  case 0
  then show ?case by (subst trim_sp.simps) simp
next
  case (Suc k)
  then have d: "drop i (take n b) = b ! i # drop (Suc i) (take n b)"
    by (simp add: Cons_nth_drop_Suc [symmetric])
  have IH: "trim_sp cset b (int (Suc i)) (int n - 1) =
      int (Suc i + length (takeWhile (strchr_in cset) (drop (Suc i) (take n b))))"
    using Suc by (intro Suc.hyps) auto
  have "int i + 1 = int (Suc i)" by simp
  then show ?case
    by (subst trim_sp.simps, simp only: IH d) (use Suc in auto)
qed

lemma trim_ep_all:
  "\<forall>c \<in> set (take (Suc k) b). strchr_in cset c \<Longrightarrow> k < length b \<Longrightarrow> trim_ep cset b (int k) = 0"
proof (induction k)
  case 0
  then show ?case by (subst trim_ep.simps) simp
next
  case (Suc k)
  then show ?case by (subst trim_ep.simps) (auto simp: take_Suc_conv_app_nth)
qed

lemma trim_ep_some:
  "\<exists>c \<in> set (take (Suc k) b). \<not> strchr_in cset c \<Longrightarrow> k < length b \<Longrightarrow>
   trim_ep cset b (int k) = int (length (dropWhile (strchr_in cset) (rev (take (Suc k) b)))) - 1"
proof (induction k)
  case 0
  then show ?case by (subst trim_ep.simps) (auto simp: take_Suc_conv_app_nth)
next
  case (Suc k)
  then show ?case by (subst trim_ep.simps) (auto simp: take_Suc_conv_app_nth)
qed

lemma rev_dropWhile_rev:
  "rev (dropWhile P (rev w)) = take (length (dropWhile P (rev w))) w"
proof -
  have "w = rev (dropWhile P (rev w)) @ rev (takeWhile P (rev w))"
    by (metis rev_append rev_rev_ident takeWhile_dropWhile_id)
  then show ?thesis by (metis append_eq_conv_conj length_rev)
qed

text \<open>What \<open>sdstrim\<close> leaves: no leading and no trailing byte of the set.\<close>

definition trim_spec :: "(char \<Rightarrow> bool) \<Rightarrow> string \<Rightarrow> string" where
  "trim_spec P v = rev (dropWhile P (rev (dropWhile P v)))"

lemma trim_bounds:
  fixes cset :: string
  assumes "sds_ok s"
  defines "v \<equiv> sds_val s" and "P \<equiv> strchr_in cset"
  defines "sp \<equiv> trim_sp cset (sds_buf s) 0 (sdslen s - 1)" and "ep \<equiv> trim_ep cset (sds_buf s) (sdslen s - 1)"
  shows "sp = int (length (takeWhile P v))"
    and "(if ep < sp then 0 else ep - sp + 1) = int (length (trim_spec P v))"
proof -
  obtain r where r: "sds_buf s = v @ NUL # r" using assms(1) sds_split v_def by metis
  have len: "sdslen s = int (length v)" using assms(1) by (simp add: sdslen_val v_def)
  show sp: "sp = int (length (takeWhile P v))"
    using trim_sp_eq [of 0 "length v" "sds_buf s" cset] by (simp add: sp_def len r P_def)
  show "(if ep < sp then 0 else ep - sp + 1) = int (length (trim_spec P v))"
  proof (cases "\<forall>c \<in> set v. P c")
    case True
    then have all: "takeWhile P v = v" "trim_spec P v = []"
      by (auto simp: trim_spec_def dest: set_dropWhileD)
    show ?thesis
    proof (cases v)
      case Nil
      then show ?thesis using all by (simp add: sp ep_def len trim_ep.simps)
    next
      case (Cons x xs)
      then have "ep = 0" using trim_ep_all [of "length v - 1" "sds_buf s" cset] True
        by (simp add: ep_def len r P_def)
      then show ?thesis using all Cons by (simp add: sp)
    qed
  next
    case False
    then have ne: "v \<noteq> []" by auto
    define w where "w = dropWhile P v"
    have w: "\<exists>c \<in> set w. \<not> P c" "v = takeWhile P v @ w"
      using False by (auto simp: w_def dropWhile_eq_Nil_conv) (metis dropWhile_eq_Nil_conv hd_dropWhile hd_in_set)
    have "ep = int (length (dropWhile P (rev v))) - 1"
      using trim_ep_some [of "length v - 1" "sds_buf s" cset] False ne
      by (simp add: ep_def len r P_def of_nat_diff Suc_leI)
    moreover have "dropWhile P (rev v) = dropWhile P (rev w) @ rev (takeWhile P v)"
      using w by (metis dropWhile_append1 rev_append set_rev)
    moreover have "dropWhile P (rev w) \<noteq> []" using w(1) by auto
    ultimately show ?thesis by (simp add: sp trim_spec_def w_def)
  qed
qed

lemma sdstrim_eq:
  assumes "sds_ok s"
  shows "sdstrim s cset = Some (sds_shrunk s (trim_spec (strchr_in cset) (sds_val s)))"
    and "length (trim_spec (strchr_in cset) (sds_val s)) \<le> length (sds_val s)"
proof -
  let ?P = "strchr_in cset" and ?v = "sds_val s"
  obtain r where r: "sds_buf s = ?v @ NUL # r" "sds_free s = int (length r)"
    "sds_len s = int (length ?v)" "length ?v + length r < 2 ^ 31"
    using assms by (rule sds_split)
  let ?i = "length (takeWhile ?P ?v)" and ?w = "trim_spec ?P ?v"
  have "?w = take (length ?w) (dropWhile ?P ?v)"
    unfolding trim_spec_def length_rev by (rule rev_dropWhile_rev)
  then have w: "?w = take (length ?w) (drop ?i ?v)" by (simp add: dropWhile_eq_drop)
  then have le: "?i + length ?w \<le> length ?v"
    by (metis add.commute le_diff_conv2 length_drop length_take length_takeWhile_le min.bounded_iff order_refl)
  then show "length ?w \<le> length ?v" by simp
  have ld: "take (length ?w) (drop ?i (sds_buf s)) = ?w" using w le r(1) by simp
  then have ldS: "load_at (sds_buf s) ?i (length ?w) = Some ?w" using le r(1) by simp
  have s32s: "s32 (sds_free s + (sds_len s - int (length ?w))) = sds_free s + (sds_len s - int (length ?w))"
      "s32 (int (length ?w)) = int (length ?w)"
    using r le by simp_all
  have "blit (sds_buf s) 0 ?w = sds_buf s" if "?i = 0"
    using ld that blit_self [of "sds_buf s" "length ?w"] by simp
  then have st: "(if int ?i \<noteq> 0 then store_at (sds_buf s) 0 ?w else Some (sds_buf s)) = Some (blit (sds_buf s) 0 ?w)"
    using le r(1) by simp
  have "length (blit (sds_buf s) 0 ?w) = length (sds_buf s)" using le r(1) by simp
  then have pk: "poke (blit (sds_buf s) 0 ?w) (length ?w) NUL = Some ((blit (sds_buf s) 0 ?w)[length ?w := NUL])"
    using le r(1) by simp
  show "sdstrim s cset = Some (sds_shrunk s ?w)"
    unfolding sdstrim_def Let_def trim_bounds(2) [OF assms] sds_shrunk_def
    unfolding trim_bounds(1) [OF assms]
    by (simp add: ldS st pk s32s del: of_nat_eq_0_iff)
qed

text \<open>
  What \<open>sdsrange\<close> keeps: the bytes from index \<open>i\<close> to index \<open>j\<close> inclusive, a
  negative index counting from the end and being cut off at the front.
\<close>

definition index_spec :: "int \<Rightarrow> int \<Rightarrow> int" where
  "index_spec n i = (if i < 0 then max 0 (n + i) else i)"

definition range_spec :: "string \<Rightarrow> int \<Rightarrow> int \<Rightarrow> string" where
  "range_spec v i j =
     (let n = int (length v); i = index_spec n i; j = min (index_spec n j) (n - 1)
      in take (nat (j - i + 1)) (drop (nat i) v))"

lemma s32_u64: "s32 (u64 x) = s32 x"
  by (simp add: s32_def u64_def signed_take_bit_take_bit)

lemma range_index_eq:
  assumes "0 \<le> n" "n < 2 ^ 31" "- (2 ^ 31) \<le> i" "i < 2 ^ 31"
  shows "range_index n i = index_spec n i" "0 \<le> index_spec n i" "index_spec n i < 2 ^ 31"
  using assms by (auto simp: range_index_def index_spec_def s32_u64 Let_def)

lemma range_raw_nonzero:
  assumes "0 \<le> st" "st \<le> e" "e < 2 ^ 31"
  shows "u64 (s32 (e - st + 1)) \<noteq> 0"
proof (cases "e - st + 1 < 2 ^ 31")
  case True
  then show ?thesis using assms by simp
next
  case False
  then have "e - st + 1 = 2 ^ 31" using assms by simp
  then show ?thesis by (simp add: s32_def u64_def signed_take_bit_eq_if_negative)
qed

lemma range_window_eq:
  assumes "0 < n" "n < 2 ^ 31" "0 \<le> st" "st < 2 ^ 31" "0 \<le> e" "e < 2 ^ 31"
  shows "\<exists>st'. range_window n st e = (st', max 0 (min e (n - 1) - st + 1)) \<and>
           (max 0 (min e (n - 1) - st + 1) \<noteq> 0 \<longrightarrow> st' = st)"
proof (cases "e < st")
  case True
  then show ?thesis using assms by (auto simp: range_window_def Let_def)
next
  case False
  then have "u64 (s32 (e - st + 1)) \<noteq> 0" using assms by (intro range_raw_nonzero) auto
  then show ?thesis using assms False by (auto simp: range_window_def Let_def min_def max_def)
qed

lemma sdsrange_eq:
  assumes "sds_ok s" "- (2 ^ 31) \<le> i" "i < 2 ^ 31" "- (2 ^ 31) \<le> j" "j < 2 ^ 31" "sds_val s \<noteq> []"
  shows "sdsrange s i j = Some (sds_shrunk s (range_spec (sds_val s) i j))"
proof -
  let ?v = "sds_val s"
  obtain r where r: "sds_buf s = ?v @ NUL # r" "sds_free s = int (length r)"
    "sds_len s = int (length ?v)" "length ?v + length r < 2 ^ 31"
    using assms(1) by (rule sds_split)
  define n where "n = int (length ?v)"
  have n: "0 < n" "n < 2 ^ 31" "sdslen s = n" using r(4) assms(6) sdslen_val [OF assms(1)] by (simp_all add: n_def)
  define st e where "st = index_spec n i" and "e = index_spec n j"
  have st: "range_index n i = st" "0 \<le> st" "st < 2 ^ 31" and e: "range_index n j = e" "0 \<le> e" "e < 2 ^ 31"
    using range_index_eq n assms by (simp_all add: st_def e_def)
  define m where "m = max 0 (min e (n - 1) - st + 1)"
  obtain st' where win: "range_window n st e = (st', m)" "m \<noteq> 0 \<longrightarrow> st' = st"
    using range_window_eq [of n st e] n st e by (auto simp: m_def)
  define w where "w = range_spec ?v i j"
  have w: "w = take (nat m) (drop (nat st) ?v)"
    by (simp add: w_def range_spec_def n_def [symmetric] st_def [symmetric] e_def [symmetric] m_def Let_def max_def)
  have m: "0 \<le> m" "m \<noteq> 0 \<Longrightarrow> st + m \<le> n" by (auto simp: m_def)
  have lw: "length w = nat m" using m w n_def st(2) by (cases "m = 0") (auto simp: nat_add_distrib)
  have le: "nat m \<le> length ?v" using m(2) n_def st(2) by (cases "m = 0") auto
  have ld: "take (nat m) (drop (nat st) (sds_buf s)) = w"
    using m w r(1) n_def st(2) by (cases "m = 0") (auto simp: nat_add_distrib)
  have mem: "(if st' \<noteq> 0 \<and> m \<noteq> 0
      then do { src \<leftarrow> load_at (sds_buf s) (nat st') (nat m); store_at (sds_buf s) 0 src }
      else Some (sds_buf s)) = Some (blit (sds_buf s) 0 w)"
  proof (cases "m = 0 \<or> st' = 0")
    case True
    then have "w = take (nat m) (sds_buf s)" using ld win(2) lw by auto
    then show ?thesis using True by (auto simp: blit_self)
  next
    case False
    then show ?thesis using win(2) ld lw r(1) le m n_def st(2) by (simp add: nat_add_distrib)
  qed
  have "length (blit (sds_buf s) 0 w) = length (sds_buf s)" using lw le r(1) by simp
  then have pk: "poke (blit (sds_buf s) 0 w) (nat m) NUL = Some ((blit (sds_buf s) 0 w)[length w := NUL])"
    using lw le r(1) by simp
  have sz: "s32 (sds_free s + (sds_len s - m)) = sds_free s + (sds_len s - int (length w))" "s32 m = int (length w)"
    using r m lw le by simp_all
  have "sdsrange s i j = Some (sds_shrunk s w)"
    using n(1) by (simp add: sdsrange_def n(3) st(1) e(1) win(1) mem pk sz sds_shrunk_def del: if_split)
  then show ?thesis by (simp add: w_def)
qed

lemma length_range_spec: "length (range_spec v i j) \<le> length v"
  by (simp add: range_spec_def Let_def)

lemma sdsrange_ok:
  assumes "sds_ok s" "- (2 ^ 31) \<le> i" "i < 2 ^ 31" "- (2 ^ 31) \<le> j" "j < 2 ^ 31"
  shows "\<exists>s'. sdsrange s i j = Some s' \<and> sds_ok s' \<and> sds_val s' = range_spec (sds_val s) i j"
proof (cases "sds_val s = []")
  case True
  then show ?thesis using assms(1) sdslen_val [OF assms(1)] by (simp add: sdsrange_def range_spec_def Let_def)
next
  case False
  then show ?thesis
    using sdsrange_eq [OF assms] sds_shrunk_ok [OF assms(1) length_range_spec] by blast
qed

subsection \<open>Byte-wise changes and comparison\<close>

lemma map_upto_eq:
  "j + n \<le> length b \<Longrightarrow> map_upto f j n b = Some (take j b @ map f (take n (drop j b)) @ drop (j + n) b)"
proof (induction n arbitrary: j b)
  case 0
  then show ?case by simp
next
  case (Suc n)
  then have "drop j b = b ! j # drop (Suc j) b" by (simp add: Cons_nth_drop_Suc)
  then show ?case using Suc by (simp add: take_Suc_conv_app_nth)
qed

lemma map_upto_val:
  assumes "sds_ok s"
  shows "\<exists>b. map_upto f 0 (length (sds_val s)) (sds_buf s) = Some b \<and>
     sds_ok (s\<lparr>sds_buf := b\<rparr>) \<and> sds_val (s\<lparr>sds_buf := b\<rparr>) = map f (sds_val s)"
proof -
  obtain r where r: "sds_buf s = sds_val s @ NUL # r" "sds_free s = int (length r)"
    "sds_len s = int (length (sds_val s))" "length (sds_val s) + length r < 2 ^ 31"
    using assms by (rule sds_split)
  then have "map_upto f 0 (length (sds_val s)) (sds_buf s) = Some (map f (sds_val s) @ NUL # r)"
    by (simp add: map_upto_eq)
  moreover have "sds_ok (s\<lparr>sds_buf := map f (sds_val s) @ NUL # r\<rparr>) \<and>
      sds_val (s\<lparr>sds_buf := map f (sds_val s) @ NUL # r\<rparr>) = map f (sds_val s)"
    using r by (intro sds_builtI) auto
  ultimately show ?thesis by blast
qed

lemma sds_len_int: "sds_ok s \<Longrightarrow> s32 (int (length (sds_val s))) = int (length (sds_val s))"
  by (erule sds_split) simp

lemma sdstolower_ok:
  "sds_ok s \<Longrightarrow> \<exists>s'. sdstolower s = Some s' \<and> sds_ok s' \<and> sds_val s' = map c_tolower (sds_val s)"
  using map_upto_val [of s c_tolower] by (auto simp: sdstolower_def sdslen_val sds_len_int)

lemma sdstoupper_ok:
  "sds_ok s \<Longrightarrow> \<exists>s'. sdstoupper s = Some s' \<and> sds_ok s' \<and> sds_val s' = map c_toupper (sds_val s)"
  using map_upto_val [of s c_toupper] by (auto simp: sdstoupper_def sdslen_val sds_len_int)

lemma sdsmapchars_ok:
  assumes "sds_ok s" "n \<le> length from" "n \<le> length to"
  shows "\<exists>s'. sdsmapchars s from to n = Some s' \<and> sds_ok s' \<and>
    sds_val s' = map (map_char (zip (take n from) (take n to))) (sds_val s)"
  using map_upto_val [OF assms(1), of "map_char (zip (take n from) (take n to))"] assms
  by (auto simp: sdsmapchars_def sdslen_val)

lemma map_char_first:
  "map_char ps c = (case find (\<lambda>p. fst p = c) ps of None \<Rightarrow> c | Some p \<Rightarrow> snd p)"
  by (induction ps) (auto split: prod.splits)

text \<open>The order of byte strings: by the first difference, a prefix before the longer string.\<close>

fun bytes_less :: "string \<Rightarrow> string \<Rightarrow> bool" where
  "bytes_less _ [] \<longleftrightarrow> False"
| "bytes_less [] (_ # _) \<longleftrightarrow> True"
| "bytes_less (x # xs) (y # ys) \<longleftrightarrow> ord x < ord y \<or> x = y \<and> bytes_less xs ys"

definition cmp_bytes :: "string \<Rightarrow> string \<Rightarrow> int" where
  "cmp_bytes x y =
     (let m = min (length x) (length y); c = memcmp_sgn (take m x) (take m y) in
      if c = 0 then int (length x) - int (length y) else c)"

lemma cmp_bytes_Cons:
  "cmp_bytes (x # xs) (y # ys) = (if x = y then cmp_bytes xs ys else if ord x < ord y then -1 else 1)"
  by (simp add: cmp_bytes_def Let_def)

lemma cmp_bytes_sign:
  "(cmp_bytes x y = 0 \<longleftrightarrow> x = y) \<and> (cmp_bytes x y < 0 \<longleftrightarrow> bytes_less x y) \<and>
   (0 < cmp_bytes x y \<longleftrightarrow> bytes_less y x)"
proof (induction x y rule: bytes_less.induct)
  case (1 x)
  then show ?case by (cases x) (auto simp: cmp_bytes_def)
next
  case (3 x xs y ys)
  have "ord x < ord y \<or> x = y \<or> ord y < ord x" using linorder_less_linear [of "ord x" "ord y"] by simp
  with 3 show ?case by (auto simp: cmp_bytes_Cons)
qed (auto simp: cmp_bytes_def)

lemma sdscmp_eq:
  assumes "sds_ok s" "sds_ok t"
  shows "sdscmp s t = Some (cmp_bytes (sds_val s) (sds_val t))"
proof -
  obtain r where r: "sds_buf s = sds_val s @ NUL # r" "length (sds_val s) + length r < 2 ^ 31"
    using assms(1) by (rule sds_split)
  obtain q where q: "sds_buf t = sds_val t @ NUL # q" "length (sds_val t) + length q < 2 ^ 31"
    using assms(2) by (rule sds_split)
  have "nat (if int (length (sds_val s)) < int (length (sds_val t)) then int (length (sds_val s))
      else int (length (sds_val t))) = min (length (sds_val s)) (length (sds_val t))"
    by (simp add: min_def)
  then show ?thesis
    using r q assms by (simp add: sdscmp_def cmp_bytes_def sdslen_val Let_def s32_u64)
qed

section \<open>The contract of an appending operation\<close>

text \<open>
  Code that builds a string piece by piece calls an operation that appends the
  bytes \<open>piece x\<close> of an item \<open>x\<close>. The locale states what it relies on; what a whole
  sequence of calls builds is proved once. A \<open>NULL\<close> from one call is an access
  through \<open>NULL\<close> in the next.
\<close>

fun emit_all :: "('b \<Rightarrow> 'x \<Rightarrow> 'b option option) \<Rightarrow> 'b \<Rightarrow> 'x list \<Rightarrow> 'b option" where
  "emit_all emit s [] = Some s"
| "emit_all emit s (x # xs) =
     (case emit s x of Some (Some s') \<Rightarrow> emit_all emit s' xs | _ \<Rightarrow> None)"

locale byte_emitter =
  fixes emit :: "'b \<Rightarrow> 'x \<Rightarrow> 'b option option"
    and piece :: "'x \<Rightarrow> string"
    and ok :: "'b \<Rightarrow> bool"
    and val :: "'b \<Rightarrow> string"
    and limit :: nat
  assumes emit_val: "ok s \<Longrightarrow> length (val s) + length (piece x) \<le> limit \<Longrightarrow>
    \<exists>s'. emit s x = Some (Some s') \<and> ok s' \<and> val s' = val s @ piece x"
begin

lemma emit_all_val:
  "ok s \<Longrightarrow> length (val s) + length (concat (map piece xs)) \<le> limit \<Longrightarrow>
   \<exists>s'. emit_all emit s xs = Some s' \<and> ok s' \<and> val s' = val s @ concat (map piece xs)"
proof (induction xs arbitrary: s)
  case Nil
  then show ?case by simp
next
  case (Cons x xs)
  then obtain s1 where s1: "emit s x = Some (Some s1)" "ok s1" "val s1 = val s @ piece x"
    using emit_val [of s x] by auto
  then obtain s2 where "emit_all emit s1 xs = Some s2" "ok s2"
      "val s2 = val s1 @ concat (map piece xs)"
    using Cons.IH [of s1] Cons.prems by auto
  with s1 show ?case by simp
qed

lemma emit_all_split:
  "emit_all emit s (xs @ ys) =
     (case emit_all emit s xs of None \<Rightarrow> None | Some s' \<Rightarrow> emit_all emit s' ys)"
  by (induction xs arbitrary: s) (auto split: option.splits)

end

definition sds_append :: "allocator \<Rightarrow> sds \<Rightarrow> string \<Rightarrow> sds option option" where
  "sds_append a s t = sdscatlen a s t (int (length t))"

lemma sds_append_ok:
  assumes "mem_ok a" "sds_ok s" "length (sds_val s) + length t \<le> sds_limit"
  shows "\<exists>s'. sds_append a s t = Some (Some s') \<and> sds_ok s' \<and> sds_val s' = sds_val s @ t"
  using sdscatlen_ok [OF assms(1,2), of "int (length t)" t] assms(3) by (simp add: sds_append_def)

interpretation sds_app: byte_emitter "sds_append a" "\<lambda>t. t" "\<lambda>s. mem_ok a \<and> sds_ok s" sds_val sds_limit
  for a
  by unfold_locales (use sds_append_ok in blast)

section \<open>Properties\<close>

text \<open>
  C34: \<open>sdscatlen\<close> appends exactly the given bytes: for every well-formed string
  and every source of at least \<open>n\<close> bytes, with memory available and the result
  within the limit of the \<open>int\<close> fields, no access leaves a buffer, the result
  is well formed and its value is the old value followed by the bytes.
\<close>

theorem sdscatlen_appends:
  assumes "mem_ok a" and "sds_ok s" and "0 \<le> n" and "nat n \<le> length t"
    and "length (sds_val s) + nat n \<le> sds_limit"
  shows "\<exists>s'. sdscatlen a s t n = Some (Some s') \<and> sds_ok s' \<and> sds_val s' = sds_val s @ take (nat n) t"
  using assms by (rule sdscatlen_ok)

definition demo_mem :: allocator where
  "demo_mem = \<lparr>hs_ok = (\<lambda>_. True), hs_byte = (\<lambda>n i. CHR ''?'')\<rparr>"

definition demo_sds :: sds where
  "demo_sds = \<lparr>sds_len = 3, sds_free = 1, sds_buf = ''foo'' @ [NUL, CHR ''!'']\<rparr>"

lemma demo_mem_ok: "mem_ok demo_mem"
  by (simp add: mem_ok_def demo_mem_def)

lemma demo_sds_ok: "sds_ok demo_sds" and demo_sds_val: "sds_val demo_sds = ''foo''"
  by (simp_all add: sds_ok_def sds_val_def demo_sds_def)

theorem sdscatlen_appends_witness:
  "\<exists>s'. sdscatlen demo_mem demo_sds ''bar'' 3 = Some (Some s') \<and> sds_ok s' \<and> sds_val s' = ''foobar''"
  using sdscatlen_appends [OF demo_mem_ok demo_sds_ok, of 3 "''bar''"]
  by (simp add: demo_sds_val sds_limit_def)

text \<open>
  \<open>sdstrim\<close> stays inside the buffer, keeps the string well formed and removes
  exactly the longest prefix and the longest suffix made of bytes of the set (the
  zero byte counts as a member, as it matches the terminator in \<open>strchr\<close>).
\<close>

lemma sdstrim_trims:
  assumes "sds_ok s"
  shows "\<exists>s'. sdstrim s cset = Some s' \<and> sds_ok s' \<and>
           sds_val s' = rev (dropWhile (strchr_in cset) (rev (dropWhile (strchr_in cset) (sds_val s))))"
  using sdstrim_eq [OF assms, of cset] sds_shrunk_ok [OF assms] by (auto simp: trim_spec_def)

text \<open>
  \<open>sdsrange\<close> keeps exactly the bytes between two indices, both inclusive, a
  negative index counting from the end, for every pair of \<open>int\<close> indices
  including those far outside the string.
\<close>

lemma sdsrange_slices:
  assumes "sds_ok s" and "- (2 ^ 31) \<le> i" and "i < 2 ^ 31" and "- (2 ^ 31) \<le> j" and "j < 2 ^ 31"
  shows "\<exists>s'. sdsrange s i j = Some s' \<and> sds_ok s' \<and> sds_val s' = range_spec (sds_val s) i j"
  using assms by (rule sdsrange_ok)

text \<open>
  \<open>sdscmp\<close> orders strings by their bytes taken as unsigned numbers, a proper
  prefix before the longer string, and returns zero exactly for equal values,
  whatever lies in the free space.
\<close>

lemma sdscmp_orders:
  assumes "sds_ok s" and "sds_ok t"
  shows "\<exists>c. sdscmp s t = Some c \<and> (c = 0 \<longleftrightarrow> sds_val s = sds_val t) \<and>
           (c < 0 \<longleftrightarrow> bytes_less (sds_val s) (sds_val t)) \<and> (0 < c \<longleftrightarrow> bytes_less (sds_val t) (sds_val s))"
  using sdscmp_eq [OF assms] cmp_bytes_sign by blast

text \<open>
  \<open>sdscatprintf\<close> returns for every formatted output free of zero bytes,
  however long, and appends the whole of it: the doubling of the scratch buffer
  never stops at a truncated result.
\<close>

lemma sdscatprintf_complete:
  assumes "mem_ok a" and "sds_ok s" and "NUL \<notin> set out" and "length (sds_val s) + length out \<le> sds_limit"
  shows "\<exists>s'. sdscatprintf a s out = Some (Some s') \<and> sds_ok s' \<and> sds_val s' = sds_val s @ out"
  using assms by (rule sdscatprintf_ok)

end
