(* ===== verification/Sds_Text.thy ===== *)
theory Sds_Text
  imports Sds
begin

text \<open>
  The text functions of \<open>src/util/sds.cpp\<close>: splitting at a separator, printing
  a number, quoting, and splitting a line into arguments. Shown are that
  splitting inverts joining, that the printed number reads back, and that a
  line of quoted strings splits into exactly those strings.
\<close>

section \<open>Definitions\<close>

subsection \<open>Splitting at a separator\<close>

text \<open>
  The array of tokens is the list of the strings stored so far together with
  the number of its slots; a store past the slots is undefined behaviour
  (\<open>None\<close>). \<open>Some None\<close> is the \<open>NULL\<close> of the cleanup path. The token count is the
  length of the list.
\<close>

(* src/src/util/sds.cpp:369-375, sdssplitlen *)
definition split_put :: "allocator \<Rightarrow> string \<Rightarrow> nat \<Rightarrow> nat \<Rightarrow> nat \<Rightarrow> sds list \<Rightarrow> sds list option option" where
  "split_put a s start n slots toks =
     (if length toks < slots then
        do { t \<leftarrow> sdsnewlen a (Some (drop start s)) (int n);
             case t of None \<Rightarrow> Some None | Some t \<Rightarrow> Some (Some (toks @ [t])) }
      else None)"

(* src/src/util/sds.cpp:358-382, sdssplitlen *)
function split_loop :: "allocator \<Rightarrow> string \<Rightarrow> nat \<Rightarrow> string \<Rightarrow> nat \<Rightarrow> nat \<Rightarrow> nat \<Rightarrow> nat \<Rightarrow> sds list \<Rightarrow> sds list option option" where
  "split_loop a s len sep seplen j start slots toks =
     (if int j < int len - (int seplen - 1) \<and> 0 < seplen then
        case (if slots < length toks + 2
              then (if hs_ok a (8 * (slots * 2)) then Some (slots * 2) else None) else Some slots) of
          None \<Rightarrow> Some None
        | Some slots \<Rightarrow>
            if seplen = 1 \<and> s ! j = sep ! 0 \<or> take seplen (drop j s) = take seplen sep then
              (case split_put a s start (j - start) slots toks of
                 None \<Rightarrow> None | Some None \<Rightarrow> Some None
               | Some (Some toks) \<Rightarrow> split_loop a s len sep seplen (j + seplen) (j + seplen) slots toks)
            else split_loop a s len sep seplen (j + 1) start slots toks
      else split_put a s start (len - start) slots toks)"
  by auto
termination by (relation "measure (\<lambda>(_, _, len, _, _, j, _). len - j)") auto

declare split_loop.simps [simp del]

(* src/src/util/sds.cpp:329-392, sdssplitlen *)
definition sdssplitlen :: "allocator \<Rightarrow> string \<Rightarrow> int \<Rightarrow> string \<Rightarrow> int \<Rightarrow> sds list option option" where
  "sdssplitlen a s len sep seplen =
     (if seplen < 1 \<or> len < 0 then Some None
      else if \<not> hs_ok a (8 * 5) then Some None
      else if len = 0 then Some (Some [])
      else split_loop a s (nat len) sep (nat seplen) 0 0 5 [])"

subsection \<open>Printing a number\<close>

(* src/src/util/sds.cpp:407-410, sdsfromlonglong *)
function ll_digits :: "string \<Rightarrow> int \<Rightarrow> nat \<Rightarrow> (string \<times> int) option" where
  "ll_digits buf p v =
     (if 0 \<le> p then
        do { buf \<leftarrow> poke buf (nat p) (digit (v mod 10));
             if v div 10 \<noteq> 0 then ll_digits buf (p - 1) (v div 10) else Some (buf, p - 1) }
      else None)"
  by auto
termination by (relation "measure (\<lambda>(_, _, v). v)") auto

declare ll_digits.simps [simp del]

text \<open>The digits and the sign of \<open>val\<close> at the end of a buffer of 32 bytes, and where they start.\<close>

(* src/src/util/sds.cpp:405-412, sdsfromlonglong *)
definition ll_text :: "string \<Rightarrow> int \<Rightarrow> (string \<times> int) option" where
  "ll_text buf val = do {
     (buf, p) \<leftarrow> ll_digits buf 31 (nat (u64 (if val < 0 then - val else val)));
     (buf, p) \<leftarrow> (if val < 0 then
        if 0 \<le> p then do { buf \<leftarrow> poke buf (nat p) (CHR ''-''); Some (buf, p - 1) } else None
        else Some (buf, p));
     Some (buf, p + 1) }"

(* src/src/util/sds.cpp:401-414, sdsfromlonglong *)
definition sdsfromlonglong :: "allocator \<Rightarrow> string \<Rightarrow> int \<Rightarrow> sds option option" where
  "sdsfromlonglong a buf val = do {
     (buf, p) \<leftarrow> ll_text buf val;
     sdsnewlen a (Some (drop (nat p) buf)) (32 - p) }"

subsection \<open>Quoting\<close>

abbreviation BSLASH :: char where "BSLASH \<equiv> CHR 0x5C"
abbreviation DQUOTE :: char where "DQUOTE \<equiv> CHR 0x22"
abbreviation SQUOTE :: char where "SQUOTE \<equiv> CHR 0x27"

text \<open>The output of the format \<open>"%02x"\<close> for an unsigned byte.\<close>

definition hex_lower :: "nat \<Rightarrow> char" where
  "hex_lower d = (if d < 10 then char_of (48 + d) else char_of (87 + d))"

definition fmt_02x :: "nat \<Rightarrow> string" where
  "fmt_02x b = [hex_lower (b div 16), hex_lower (b mod 16)]"

(* src/src/util/sds.cpp:419-435, sdscatrepr *)
definition repr_cat :: "allocator \<Rightarrow> sds \<Rightarrow> char \<Rightarrow> sds option option" where
  "repr_cat a s c =
     (if c = BSLASH \<or> c = DQUOTE then sdscatprintf a s [BSLASH, c]
      else if c = CHR 0x0A then sdscatlen a s [BSLASH, CHR ''n''] 2
      else if c = CHR 0x0D then sdscatlen a s [BSLASH, CHR ''r''] 2
      else if c = CHR 0x09 then sdscatlen a s [BSLASH, CHR ''t''] 2
      else if c = CHR 0x07 then sdscatlen a s [BSLASH, CHR ''a''] 2
      else if c = CHR 0x08 then sdscatlen a s [BSLASH, CHR ''b''] 2
      else if c_isprint c then sdscatprintf a s [c]
      else sdscatprintf a s (BSLASH # CHR ''x'' # fmt_02x (ord c)))"

(* src/src/util/sds.cpp:416-439, sdscatrepr *)
definition sdscatrepr :: "allocator \<Rightarrow> sds \<Rightarrow> string \<Rightarrow> nat \<Rightarrow> sds option option" where
  "sdscatrepr a s p len = do {
     src \<leftarrow> load_at p 0 len;
     s \<leftarrow> emit_all (sds_append a) s [[DQUOTE]];
     s \<leftarrow> emit_all (repr_cat a) s src;
     sdscatlen a s [DQUOTE] 1 }"

subsection \<open>Splitting a line into arguments\<close>

(* src/src/util/sds.cpp:441-446, is_hex_digit *)
definition is_hex_digit :: "char \<Rightarrow> bool" where
  "is_hex_digit c \<longleftrightarrow> (48 \<le> ord c \<and> ord c \<le> 57) \<or> (97 \<le> ord c \<and> ord c \<le> 102) \<or> (65 \<le> ord c \<and> ord c \<le> 70)"

(* src/src/util/sds.cpp:448-470, hex_digit_to_int *)
definition hex_digit_to_int :: "char \<Rightarrow> nat" where
  "hex_digit_to_int c =
     (case map_of (zip ''0123456789abcdefABCDEF'' [0, 1, 2, 3, 4, 5, 6, 7, 8, 9, 10, 11, 12, 13, 14, 15, 10, 11, 12, 13, 14, 15]) c of Some d \<Rightarrow> d | None \<Rightarrow> 0)"

text \<open>
  The cursor \<open>p\<close> is the rest of the line; \<open>ch p k\<close> is \<open>*(p+k)\<close>, zero at the end.
  A turn of the token loop fails, ends the token, or appends some bytes and goes
  on in a mode; \<open>Plain\<close> is \<open>inq == 0 && insq == 0\<close>.
\<close>

definition ch :: "string \<Rightarrow> nat \<Rightarrow> char" where
  "ch p k = (if k < length p then p ! k else NUL)"

(* src/src/util/sds.cpp:495-497, sdssplitargs *)
datatype qmode = Plain | InQ | InSQ

datatype tok_step = TokErr | TokDone string | TokGo qmode string string

(* src/src/util/sds.cpp:516-523, sdssplitargs *)
definition unescape :: "char \<Rightarrow> char" where
  "unescape c =
     (if c = CHR ''n'' then CHR 0x0A else if c = CHR ''r'' then CHR 0x0D
      else if c = CHR ''t'' then CHR 0x09 else if c = CHR ''b'' then CHR 0x08
      else if c = CHR ''a'' then CHR 0x07 else c)"

definition adv :: "string \<Rightarrow> string" where
  "adv p = drop 1 p"

(* src/src/util/sds.cpp:501-571, sdssplitargs *)
fun token_step :: "qmode \<Rightarrow> string \<Rightarrow> tok_step" where
  "token_step InQ p =
     (if ch p 0 = BSLASH \<and> ch p 1 = CHR ''x'' \<and> is_hex_digit (ch p 2) \<and> is_hex_digit (ch p 3) then
        TokGo InQ [char_of (hex_digit_to_int (ch p 2) * 16 + hex_digit_to_int (ch p 3))] (drop 4 p)
      else if ch p 0 = BSLASH \<and> ch p 1 \<noteq> NUL then TokGo InQ [unescape (ch p 1)] (drop 2 p)
      else if ch p 0 = DQUOTE then
        if ch p 1 \<noteq> NUL \<and> \<not> c_isspace (ch p 1) then TokErr else TokDone (adv p)
      else if ch p 0 = NUL then TokErr
      else TokGo InQ [ch p 0] (adv p))"
| "token_step InSQ p =
     (if ch p 0 = BSLASH \<and> ch p 1 = SQUOTE then TokGo InSQ [SQUOTE] (drop 2 p)
      else if ch p 0 = SQUOTE then
        if ch p 1 \<noteq> NUL \<and> \<not> c_isspace (ch p 1) then TokErr else TokDone (adv p)
      else if ch p 0 = NUL then TokErr
      else TokGo InSQ [ch p 0] (adv p))"
| "token_step Plain p =
     (if ch p 0 = CHR '' '' \<or> ch p 0 = CHR 0x0A \<or> ch p 0 = CHR 0x0D \<or> ch p 0 = CHR 0x09 \<or> ch p 0 = NUL
      then TokDone (adv p)
      else if ch p 0 = DQUOTE then TokGo InQ [] (adv p)
      else if ch p 0 = SQUOTE then TokGo InSQ [] (adv p)
      else TokGo Plain [ch p 0] (adv p))"

lemma token_step_progress: "token_step m p = TokGo m' bs q \<Longrightarrow> length q < length p"
  by (cases m; cases p) (auto simp: ch_def adv_def split: if_splits)

(* src/src/util/sds.cpp:500-572, sdssplitargs *)
function get_token :: "allocator \<Rightarrow> qmode \<Rightarrow> sds \<Rightarrow> string \<Rightarrow> (sds \<times> string) option option" where
  "get_token a m cur p =
     (case token_step m p of
        TokErr \<Rightarrow> Some None
      | TokDone q \<Rightarrow> Some (Some (cur, q))
      | TokGo m' bs q \<Rightarrow>
          (case emit_all (sds_append a) cur (map (\<lambda>b. [b]) bs) of
             None \<Rightarrow> None
           | Some cur \<Rightarrow> get_token a m' cur q))"
  by auto
termination by (relation "measure (\<lambda>(_, _, _, p). length p)") (auto dest: token_step_progress)

declare get_token.simps [simp del] token_step.simps [simp del]

lemma length_dropWhile: "length (dropWhile P p) \<le> length p"
  by (induction p) auto

lemma token_done_le: "token_step m p = TokDone q \<Longrightarrow> length q \<le> length p"
  by (cases m) (auto simp: token_step.simps adv_def split: if_splits)

lemma get_token_le: "get_token a m cur p = Some (Some (cur', q)) \<Longrightarrow> length q \<le> length p"
proof (induction a m cur p rule: get_token.induct)
  case (1 a m cur p)
  show ?case
  proof (cases "token_step m p")
    case (TokGo m' bs q')
    then obtain c where c: "emit_all (sds_append a) cur (map (\<lambda>b. [b]) bs) = Some c"
        "get_token a m' c q' = Some (Some (cur', q))"
      using "1.prems" by (subst (asm) get_token.simps) (auto split: option.splits)
    then have "length q \<le> length q'" using "1.IH" [OF TokGo c(1)] by simp
    then show ?thesis using token_step_progress [OF TokGo] by simp
  qed (use "1.prems" in \<open>auto simp: get_token.simps dest: token_done_le\<close>)
qed

text \<open>The first turn of a token always consumes a character.\<close>

lemma get_token_less:
  assumes "get_token a Plain cur p = Some (Some (cur', q))" "p \<noteq> []"
  shows "length q < length p"
proof (cases "token_step Plain p")
  case TokErr
  then show ?thesis using assms by (simp add: get_token.simps)
next
  case (TokDone q')
  then show ?thesis using assms by (auto simp: get_token.simps token_step.simps adv_def split: if_splits)
next
  case (TokGo m' bs q')
  then show ?thesis using assms token_step_progress [OF TokGo] get_token_le
    by (subst (asm) get_token.simps) (fastforce split: option.splits)
qed

lemma get_token_after_blanks:
  assumes "get_token a Plain cur (dropWhile P p) = Some (Some (cur', q))" "ch (dropWhile P p) 0 \<noteq> NUL"
  shows "length q < length p"
proof -
  have "length q < length (dropWhile P p)"
    using assms by (intro get_token_less) (auto simp: ch_def split: if_splits)
  then show ?thesis using length_dropWhile [of P p] by simp
qed

text \<open>
  The result is the vector (\<open>NULL\<close> when no token was stored) and \<open>*argc\<close>, which the
  error path leaves at \<open>-1\<close>. A refused \<open>sdsempty\<close> or \<open>zrealloc\<close> is used without
  a test.
\<close>

(* src/src/util/sds.cpp:490-589, sdssplitargs *)
function splitargs_loop :: "allocator \<Rightarrow> sds list \<Rightarrow> string \<Rightarrow> (sds list option \<times> int) option" where
  "splitargs_loop a vec p =
     (let p = dropWhile (\<lambda>c. c \<noteq> NUL \<and> c_isspace c) p in
      if ch p 0 \<noteq> NUL then
        case sdsempty a of
          Some (Some cur) \<Rightarrow>
            (case get_token a Plain cur p of
               None \<Rightarrow> None
             | Some None \<Rightarrow> Some (None, -1)
             | Some (Some (tok, q)) \<Rightarrow>
                 if hs_ok a ((length vec + 1) * 8) then splitargs_loop a (vec @ [tok]) q else None)
        | _ \<Rightarrow> None
      else Some (if vec = [] then None else Some vec, int (length vec)))"
  by auto
termination by (relation "measure (\<lambda>(_, _, p). length p)") (auto dest: get_token_after_blanks)

declare splitargs_loop.simps [simp del]

(* src/src/util/sds.cpp:472-589, sdssplitargs *)
definition sdssplitargs :: "allocator \<Rightarrow> string \<Rightarrow> (sds list option \<times> int) option" where
  "sdssplitargs a line = splitargs_loop a [] (cstr line)"

section \<open>Splitting inverts joining\<close>

text \<open>The pieces of \<open>acc @ s\<close> when \<open>acc\<close> is the piece collected so far.\<close>

function split_ref :: "string \<Rightarrow> string \<Rightarrow> string \<Rightarrow> string list" where
  "split_ref sep acc s =
     (if sep \<noteq> [] \<and> length sep \<le> length s then
        if take (length sep) s = sep then acc # split_ref sep [] (drop (length sep) s)
        else split_ref sep (acc @ [hd s]) (tl s)
      else [acc @ s])"
  by auto
termination by (relation "measure (\<lambda>(_, _, s). length s)") (auto simp: neq_Nil_conv)

declare split_ref.simps [simp del]

fun join :: "string \<Rightarrow> string list \<Rightarrow> string" where
  "join sep [] = []"
| "join sep [t] = t"
| "join sep (t # ts) = t @ sep @ join sep ts"

definition occurs :: "string \<Rightarrow> string \<Rightarrow> bool" where
  "occurs sep t \<longleftrightarrow> (\<exists>i. i + length sep \<le> length t \<and> take (length sep) (drop i t) = sep)"

lemma split_ref_neq_Nil [simp]: "split_ref sep acc s \<noteq> []"
  by (induction sep acc s rule: split_ref.induct) (subst split_ref.simps, simp)

lemma join_Cons: "ts \<noteq> [] \<Longrightarrow> join sep (t # ts) = t @ sep @ join sep ts"
  by (cases ts) auto

lemma join_split_ref: "join sep (split_ref sep acc s) = acc @ s"
proof (induction sep acc s rule: split_ref.induct)
  case (1 sep acc s)
  consider (hit) "sep \<noteq> []" "length sep \<le> length s" "take (length sep) s = sep"
    | (miss) "sep \<noteq> []" "length sep \<le> length s" "take (length sep) s \<noteq> sep"
    | (stop) "\<not> (sep \<noteq> [] \<and> length sep \<le> length s)" by blast
  then show ?case
  proof cases
    case hit
    then have "join sep (split_ref sep acc s) = acc @ take (length sep) s @ drop (length sep) s"
      using 1 by (subst split_ref.simps) (simp add: join_Cons)
    then show ?thesis by simp
  next
    case miss
    then have "s \<noteq> []" by auto
    then show ?thesis using miss 1 by (subst split_ref.simps) simp
  next
    case stop
    then show ?thesis by (subst split_ref.simps) auto
  qed
qed

lemma split_ref_pieces:
  "(\<forall>i < length acc. take (length sep) (drop i (acc @ s)) \<noteq> sep) \<Longrightarrow> sep \<noteq> [] \<Longrightarrow>
   t \<in> set (split_ref sep acc s) \<Longrightarrow> \<not> occurs sep t"
proof (induction sep acc s rule: split_ref.induct)
  case (1 sep acc s)
  have own: "\<not> occurs sep acc"
    unfolding occurs_def
  proof
    assume "\<exists>i. i + length sep \<le> length acc \<and> take (length sep) (drop i acc) = sep"
    then obtain i where i: "i + length sep \<le> length acc" "take (length sep) (drop i acc) = sep" by blast
    then have "i < length acc" "take (length sep) (drop i (acc @ s)) = sep"
      using "1.prems"(2) by (auto simp: neq_Nil_conv)
    then show False using "1.prems"(1) by blast
  qed
  consider (hit) "length sep \<le> length s" "take (length sep) s = sep"
    | (miss) "length sep \<le> length s" "take (length sep) s \<noteq> sep"
    | (stop) "\<not> length sep \<le> length s" by blast
  then show ?case
  proof cases
    case hit
    then have "t = acc \<or> t \<in> set (split_ref sep [] (drop (length sep) s))"
      using "1.prems" by (subst (asm) split_ref.simps) simp
    then show ?thesis using own "1.IH"(1) hit "1.prems"(2) by auto
  next
    case miss
    then have s: "acc @ s = (acc @ [hd s]) @ tl s" using "1.prems"(2) by (cases s) auto
    have "\<forall>i < length (acc @ [hd s]). take (length sep) (drop i ((acc @ [hd s]) @ tl s)) \<noteq> sep"
      unfolding s [symmetric] using "1.prems"(1) miss(2) by (auto simp: less_Suc_eq)
    moreover have "t \<in> set (split_ref sep (acc @ [hd s]) (tl s))"
      using "1.prems" miss by (subst (asm) split_ref.simps) simp
    ultimately show ?thesis using "1.IH"(2) miss "1.prems"(2) by blast
  next
    case stop
    then have t: "t = acc @ s" using "1.prems" by (subst (asm) split_ref.simps) simp
    have False if "i + length sep \<le> length t" "take (length sep) (drop i t) = sep" for i
      using "1.prems"(1) that stop t by (cases "i < length acc") auto
    then show ?thesis by (auto simp: occurs_def)
  qed
qed

lemma split_put_ok:
  assumes "mem_ok a" "start + n \<le> length s" "n < 2 ^ 31" "length toks < slots" "list_all sds_ok toks"
  shows "\<exists>toks'. split_put a s start n slots toks = Some (Some toks') \<and> length toks' = Suc (length toks) \<and>
    list_all sds_ok toks' \<and> map sds_val toks' = map sds_val toks @ [take n (drop start s)]"
proof -
  have "nat (int n) \<le> length (drop start s)" using assms(2) by simp
  then obtain t where "sdsnewlen a (Some (drop start s)) (int n) = Some (Some t)" "sds_ok t"
      "sds_val t = take n (drop start s)"
    using sdsnewlen_init [OF assms(1), of "int n" "drop start s"] assms(3) by auto
  then show ?thesis using assms(4,5) by (simp add: split_put_def)
qed

lemma match_cond:
  assumes "j + n \<le> length s" "0 < n" "n \<le> length sep"
  shows "(n = 1 \<and> s ! j = sep ! 0 \<or> take n (drop j s) = take n sep) \<longleftrightarrow> take n (drop j s) = take n sep"
proof -
  have "s ! j = sep ! 0 \<Longrightarrow> n = 1 \<Longrightarrow> take 1 (drop j s) = take 1 sep"
    using assms by (simp add: take_Suc hd_drop_conv_nth) (cases sep; cases "drop j s"; simp add: hd_drop_conv_nth [symmetric])
  then show ?thesis by auto
qed

lemma piece_split:
  assumes "start \<le> j" "j \<le> n"
  shows "take (j - start) (drop start s) @ drop j (take n s) = take (n - start) (drop start s)"
proof -
  have "drop j (take n s) = take (n - j) (drop (j - start) (drop start s))"
    using assms by (simp add: drop_take)
  moreover have "n - start = (j - start) + (n - j)" using assms by simp
  ultimately show ?thesis by (simp only: take_add)
qed

lemma split_loop_ok:
  assumes "mem_ok a" "n < 2 ^ 31" "n \<le> length s" "0 < k" "k \<le> length sep"
    "start \<le> j" "j \<le> n" "length toks < slots" "list_all sds_ok toks"
  shows "\<exists>toks'. split_loop a s n sep k j start slots toks = Some (Some toks') \<and> list_all sds_ok toks' \<and>
    map sds_val toks' = map sds_val toks @ split_ref (take k sep) (take (j - start) (drop start s)) (drop j (take n s))"
  using assms
proof (induction a s n sep k j start slots toks rule: split_loop.induct)
  case (1 a s n sep k j start slots toks)
  note mem = "1.prems"(1) and n = "1.prems"(2,3) and k = "1.prems"(4,5) and j = "1.prems"(6,7)
    and toks = "1.prems"(8,9)
  let ?sp = "take k sep" and ?acc = "take (j - start) (drop start s)" and ?r = "drop j (take n s)"
  note simps = split_loop.simps [of a s n sep k j start slots toks] split_ref.simps [of ?sp ?acc ?r]
  have lsp: "length ?sp = k" "?sp \<noteq> []" using k by auto
  define slots' where "slots' = (if slots < length toks + 2 then slots * 2 else slots)"
  have sl: "(if slots < length toks + 2
      then (if hs_ok a (8 * (slots * 2)) then Some (slots * 2) else None) else Some slots) = Some slots'"
    using mem by (simp add: slots'_def mem_ok_def)
  have sl': "length toks + 1 < slots'" using toks by (auto simp: slots'_def)
  show ?case
  proof (cases "j + k \<le> n")
    case False
    have "start + (n - start) \<le> length s" "n - start < 2 ^ 31" using n j by auto
    then obtain toks' where p: "split_put a s start (n - start) slots toks = Some (Some toks')" "list_all sds_ok toks'"
        "map sds_val toks' = map sds_val toks @ [take (n - start) (drop start s)]"
      using split_put_ok mem toks by blast
    have "take (n - start) (drop start s) = ?acc @ ?r"
      by (rule piece_split [OF j, symmetric])
    moreover have "\<not> k \<le> n - j" using False j by simp
    ultimately show ?thesis using False p lsp by (simp add: simps n)
  next
    case True
    then have cond: "int j < int n - (int k - 1)" by auto
    have tk: "take k ?r = take k (drop j s)" using True by (simp add: drop_take min_def)
    have "length ?r = n - j" "k \<le> n - j" using n True by simp_all
    note tk = tk this
    have mc: "(k = 1 \<and> s ! j = sep ! 0 \<or> take k (drop j s) = ?sp) \<longleftrightarrow> take k (drop j s) = ?sp"
      using True n k by (intro match_cond) auto
    show ?thesis
    proof (cases "take k (drop j s) = ?sp")
      case hit: True
      have "start + (j - start) \<le> length s" "j - start < 2 ^ 31" using n j by auto
      then obtain toks1 where p: "split_put a s start (j - start) slots' toks = Some (Some toks1)"
          "length toks1 = Suc (length toks)" "list_all sds_ok toks1"
          "map sds_val toks1 = map sds_val toks @ [?acc]"
        using split_put_ok [of a start "j - start" s toks slots'] mem toks sl' by auto
      have "\<exists>toks'. split_loop a s n sep k (j + k) (j + k) slots' toks1 = Some (Some toks') \<and> list_all sds_ok toks' \<and>
          map sds_val toks' = map sds_val toks1 @ split_ref ?sp (take (j + k - (j + k)) (drop (j + k) s)) (drop (j + k) (take n s))"
        using mem n k True cond sl hit p sl' by (intro "1.IH"(1)) auto
      moreover have "split_loop a s n sep k j start slots toks = split_loop a s n sep k (j + k) (j + k) slots' toks1"
        using cond k by (subst simps(1)) (simp only: sl option.case mc hit p(1) if_True simp_thms)
      moreover have "split_ref ?sp ?acc ?r = ?acc # split_ref ?sp [] (drop (j + k) (take n s))"
        using True hit lsp tk by (subst simps(2)) (simp add: add.commute)
      ultimately show ?thesis using p(4) by simp
    next
      case miss: False
      then have mc': "\<not> (k = 1 \<and> s ! j = sep ! 0 \<or> take k (drop j s) = ?sp)" using mc by simp
      have IH: "\<exists>toks'. split_loop a s n sep k (j + 1) start slots' toks = Some (Some toks') \<and> list_all sds_ok toks' \<and>
          map sds_val toks' = map sds_val toks @ split_ref ?sp (take (j + 1 - start) (drop start s)) (drop (j + 1) (take n s))"
        using mem n k j toks True cond sl miss mc sl' by (intro "1.IH"(2)) auto
      moreover have "split_loop a s n sep k j start slots toks = split_loop a s n sep k (j + 1) start slots' toks"
        using cond k by (subst simps(1)) (simp only: sl option.case mc' if_True if_False simp_thms)
      moreover have "take (j + 1 - start) (drop start s) = ?acc @ [s ! j]"
        using j n True k by (simp add: Suc_diff_le take_Suc_conv_app_nth)
      moreover have "hd ?r = s ! j" "tl ?r = drop (j + 1) (take n s)"
        using n True k by (simp_all add: hd_drop_conv_nth drop_Suc tl_drop)
      then have "split_ref ?sp ?acc ?r = split_ref ?sp (?acc @ [s ! j]) (drop (j + 1) (take n s))"
        using True miss lsp tk by (subst simps(2)) simp
      ultimately show ?thesis by simp
    qed
  qed
qed

lemma sdssplitlen_ok:
  assumes "mem_ok a" "0 < n" "n < 2 ^ 31" "nat n \<le> length s" "0 < k" "nat k \<le> length sep"
  shows "\<exists>toks. sdssplitlen a s n sep k = Some (Some toks) \<and> list_all sds_ok toks \<and>
    map sds_val toks = split_ref (take (nat k) sep) [] (take (nat n) s)"
proof -
  have "nat n < 2 ^ 31" "0 < nat k" using assms by auto
  moreover have "hs_ok a 40" using assms(1) by (simp add: mem_ok_def)
  ultimately show ?thesis
    using split_loop_ok [of a "nat n" s "nat k" sep 0 0 "[]" 5] assms by (simp add: sdssplitlen_def)
qed

section \<open>A printed number reads back\<close>

lemma ll_digits_eq:
  "int (length (dec_str v)) \<le> p + 1 \<Longrightarrow> nat p < length buf \<Longrightarrow>
   ll_digits buf p v = Some (blit buf (nat (p + 1) - length (dec_str v)) (dec_str v), p - int (length (dec_str v)))"
proof (induction buf p v rule: ll_digits.induct)
  case (1 buf p v)
  have len: "0 < length (dec_str v)" by simp
  then have p: "0 \<le> p" using "1.prems"(1) by linarith
  obtain i where i: "p = int i" using p nonneg_int_cases by blast
  show ?case
  proof (cases "v < 10")
    case True
    then show ?thesis using 1 i by (subst ll_digits.simps)
      (simp add: dec_str_small blit_def upd_conv_take_nth_drop)
  next
    case False
    let ?d = "dec_str (v div 10)" and ?b = "buf[i := digit (v mod 10)]"
    have v: "dec_str v = ?d @ [digit (v mod 10)]" using False by (rule dec_str_step)
    then have li: "length ?d \<le> i" "i < length buf" using "1.prems" i by auto
    moreover have "0 < length ?d" by simp
    ultimately have "0 < i" by linarith
    then have "ll_digits ?b (p - 1) (v div 10) = Some (blit ?b (nat (p - 1 + 1) - length ?d) ?d, p - 1 - int (length ?d))"
      using li i p False by (intro "1.IH") auto
    moreover have "blit ?b (i - length ?d) ?d = blit buf (i - length ?d) (?d @ [digit (v mod 10)])"
      using li by (simp add: blit_def upd_conv_take_nth_drop)
    ultimately show ?thesis using False li i v by (subst ll_digits.simps) simp
  qed
qed

lemma length_dec_int:
  assumes "- (2 ^ 63) \<le> v" "v < 2 ^ 63"
  shows "length (dec_int v) \<le> 20"
proof -
  have "length (dec_str (nat (abs v))) \<le> Suc 18"
    using assms by (intro length_dec_str) auto
  then show ?thesis by (auto simp: dec_int_def)
qed

lemma ll_text_ok:
  assumes "- (2 ^ 63) \<le> v" "v < 2 ^ 63" "length buf = 32"
  shows "\<exists>b. ll_text buf v = Some (b, 32 - int (length (dec_int v))) \<and> length b = 32 \<and>
           drop (32 - length (dec_int v)) b = dec_int v"
proof -
  define m where "m = nat (if v < 0 then - v else v)"
  have m: "nat (u64 (if v < 0 then - v else v)) = m" "m \<le> 2 ^ 63" using assms(1,2) by (auto simp: m_def)
  then have "m < 10 ^ Suc 18" by simp
  then have l19: "length (dec_str m) \<le> 19" using length_dec_str by fastforce
  define l where "l = length (dec_str m)"
  let ?b = "blit buf (32 - l) (dec_str m)"
  have dg: "ll_digits buf 31 m = Some (?b, 31 - int l)"
    using ll_digits_eq [of m 31 buf] l19 assms(3) by (simp add: l_def)
  have db: "drop (32 - l) ?b = dec_str m" "length ?b = 32"
    using assms(3) l19 by (auto simp: blit_def l_def)
  have lm: "l \<le> 19" "l = length (dec_str m)" using l19 by (simp_all add: l_def)
  show ?thesis
  proof (cases "v < 0")
    case True
    let ?c = "?b[31 - l := CHR ''-'']"
    have sl: "Suc (31 - l) = 32 - l" "31 - l < 32" "nat (31 - int l) = 31 - l" using lm by auto
    then have "drop (31 - l) ?c = CHR ''-'' # dec_str m"
      using db Cons_nth_drop_Suc [of "31 - l" ?c] by simp
    moreover have "poke ?b (31 - l) (CHR ''-'') = Some ?c" using db sl by simp
    moreover have "dec_int v = CHR ''-'' # dec_str m" using True by (simp add: dec_int_def m_def)
    ultimately show ?thesis
      using True dg db lm sl unfolding ll_text_def m(1) by simp
  next
    case False
    then show ?thesis
      using m dg db lm by (auto simp: ll_text_def dec_int_def m_def)
  qed
qed

lemma sdsfromlonglong_ok:
  assumes "mem_ok a" "- (2 ^ 63) \<le> v" "v < 2 ^ 63" "length buf = 32"
  shows "\<exists>s. sdsfromlonglong a buf v = Some (Some s) \<and> sds_ok s \<and> sds_val s = dec_int v"
proof -
  let ?n = "length (dec_int v)"
  have n: "?n \<le> 20" using assms by (intro length_dec_int)
  obtain b where b: "ll_text buf v = Some (b, 32 - int ?n)" "length b = 32" "drop (32 - ?n) b = dec_int v"
    using ll_text_ok [OF assms(2-4)] by auto
  have "\<exists>s. sdsnewlen a (Some (drop (32 - ?n) b)) (int ?n) = Some (Some s) \<and> sds_ok s \<and>
      sds_val s = take (nat (int ?n)) (drop (32 - ?n) b) \<and> sds_free s = 0"
    using b n by (intro sdsnewlen_init assms(1)) auto
  moreover have "nat (32 - int ?n) = 32 - ?n" using n by simp
  ultimately show ?thesis
    using b by (auto simp: sdsfromlonglong_def)
qed

section \<open>Quoting\<close>

definition repr_piece :: "char \<Rightarrow> string" where
  "repr_piece c =
     (if c = BSLASH \<or> c = DQUOTE then [BSLASH, c]
      else if c = CHR 0x0A then [BSLASH, CHR ''n''] else if c = CHR 0x0D then [BSLASH, CHR ''r'']
      else if c = CHR 0x09 then [BSLASH, CHR ''t''] else if c = CHR 0x07 then [BSLASH, CHR ''a'']
      else if c = CHR 0x08 then [BSLASH, CHR ''b''] else if c_isprint c then [c]
      else BSLASH # CHR ''x'' # fmt_02x (ord c))"

definition repr :: "string \<Rightarrow> string" where
  "repr v = DQUOTE # concat (map repr_piece v) @ [DQUOTE]"

lemma ord_eqD: "c = d \<Longrightarrow> ord c = ord d"
  by simp

lemma hex_lower_neq_NUL: "d < 16 \<Longrightarrow> hex_lower d \<noteq> NUL"
  by (auto simp: hex_lower_def dest!: ord_eqD)

lemma repr_piece_no_NUL: "NUL \<notin> set (repr_piece c)"
proof -
  have "ord c div 16 < 16" "ord c mod 16 < 16" using ord_less_256 [of c] by (simp_all add: less_mult_imp_div_less)
  then have "NUL \<notin> set (fmt_02x (ord c))" using hex_lower_neq_NUL [symmetric] by (simp add: fmt_02x_def)
  moreover have "c_isprint c \<Longrightarrow> c \<noteq> NUL" by (auto simp: c_isprint_def)
  ultimately show ?thesis by (auto simp: repr_piece_def)
qed

lemma repr_no_NUL: "NUL \<notin> set (repr v)"
  using repr_piece_no_NUL by (auto simp: repr_def)

lemma repr_cat_ok:
  assumes "mem_ok a" "sds_ok s" "length (sds_val s) + length (repr_piece c) \<le> sds_limit"
  shows "\<exists>s'. repr_cat a s c = Some (Some s') \<and> sds_ok s' \<and> sds_val s' = sds_val s @ repr_piece c"
proof -
  have pr: "\<exists>s'. sdscatprintf a s (repr_piece c) = Some (Some s') \<and> sds_ok s' \<and> sds_val s' = sds_val s @ repr_piece c"
    using sdscatprintf_ok [OF assms(1,2) repr_piece_no_NUL assms(3)] .
  have ct: "\<exists>s'. sdscatlen a s [BSLASH, x] 2 = Some (Some s') \<and> sds_ok s' \<and> sds_val s' = sds_val s @ repr_piece c"
    if "repr_piece c = [BSLASH, x]" for x
    using sdscatlen_ok [OF assms(1,2), of 2 "[BSLASH, x]"] assms(3) that by simp
  show ?thesis
  proof (cases "c \<in> {CHR 0x0A, CHR 0x0D, CHR 0x09, CHR 0x07, CHR 0x08}")
    case True
    then show ?thesis using ct by (auto simp: repr_cat_def repr_piece_def)
  next
    case False
    then have "repr_cat a s c = sdscatprintf a s (repr_piece c)" by (auto simp: repr_cat_def repr_piece_def)
    then show ?thesis using pr by simp
  qed
qed

interpretation sds_repr: byte_emitter "repr_cat a" repr_piece "\<lambda>s. mem_ok a \<and> sds_ok s" sds_val sds_limit
  for a
  by unfold_locales (use repr_cat_ok in blast)

lemma sdscatrepr_ok:
  assumes "mem_ok a" "sds_ok s" "n \<le> length p" "length (sds_val s) + length (repr (take n p)) \<le> sds_limit"
  shows "\<exists>s'. sdscatrepr a s p n = Some (Some s') \<and> sds_ok s' \<and> sds_val s' = sds_val s @ repr (take n p)"
proof -
  let ?v = "take n p" and ?q = "concat (map repr_piece (take n p))"
  have lim: "length (sds_val s) + length ?q + 2 \<le> sds_limit" using assms(4) by (simp add: repr_def)
  obtain s1 where s1: "emit_all (sds_append a) s [[DQUOTE]] = Some s1" "sds_ok s1" "sds_val s1 = sds_val s @ [DQUOTE]"
    using sds_app.emit_all_val [of a s "[[DQUOTE]]"] assms(1,2) lim by auto
  obtain s2 where s2: "emit_all (repr_cat a) s1 ?v = Some s2" "sds_ok s2" "sds_val s2 = sds_val s1 @ ?q"
    using sds_repr.emit_all_val [of a s1 ?v] assms(1) s1 lim by auto
  obtain s3 where "sdscatlen a s2 [DQUOTE] 1 = Some (Some s3)" "sds_ok s3" "sds_val s3 = sds_val s2 @ [DQUOTE]"
    using sdscatlen_ok [OF assms(1) s2(2), of 1 "[DQUOTE]"] s1 s2 lim by auto
  then show ?thesis using assms(3) s1 s2 by (simp add: sdscatrepr_def repr_def)
qed

section \<open>Splitting quoted arguments\<close>

lemma ord_hex_lower: "d < 16 \<Longrightarrow> ord (hex_lower d) = (if d < 10 then 48 + d else 87 + d)"
  by (simp add: hex_lower_def)

lemma hex_lower_eq_iff: "hex_lower d = c \<longleftrightarrow> ord (hex_lower d) = ord c"
  by simp

lemma hex_lower_digit:
  assumes "d < 16"
  shows "is_hex_digit (hex_lower d)" "hex_digit_to_int (hex_lower d) = d"
proof -
  show "is_hex_digit (hex_lower d)" using assms by (simp add: is_hex_digit_def ord_hex_lower)
  have "d \<in> {0, 1, 2, 3, 4, 5, 6, 7, 8, 9, 10, 11, 12, 13, 14, 15}"
    using assms unfolding insert_iff empty_iff by presburger
  then show "hex_digit_to_int (hex_lower d) = d"
    unfolding hex_digit_to_int_def zip_Cons_Cons map_of.simps fst_conv snd_conv fun_upd_apply hex_lower_eq_iff
    by (elim insertE) (simp_all add: ord_hex_lower)
qed

lemma char_of_ord: "char_of (ord c) = c"
  by simp

text \<open>One turn of the token loop reads back one quoted character.\<close>

lemma token_step_repr: "token_step InQ (repr_piece c @ q) = TokGo InQ [c] q"
proof -
  consider (esc) "c = BSLASH \<or> c = DQUOTE"
    | (ctl) "c \<in> {CHR 0x0A, CHR 0x0D, CHR 0x09, CHR 0x07, CHR 0x08}"
    | (plain) "c \<notin> {BSLASH, DQUOTE, CHR 0x0A, CHR 0x0D, CHR 0x09, CHR 0x07, CHR 0x08}" "c_isprint c"
    | (hex) "c \<notin> {BSLASH, DQUOTE, CHR 0x0A, CHR 0x0D, CHR 0x09, CHR 0x07, CHR 0x08}" "\<not> c_isprint c"
    by blast
  then show ?thesis
  proof cases
    case esc
    then show ?thesis by (auto simp: token_step.simps repr_piece_def ch_def unescape_def)
  next
    case ctl
    then show ?thesis by (auto simp: token_step.simps repr_piece_def ch_def unescape_def)
  next
    case plain
    moreover have "c \<noteq> NUL" using plain(2) by (auto simp: c_isprint_def)
    ultimately show ?thesis by (auto simp: token_step.simps repr_piece_def ch_def adv_def)
  next
    case hex
    have b: "ord c div 16 < 16" "ord c mod 16 < 16" using ord_less_256 [of c] by (simp_all add: less_mult_imp_div_less)
    have "ord c div 16 * 16 + ord c mod 16 = ord c" by simp
    with b hex show ?thesis
      by (simp add: token_step.simps repr_piece_def fmt_02x_def ch_def hex_lower_digit)
  qed
qed

definition arg_end :: "string \<Rightarrow> bool" where
  "arg_end q \<longleftrightarrow> q = [] \<or> c_isspace (hd q)"

lemma get_token_repr:
  assumes "mem_ok a" "arg_end q"
  shows "sds_ok cur \<Longrightarrow> length (sds_val cur) + length v \<le> sds_limit \<Longrightarrow>
    \<exists>cur'. get_token a InQ cur (concat (map repr_piece v) @ DQUOTE # q) = Some (Some (cur', q)) \<and>
      sds_ok cur' \<and> sds_val cur' = sds_val cur @ v"
proof (induction v arbitrary: cur)
  case Nil
  have "token_step InQ (DQUOTE # q) = TokDone q"
    using assms(2) by (cases q) (auto simp: token_step.simps ch_def adv_def arg_end_def)
  then show ?case using Nil by (subst get_token.simps) simp
next
  case (Cons c v)
  obtain c1 where c1: "sds_append a cur [c] = Some (Some c1)" "sds_ok c1" "sds_val c1 = sds_val cur @ [c]"
    using sds_append_ok [OF assms(1) Cons.prems(1), of "[c]"] Cons.prems(2) by auto
  then show ?case using Cons.IH [of c1] Cons.prems(2)
    by (subst get_token.simps) (simp add: token_step_repr)
qed

lemma get_token_arg:
  assumes "mem_ok a" "arg_end q" "length v \<le> sds_limit" "sds_ok cur" "sds_val cur = []"
  shows "\<exists>cur'. get_token a Plain cur (repr v @ q) = Some (Some (cur', q)) \<and> sds_ok cur' \<and> sds_val cur' = v"
proof -
  have "token_step Plain (repr v @ q) = TokGo InQ [] (concat (map repr_piece v) @ DQUOTE # q)"
    by (simp add: token_step.simps repr_def ch_def adv_def)
  then show ?thesis using get_token_repr [OF assms(1,2,4), of v] assms(3,5)
    by (subst get_token.simps) simp
qed

lemma splitargs_loop_reprs:
  assumes "mem_ok a" "list_all (\<lambda>v. length v \<le> sds_limit) vs" "sp = [] \<or> sp = '' ''" "list_all sds_ok vec"
  shows "\<exists>toks. splitargs_loop a vec (sp @ join '' '' (map repr vs)) =
      Some (if toks = [] then None else Some toks, int (length toks)) \<and>
    list_all sds_ok toks \<and> map sds_val toks = map sds_val vec @ vs"
  using assms
proof (induction vs arbitrary: sp vec)
  case Nil
  then have "dropWhile (\<lambda>c. c \<noteq> NUL \<and> c_isspace c) (sp @ join '' '' (map repr [])) = []"
    by (auto simp: c_isspace_def)
  then have "splitargs_loop a vec (sp @ join '' '' (map repr [])) =
      Some (if vec = [] then None else Some vec, int (length vec))"
    by (subst splitargs_loop.simps) (simp add: ch_def)
  then show ?case using Nil by auto
next
  case (Cons v vs)
  define q where "q = (if vs = [] then [] else '' '' @ join '' '' (map repr vs))"
  have line: "join '' '' (map repr (v # vs)) = repr v @ q" by (cases vs) (auto simp: q_def)
  have skip: "dropWhile (\<lambda>c. c \<noteq> NUL \<and> c_isspace c) (sp @ repr v @ q) = repr v @ q"
    using Cons.prems(3) by (auto simp: repr_def c_isspace_def)
  obtain e where e: "sdsempty a = Some (Some e)" "sds_ok e" "sds_val e = []"
    using sdsempty_ok [OF Cons.prems(1)] by blast
  have "arg_end q" by (simp add: arg_end_def c_isspace_def q_def)
  then obtain t where t: "get_token a Plain e (repr v @ q) = Some (Some (t, q))" "sds_ok t" "sds_val t = v"
    using get_token_arg [OF Cons.prems(1), of q v e] Cons.prems(2) e by auto
  have "ch (repr v @ q) 0 \<noteq> NUL" by (simp add: repr_def ch_def)
  then have step: "splitargs_loop a vec (sp @ repr v @ q) = splitargs_loop a (vec @ [t]) q"
    using Cons.prems(1) by (subst splitargs_loop.simps, unfold skip Let_def) (simp add: e t mem_ok_def)
  obtain sp' where q': "q = sp' @ join '' '' (map repr vs)" "sp' = [] \<or> sp' = '' ''"
    by (cases vs) (auto simp: q_def)
  have "list_all sds_ok (vec @ [t])" using Cons.prems(4) t by simp
  then obtain toks where "splitargs_loop a (vec @ [t]) q =
      Some (if toks = [] then None else Some toks, int (length toks))"
      "list_all sds_ok toks" "map sds_val toks = map sds_val (vec @ [t]) @ vs"
    using Cons.IH [OF Cons.prems(1) _ q'(2), of "vec @ [t]"] Cons.prems(2) unfolding q'(1) by auto
  then show ?case unfolding line step using t(3) by (intro exI [of _ toks]) simp
qed

lemma join_no_NUL: "(\<forall>t \<in> set ts. NUL \<notin> set t) \<Longrightarrow> NUL \<notin> set (join '' '' ts)"
  by (induction "'' ''" ts rule: join.induct) auto

lemma sdssplitargs_reprs:
  assumes "mem_ok a" "list_all (\<lambda>v. length v \<le> sds_limit) vs" "vs \<noteq> []"
  shows "\<exists>toks. sdssplitargs a (join '' '' (map repr vs) @ NUL # r) = Some (Some toks, int (length vs)) \<and>
    list_all sds_ok toks \<and> map sds_val toks = vs"
proof -
  have "cstr (join '' '' (map repr vs) @ NUL # r) = join '' '' (map repr vs)"
    by (simp add: cstr_no_nul join_no_NUL repr_no_NUL)
  moreover obtain toks where toks: "splitargs_loop a [] (join '' '' (map repr vs)) =
      Some (if toks = [] then None else Some toks, int (length toks))"
      "list_all sds_ok toks" "map sds_val toks = vs"
    using splitargs_loop_reprs [OF assms(1,2), of "[]" "[]"] by auto
  moreover have "toks \<noteq> []" "length toks = length vs" using toks(3) assms(3) by auto
  ultimately show ?thesis by (auto simp: sdssplitargs_def)
qed

text \<open>\<open>q\<close> is what \<open>sdscatrepr\<close> leaves in an empty string for the bytes \<open>v\<close>.\<close>

definition quoted :: "allocator \<Rightarrow> string \<Rightarrow> string \<Rightarrow> bool" where
  "quoted a v q \<longleftrightarrow> (\<exists>s0 s1. sds_ok s0 \<and> sds_val s0 = [] \<and>
     sdscatrepr a s0 v (length v) = Some (Some s1) \<and> q = sds_val s1)"

lemma quoted_eq:
  assumes "mem_ok a" "quoted a v q" "length (repr v) \<le> sds_limit"
  shows "q = repr v"
proof -
  obtain s0 s1 where s: "sds_ok s0" "sds_val s0 = []" "sdscatrepr a s0 v (length v) = Some (Some s1)" "q = sds_val s1"
    using assms(2) by (auto simp: quoted_def)
  then show ?thesis using sdscatrepr_ok [OF assms(1) s(1), of "length v" v] assms(3) by auto
qed

lemma quoted_repr:
  assumes "mem_ok a" "length (repr v) \<le> sds_limit"
  shows "quoted a v (repr v)"
proof -
  obtain e where e: "sds_ok e" "sds_val e = []" using sdsempty_ok [OF assms(1)] by blast
  then show ?thesis using sdscatrepr_ok [OF assms(1) e(1), of "length v" v] assms(2) e
    by (auto simp: quoted_def)
qed

lemma length_le_repr: "length v \<le> length (repr v)"
proof -
  have "1 \<le> length (repr_piece c)" for c by (simp add: repr_piece_def)
  then have "length v \<le> length (concat (map repr_piece v))"
    by (induction v) (auto simp: add_le_mono [of 1, simplified])
  then show ?thesis by (simp add: repr_def)
qed

section \<open>Properties\<close>

text \<open>
  Splitting a buffer at a non-empty separator returns the pieces between its
  occurrences: the pieces joined by the separator are the buffer, none of them
  contains the separator, the token array is never overrun however many tokens
  there are, and every returned string is well formed.
\<close>

lemma sdssplitlen_splits:
  assumes "mem_ok a" and "0 < n" and "n < 2 ^ 31" and "nat n \<le> length s" and "0 < k" and "nat k \<le> length sep"
  shows "\<exists>toks. sdssplitlen a s n sep k = Some (Some toks) \<and> list_all sds_ok toks \<and>
    join (take (nat k) sep) (map sds_val toks) = take (nat n) s \<and>
    list_all (\<lambda>t. \<not> occurs (take (nat k) sep) (sds_val t)) toks"
proof -
  let ?sp = "take (nat k) sep"
  obtain toks where t: "sdssplitlen a s n sep k = Some (Some toks)" "list_all sds_ok toks"
      "map sds_val toks = split_ref ?sp [] (take (nat n) s)"
    using sdssplitlen_ok [OF assms] by blast
  have "?sp \<noteq> []" using assms(5,6) by auto
  then have "list_all (\<lambda>t. \<not> occurs ?sp (sds_val t)) toks"
    using split_ref_pieces [of "[]" ?sp "take (nat n) s"] t(3) [symmetric] by (simp add: list_all_iff)
  with t show ?thesis using join_split_ref [of ?sp "[]"] by simp
qed

text \<open>
  \<open>sdsfromlonglong\<close> prints every 64-bit signed number, the smallest one
  included, as its decimal numeral, within its 32-byte scratch buffer.
\<close>

lemma sdsfromlonglong_prints:
  assumes "mem_ok a" and "- (2 ^ 63) \<le> v" and "v < 2 ^ 63" and "length buf = 32"
  shows "\<exists>s. sdsfromlonglong a buf v = Some (Some s) \<and> sds_ok s \<and> sds_val s = dec_int v"
  using assms by (rule sdsfromlonglong_ok)

text \<open>
  C19: Quoting and argument splitting are inverse: a line made of the outputs of
  \<open>sdscatrepr\<close> for any list of byte strings (zero bytes, quotes and control
  characters included), separated by single spaces, is split by
  \<open>sdssplitargs\<close> into exactly those strings.
\<close>

theorem sdssplitargs_inverts_repr:
  assumes "mem_ok a" and "list_all (\<lambda>v. length (repr v) \<le> sds_limit) vs" and "vs \<noteq> []"
    and "list_all2 (quoted a) vs qs"
  shows "\<exists>toks. sdssplitargs a (join '' '' qs @ NUL # r) = Some (Some toks, int (length vs)) \<and>
    list_all sds_ok toks \<and> map sds_val toks = vs"
proof -
  have "qs = map repr vs" using assms(4,2)
    by (induction rule: list_all2_induct) (auto dest: quoted_eq [OF assms(1)])
  moreover have "list_all (\<lambda>v. length v \<le> sds_limit) vs"
    using assms(2) length_le_repr by (fastforce simp: list_all_iff intro: order_trans)
  ultimately show ?thesis using sdssplitargs_reprs [OF assms(1) _ assms(3)] by simp
qed

theorem sdssplitargs_inverts_repr_witness:
  "\<exists>toks. sdssplitargs demo_mem (join '' '' [repr [NUL, DQUOTE, CHR 0x0A], repr ''ok''] @ [NUL]) = Some (Some toks, 2) \<and>
     map sds_val toks = [[NUL, DQUOTE, CHR 0x0A], ''ok'']"
proof -
  have l: "length (repr [NUL, DQUOTE, CHR 0x0A]) \<le> sds_limit" "length (repr ''ok'') \<le> sds_limit"
    by (simp_all add: repr_def repr_piece_def fmt_02x_def sds_limit_def)
  then have q: "list_all2 (quoted demo_mem) [[NUL, DQUOTE, CHR 0x0A], ''ok''] [repr [NUL, DQUOTE, CHR 0x0A], repr ''ok'']"
    by (simp add: quoted_repr [OF demo_mem_ok])
  have "list_all (\<lambda>v. length (repr v) \<le> sds_limit) [[NUL, DQUOTE, CHR 0x0A], ''ok'']" using l by simp
  from sdssplitargs_inverts_repr [OF demo_mem_ok this list.distinct(2) q, of "[]"]
  obtain toks where "sdssplitargs demo_mem (join '' '' [repr [NUL, DQUOTE, CHR 0x0A], repr ''ok''] @ NUL # []) =
      Some (Some toks, int (length [[NUL, DQUOTE, CHR 0x0A], ''ok'']))"
      "map sds_val toks = [[NUL, DQUOTE, CHR 0x0A], ''ok'']" by (elim exE conjE)
  then show ?thesis by (intro exI [of _ toks] conjI) (simp only: list.size One_nat_def of_nat_Suc, simp, assumption)
qed

end
