(* ===== verification/Event_Loop.thy ===== *)
theory Event_Loop
  imports Zf_Prelude
begin

text \<open>
  The I/O and timer watchers of \<open>src/server/event.cpp\<close> over the watchers of libev
  (\<open>deps/libev-4.11\<close>). A watcher is its libev record; what the kernel is asked to
  report for it is \<open>interest\<close>. Shown are the set algebra of
  \<open>start_io_event\<close> and \<open>stop_io_event\<close> on running watchers, and what
  \<open>stop_io_event\<close> does to a watcher that is not running.

  Event masks are \<^typ>\<open>int\<close> with bit operations. Delays are kept in microseconds,
  without the conversion to \<open>float\<close> seconds. The loop itself (which callback runs
  when) is libev's and not modelled here; each callback of the program is an
  operation of the theory of its component.
\<close>

section \<open>Watchers of libev\<close>

abbreviation (input) EV_READ :: int where "EV_READ \<equiv> 1"
abbreviation (input) EV_WRITE :: int where "EV_WRITE \<equiv> 2"

(* src/deps/libev-4.11/ev.h:303-311, ev_io *)
record ev_io =
  io_active :: bool
  io_fd :: int
  io_events :: int

(* src/deps/libev-4.11/ev.h:679-679, ev_io_set *)
definition ev_io_set :: "ev_io \<Rightarrow> int \<Rightarrow> int \<Rightarrow> ev_io" where
  "ev_io_set w fd events = w\<lparr>io_fd := fd, io_events := events OR 0x80\<rparr>"

text \<open>A failed assertion of libev is \<open>None\<close>.\<close>

(* src/deps/libev-4.11/ev.c:3228-3249, ev_io_start *)
definition ev_io_start :: "ev_io \<Rightarrow> ev_io option" where
  "ev_io_start w =
     (if io_active w then Some w
      else if 0 \<le> io_fd w \<and> io_events w AND NOT (0x80 OR EV_READ OR EV_WRITE) = 0
      then Some (w\<lparr>io_active := True, io_events := io_events w AND NOT 0x80\<rparr>)
      else None)"

(* src/deps/libev-4.11/ev.c:3251-3268, ev_io_stop *)
definition ev_io_stop :: "ev_io \<Rightarrow> ev_io" where
  "ev_io_stop w = (if \<not> io_active w then w else w\<lparr>io_active := False\<rparr>)"

(* src/deps/libev-4.11/ev.h:313-320, ev_timer *)
record ev_timer =
  tm_active :: bool
  tm_at :: int
  tm_repeat :: int

(* src/deps/libev-4.11/ev.c:3270-3292, ev_timer_start *)
definition ev_timer_start :: "int \<Rightarrow> ev_timer \<Rightarrow> ev_timer" where
  "ev_timer_start mn_now w =
     (if tm_active w then w else w\<lparr>tm_active := True, tm_at := tm_at w + mn_now\<rparr>)"

(* src/deps/libev-4.11/ev.c:3294-3322, ev_timer_stop *)
definition ev_timer_stop :: "int \<Rightarrow> ev_timer \<Rightarrow> ev_timer" where
  "ev_timer_stop mn_now w =
     (if \<not> tm_active w then w else w\<lparr>tm_active := False, tm_at := tm_at w - mn_now\<rparr>)"

(* src/deps/libev-4.11/ev.c:3324-3349, ev_timer_again *)
definition ev_timer_again :: "int \<Rightarrow> ev_timer \<Rightarrow> ev_timer" where
  "ev_timer_again mn_now w =
     (if tm_active w then
        if tm_repeat w \<noteq> 0 then w\<lparr>tm_at := mn_now + tm_repeat w\<rparr>
        else ev_timer_stop mn_now w
      else if tm_repeat w \<noteq> 0 then ev_timer_start mn_now (w\<lparr>tm_at := tm_repeat w\<rparr>)
      else w)"

section \<open>The event loop of the program\<close>

abbreviation (input) READ :: int where "READ \<equiv> 1"
abbreviation (input) WRITE :: int where "WRITE \<equiv> 2"

(* src/src/server/event.cpp:13-14, TRANS_TO_EV_MASK *)
definition TRANS_TO_EV_MASK :: "int \<Rightarrow> int" where
  "TRANS_TO_EV_MASK msk =
     (if msk AND READ \<noteq> 0 then EV_READ else 0) OR (if msk AND WRITE \<noteq> 0 then EV_WRITE else 0)"

(* src/src/server/event.cpp:15-16, TRANS_FROM_EV_MASK *)
definition TRANS_FROM_EV_MASK :: "int \<Rightarrow> int" where
  "TRANS_FROM_EV_MASK ev_msk =
     (if ev_msk AND EV_READ \<noteq> 0 then READ else 0) OR (if ev_msk AND EV_WRITE \<noteq> 0 then WRITE else 0)"

text \<open>
  \<open>new IOWatcher\<close> and \<open>ev_init\<close> leave \<open>fd\<close> and \<open>events\<close> indeterminate: they are
  arguments of the model.
\<close>

(* src/src/server/event.cpp:162-166, EventLoop::create_io_event *)
definition create_io_event :: "int \<Rightarrow> int \<Rightarrow> ev_io" where
  "create_io_event junk_fd junk_events = \<lparr>io_active = False, io_fd = junk_fd, io_events = junk_events\<rparr>"

(* src/src/server/event.cpp:169-187, EventLoop::start_io_event *)
definition start_io_event :: "ev_io \<Rightarrow> int \<Rightarrow> int \<Rightarrow> ev_io option" where
  "start_io_event io fd msk =
     (if io_active io then
        let active_events = TRANS_FROM_EV_MASK (io_events io);
            events = active_events OR msk
        in if active_events = events then Some io
           else ev_io_start (ev_io_set (ev_io_stop io) fd (TRANS_TO_EV_MASK events))
      else ev_io_start (ev_io_set io fd (TRANS_TO_EV_MASK msk)))"

(* src/src/server/event.cpp:189-201, EventLoop::stop_io_event *)
definition stop_io_event :: "ev_io \<Rightarrow> int \<Rightarrow> int \<Rightarrow> ev_io option" where
  "stop_io_event io fd msk =
     (let active_events = TRANS_FROM_EV_MASK (io_events io);
          events = active_events AND NOT msk
      in if active_events = events then Some io
         else let events = TRANS_TO_EV_MASK events; io = ev_io_stop io
              in if events \<noteq> 0 then ev_io_start (ev_io_set io fd events) else Some io)"

text \<open>The watcher is stopped before its memory is released.\<close>

(* src/src/server/event.cpp:203-207, EventLoop::delete_io_event *)
definition delete_io_event :: "ev_io \<Rightarrow> ev_io" where
  "delete_io_event io = ev_io_stop io"

(* src/src/server/event.cpp:84-98, TimerWatcher *)
record timer_watcher =
  tw_timer :: ev_timer
  tw_repeat :: bool

(* src/src/server/event.cpp:107-114, EventLoop::create_timer *)
definition create_timer :: "bool \<Rightarrow> int \<Rightarrow> int \<Rightarrow> timer_watcher" where
  "create_timer need_repeat junk_at junk_repeat =
     \<lparr>tw_timer = \<lparr>tm_active = False, tm_at = junk_at, tm_repeat = junk_repeat\<rparr>, tw_repeat = need_repeat\<rparr>"

(* src/src/server/event.cpp:116-128, EventLoop::start_timer *)
definition tw_start :: "int \<Rightarrow> timer_watcher \<Rightarrow> int \<Rightarrow> timer_watcher" where
  "tw_start mn_now w usec =
     (if \<not> tw_repeat w then
        w\<lparr>tw_timer := ev_timer_start mn_now ((ev_timer_stop mn_now (tw_timer w))\<lparr>tm_at := usec, tm_repeat := 0\<rparr>)\<rparr>
      else w\<lparr>tw_timer := ev_timer_again mn_now ((tw_timer w)\<lparr>tm_repeat := usec\<rparr>)\<rparr>)"

(* src/src/server/event.cpp:130-139, EventLoop::stop_timer *)
definition tw_stop :: "int \<Rightarrow> timer_watcher \<Rightarrow> timer_watcher" where
  "tw_stop mn_now w = w\<lparr>tw_timer := ev_timer_stop mn_now (tw_timer w)\<rparr>"

section \<open>Masks\<close>

lemma and_1_nonzero: "(m::int) AND 1 \<noteq> 0 \<longleftrightarrow> bit m 0"
  by (simp add: and_one_eq bit_0 odd_iff_mod_2_eq_one)

lemma and_2_nonzero: "(m::int) AND 2 \<noteq> 0 \<longleftrightarrow> bit m (Suc 0)"
proof -
  have "m AND 2 \<noteq> 0 \<longleftrightarrow> bit m 1"
    using bit_iff_and_push_bit_not_eq_0 [of m 1] by simp
  then show ?thesis by simp
qed

lemma bit_1_int: "bit (1::int) n \<longleftrightarrow> n = 0"
  by (simp add: bit_1_iff)

lemma bit_2_int: "bit (2::int) n \<longleftrightarrow> n = Suc 0"
  using bit_exp_iff [where 'a = int, of 1 n] by auto

lemma trans_to_eq: "TRANS_TO_EV_MASK m = take_bit 2 m"
  by (rule bit_eqI)
    (auto simp: TRANS_TO_EV_MASK_def and_1_nonzero and_2_nonzero bit_or_iff bit_take_bit_iff
      bit_1_int bit_2_int numeral_2_eq_2 less_Suc_eq intro!: gr0I)

lemma trans_from_eq: "TRANS_FROM_EV_MASK m = take_bit 2 m"
  using trans_to_eq [of m] by (simp add: TRANS_TO_EV_MASK_def TRANS_FROM_EV_MASK_def)

lemma bit_128_int: "bit (128::int) n \<longleftrightarrow> n = 7"
  using bit_exp_iff [where 'a = int, of 7 n] by auto

lemma bit_not_128: "bit (- 129 :: int) n \<longleftrightarrow> n \<noteq> 7"
  using bit_not_iff_eq [where 'a = int, of 128 n] bit_128_int by simp

lemma bit_not_131: "bit (- 132 :: int) n \<longleftrightarrow> n \<notin> {0, Suc 0, 7}"
proof -
  have "bit (- 132 :: int) n \<longleftrightarrow> \<not> bit (131::int) n"
    using bit_not_iff_eq [where 'a = int, of 131 n] by simp
  moreover have "bit (131::int) n \<longleftrightarrow> bit (128 OR (1 OR (2::int))) n" by simp
  ultimately show ?thesis by (simp only: bit_or_iff bit_128_int bit_1_int bit_2_int) auto
qed

lemma take_bit_2_or_flag: "(take_bit 2 m OR 128) AND - 129 = take_bit 2 (m::int)"
  by (rule bit_eqI) (auto simp: bit_and_iff bit_or_iff bit_take_bit_iff bit_128_int bit_not_128)

lemma legal_mask: "(take_bit 2 m OR 128) AND - 132 = (0::int)"
  by (rule bit_eqI)
    (auto simp: bit_and_iff bit_or_iff bit_take_bit_iff bit_128_int bit_not_131 numeral_2_eq_2 less_Suc_eq)

lemma ev_restart:
  assumes "0 \<le> fd"
  shows "ev_io_start (ev_io_set (ev_io_stop w) fd (take_bit 2 m)) =
    Some (w\<lparr>io_fd := fd, io_active := True, io_events := take_bit 2 m\<rparr>)"
  using assms by (simp add: ev_io_start_def ev_io_set_def ev_io_stop_def take_bit_2_or_flag legal_mask)

section \<open>Interest\<close>

text \<open>What the kernel is asked to report: nothing unless the watcher runs.\<close>

definition interest :: "ev_io \<Rightarrow> int" where
  "interest w = (if io_active w then io_events w else 0)"

text \<open>A running watcher has a legal, non-empty mask and a descriptor.\<close>

definition watch_ok :: "ev_io \<Rightarrow> bool" where
  "watch_ok w \<longleftrightarrow> (io_active w \<longrightarrow> 0 \<le> io_fd w \<and> take_bit 2 (io_events w) = io_events w \<and> io_events w \<noteq> 0)"

lemma start_io_event_ok:
  assumes "watch_ok w" "0 \<le> fd" "take_bit 2 m = m" "m \<noteq> 0" "io_active w \<longrightarrow> io_fd w = fd"
  shows "\<exists>w'. start_io_event w fd m = Some w' \<and> watch_ok w' \<and> io_active w' \<and> io_fd w' = fd \<and>
    interest w' = interest w OR m"
proof (cases "io_active w")
  case True
  have e: "take_bit 2 (io_events w) = io_events w" "io_events w \<noteq> 0" using assms(1) True by (auto simp: watch_ok_def)
  have nz: "io_events w OR m \<noteq> 0" using e(2) by (simp add: or_eq_0_iff)
  have or2: "take_bit 2 (io_events w OR m) = io_events w OR m" using e assms(3) by simp
  show ?thesis
  proof (cases "io_events w OR m = io_events w")
    case eq: True
    then show ?thesis using True e assms by (simp add: start_io_event_def trans_from_eq interest_def)
  next
    case False
    then show ?thesis using True e or2 nz ev_restart [OF assms(2), of w "io_events w OR m"] assms
      by (simp add: start_io_event_def trans_from_eq trans_to_eq interest_def watch_ok_def)
  qed
next
  case False
  then have "ev_io_stop w = w" by (simp add: ev_io_stop_def)
  then show ?thesis using False ev_restart [OF assms(2), of w m] assms
    by (simp add: start_io_event_def trans_to_eq interest_def watch_ok_def)
qed

lemma stop_io_event_ok:
  assumes "watch_ok w" "io_active w" "io_fd w = fd"
  shows "\<exists>w'. stop_io_event w fd m = Some w' \<and> watch_ok w' \<and> io_fd w' = fd \<and>
    interest w' = interest w AND NOT m"
proof -
  have e: "take_bit 2 (io_events w) = io_events w" "0 \<le> fd" using assms by (auto simp: watch_ok_def)
  have an2: "take_bit 2 (io_events w AND NOT m) = io_events w AND NOT m"
    by (rule bit_eqI) (metis bit_and_iff bit_take_bit_iff e(1))
  show ?thesis
  proof (cases "io_events w AND NOT m = io_events w")
    case True
    then show ?thesis using e assms by (simp add: stop_io_event_def trans_from_eq interest_def)
  next
    case False
    then show ?thesis using e an2 ev_restart [OF e(2), of w "io_events w AND NOT m"] assms
      by (auto simp: stop_io_event_def trans_from_eq trans_to_eq interest_def watch_ok_def Let_def ev_io_stop_def)
  qed
qed

section \<open>Properties\<close>

text \<open>
  On a running watcher, starting events adds them to the set of watched
  events and stopping events removes them, for every legal mask; the watcher
  stays legal, and after stopping it runs exactly if something is left to watch.
\<close>

lemma io_event_algebra:
  assumes "watch_ok w" and "io_active w" and "io_fd w = fd" and "take_bit 2 m = m" and "m \<noteq> 0"
  shows "\<exists>w1 w2. start_io_event w fd m = Some w1 \<and> watch_ok w1 \<and> interest w1 = interest w OR m \<and>
    stop_io_event w fd m = Some w2 \<and> watch_ok w2 \<and> interest w2 = interest w AND NOT m \<and>
    (io_active w2 \<longleftrightarrow> interest w AND NOT m \<noteq> 0)"
proof -
  have "0 \<le> fd" using assms by (simp add: watch_ok_def)
  then obtain w1 w2 where "start_io_event w fd m = Some w1" "watch_ok w1" "interest w1 = interest w OR m"
      "stop_io_event w fd m = Some w2" "watch_ok w2" "interest w2 = interest w AND NOT m"
    using start_io_event_ok [OF assms(1) _ assms(4,5), of fd] stop_io_event_ok [OF assms(1-3), of m] assms(3) by blast
  moreover have "io_active w2 \<longleftrightarrow> interest w2 \<noteq> 0" using \<open>watch_ok w2\<close> by (auto simp: interest_def watch_ok_def)
  ultimately show ?thesis by metis
qed

text \<open>
  \<open>stop_io_event\<close> reads the events of a watcher without asking whether it
  runs. After all events of a watcher have been stopped, libev keeps the old
  mask in the record, and stopping one more event starts the watcher again for
  the others.
\<close>

lemma stop_io_event_restarts_stopped:
  assumes "0 \<le> fd"
  shows "\<exists>w1 w2. stop_io_event \<lparr>io_active = True, io_fd = fd, io_events = 3\<rparr> fd (READ OR WRITE) = Some w1 \<and>
    \<not> io_active w1 \<and> stop_io_event w1 fd WRITE = Some w2 \<and> io_active w2 \<and> interest w2 = READ"
proof -
  let ?w = "\<lparr>io_active = False, io_fd = fd, io_events = 3\<rparr>"
  have "stop_io_event \<lparr>io_active = True, io_fd = fd, io_events = 3\<rparr> fd 3 = Some ?w"
    by (simp add: stop_io_event_def trans_from_eq trans_to_eq ev_io_stop_def Let_def)
  moreover have "stop_io_event ?w fd 2 = Some (?w\<lparr>io_active := True, io_events := 1\<rparr>)"
    using assms by (simp add: stop_io_event_def trans_from_eq trans_to_eq Let_def ev_io_stop_def ev_io_start_def ev_io_set_def)
  ultimately show ?thesis by (auto simp: interest_def)
qed

end
