(* ===== verification/Sockets.thy ===== *)
theory Sockets
  imports Zf_Prelude
begin

text \<open>
  The socket wrappers of \<open>src/server/socket.cpp\<close>, \<open>tcp_socket.cpp\<close>,
  \<open>udp_socket.cpp\<close> and the socket table of \<open>src/server/network_manager.cpp\<close>.

  The kernel is outside the program: \<open>sysops\<close> is a record of the system calls the
  code makes, each a function of the kernel state \<open>'k\<close>. What the code relies on is
  \<open>kernel_ok\<close>, the documented effect of the calls on the set of open descriptors.
  The results of \<open>read\<close> and \<open>write\<close> are values handed to the operations that
  call them.
\<close>

section \<open>Reading and writing\<close>

text \<open>
  The outcome of a \<open>read\<close> or \<open>write\<close> system call: the bytes or the number of bytes
  transferred, \<open>EAGAIN\<close>, or another error.
\<close>

datatype os_read = RdOk string | RdAgain | RdErr

datatype os_write = WrOk nat | WrAgain | WrErr

abbreviation (input) SOCKET_OK :: int where "SOCKET_OK \<equiv> 0"
abbreviation (input) SOCKET_ERR :: int where "SOCKET_ERR \<equiv> -1"
abbreviation (input) SOCKET_PEER_CLOSED :: int where "SOCKET_PEER_CLOSED \<equiv> -2"

(* src/src/server/socket.cpp:216-228, Socket::write *)
fun socket_write :: "os_write \<Rightarrow> int" where
  "socket_write WrAgain = 0"
| "socket_write WrErr = SOCKET_ERR"
| "socket_write (WrOk n) = int n"

(* src/src/server/socket.cpp:230-245, Socket::read *)
fun socket_read :: "os_read \<Rightarrow> int" where
  "socket_read RdAgain = 0"
| "socket_read RdErr = SOCKET_ERR"
| "socket_read (RdOk bs) = (if length bs = 0 then SOCKET_PEER_CLOSED else int (length bs))"

text \<open>The bytes a \<open>read\<close> left in the buffer.\<close>

fun read_bytes :: "os_read \<Rightarrow> string" where
  "read_bytes (RdOk bs) = bs"
| "read_bytes _ = []"

section \<open>System calls\<close>

(* src/src/server/ipv4_address.h:30-56, Ipv4Address *)
record ipv4 =
  ip_str :: string
  ip_port :: nat

record 'k sysops =
  sys_socket :: "int \<Rightarrow> int \<Rightarrow> 'k \<Rightarrow> int \<times> 'k"
  sys_setsockopt :: "int \<Rightarrow> int \<Rightarrow> int \<Rightarrow> int \<Rightarrow> 'k \<Rightarrow> int \<times> 'k"
  sys_bind :: "int \<Rightarrow> ipv4 \<Rightarrow> 'k \<Rightarrow> int \<times> 'k"
  sys_listen :: "int \<Rightarrow> int \<Rightarrow> 'k \<Rightarrow> int \<times> 'k"
  sys_accept :: "int \<Rightarrow> 'k \<Rightarrow> (int \<times> bool) \<times> 'k"
  sys_recvfrom :: "int \<Rightarrow> 'k \<Rightarrow> ipv4 \<times> 'k"
  sys_connect :: "int \<Rightarrow> ipv4 \<Rightarrow> 'k \<Rightarrow> int \<times> 'k"
  sys_getfl :: "int \<Rightarrow> 'k \<Rightarrow> int \<times> 'k"
  sys_setfl :: "int \<Rightarrow> int \<Rightarrow> 'k \<Rightarrow> int \<times> 'k"
  sys_close :: "int \<Rightarrow> 'k \<Rightarrow> 'k"

text \<open>
  The effect of the calls on the open descriptors: \<open>socket\<close> and a successful
  \<open>accept\<close> open a new one, \<open>close\<close> closes its argument, the others change none.
  The boolean of \<open>accept\<close> says that it failed with \<open>EINTR\<close>. Descriptors are small
  enough to be doubled in an \<open>int\<close>.
\<close>

definition kernel_ok :: "'k sysops \<Rightarrow> ('k \<Rightarrow> int set) \<Rightarrow> bool" where
  "kernel_ok os fds \<longleftrightarrow>
     (\<forall>d t k fd k'. sys_socket os d t k = (fd, k') \<longrightarrow>
        (fd = -1 \<and> fds k' = fds k) \<or> (0 \<le> fd \<and> fd < 2 ^ 30 \<and> fd \<notin> fds k \<and> fds k' = insert fd (fds k))) \<and>
     (\<forall>fd l ov v k r k'. sys_setsockopt os fd l ov v k = (r, k') \<longrightarrow> fds k' = fds k) \<and>
     (\<forall>fd a k r k'. sys_bind os fd a k = (r, k') \<longrightarrow> fds k' = fds k) \<and>
     (\<forall>fd b k r k'. sys_listen os fd b k = (r, k') \<longrightarrow> fds k' = fds k) \<and>
     (\<forall>l k fd e k'. sys_accept os l k = ((fd, e), k') \<longrightarrow>
        (fd = -1 \<and> fds k' = fds k) \<or> (0 \<le> fd \<and> fd < 2 ^ 30 \<and> fd \<notin> fds k \<and> fds k' = insert fd (fds k))) \<and>
     (\<forall>fd k r k'. sys_recvfrom os fd k = (r, k') \<longrightarrow> fds k' = fds k) \<and>
     (\<forall>fd a k r k'. sys_connect os fd a k = (r, k') \<longrightarrow> fds k' = fds k) \<and>
     (\<forall>fd k r k'. sys_getfl os fd k = (r, k') \<longrightarrow> fds k' = fds k) \<and>
     (\<forall>fd f k r k'. sys_setfl os fd f k = (r, k') \<longrightarrow> fds k' = fds k) \<and>
     (\<forall>fd k. fds (sys_close os fd k) = fds k - {fd})"

section \<open>Socket objects\<close>

datatype sock_kind = TCP | UDP

(* src/src/server/socket.h:39-81, Socket *)
record sock =
  sk_kind :: sock_kind
  sk_fd :: int
  sk_local :: ipv4

(* src/src/server/socket.h:64-69, Socket::Option *)
datatype sock_opt = OPT_RCVBUF | OPT_SNDBUF | OPT_NODELAY | OPT_REUSEADDR

text \<open>
  \<open>translate_option\<close> leaves level and option unset for the buffer sizes and still
  reports success; unset values are the arguments \<open>jl\<close> and \<open>jo\<close>.
\<close>

(* src/src/server/socket.cpp:116-135, Socket::translate_option *)
fun translate_option :: "int \<Rightarrow> int \<Rightarrow> sock_opt \<Rightarrow> int \<times> int \<times> int" where
  "translate_option jl jo OPT_REUSEADDR = (SOCKET_OK, 1, 2)"
| "translate_option jl jo OPT_NODELAY = (SOCKET_OK, 6, 1)"
| "translate_option jl jo OPT_RCVBUF = (SOCKET_OK, jl, jo)"
| "translate_option jl jo OPT_SNDBUF = (SOCKET_OK, jl, jo)"

(* src/src/server/socket.cpp:82-97, Socket::set_option *)
definition set_option_fd :: "'k sysops \<Rightarrow> int \<Rightarrow> int \<Rightarrow> int \<Rightarrow> sock_opt \<Rightarrow> int \<Rightarrow> 'k \<Rightarrow> int \<times> 'k" where
  "set_option_fd os jl jo fd opt val k =
     (case translate_option jl jo opt of (r, slevel, sopt) \<Rightarrow>
        if r = -1 then (SOCKET_ERR, k)
        else case sys_setsockopt os fd slevel sopt val k of (r, k) \<Rightarrow>
          if r = -1 then (SOCKET_ERR, k) else (SOCKET_OK, k))"

(* src/src/server/socket.cpp:99-114, Socket::set_option *)
definition set_option :: "'k sysops \<Rightarrow> int \<Rightarrow> int \<Rightarrow> sock \<Rightarrow> sock_opt \<Rightarrow> int \<Rightarrow> 'k \<Rightarrow> int \<times> 'k" where
  "set_option os jl jo s opt val k =
     (case translate_option jl jo opt of (r, slevel, sopt) \<Rightarrow>
        if r = -1 then (SOCKET_ERR, k)
        else case sys_setsockopt os (sk_fd s) slevel sopt val k of (r, k) \<Rightarrow>
          if r = -1 then (SOCKET_ERR, k) else (SOCKET_OK, k))"

(* src/src/server/socket.cpp:34-57, Socket::create_bind *)
definition create_bind :: "'k sysops \<Rightarrow> sock \<Rightarrow> int \<Rightarrow> int \<Rightarrow> 'k \<Rightarrow> int \<times> sock \<times> 'k" where
  "create_bind os s family type k =
     (case sys_socket os family (type OR 2048) k of (fd, k) \<Rightarrow>
        let s = s\<lparr>sk_fd := fd\<rparr> in
        if fd = -1 then (SOCKET_ERR, s, k)
        else case set_option os 0 0 s OPT_REUSEADDR 1 k of (_, k) \<Rightarrow>
          case sys_bind os fd (sk_local s) k of (r, k) \<Rightarrow>
            if r = -1 then (SOCKET_ERR, s, sys_close os fd k) else (SOCKET_OK, s, k))"

(* src/src/server/socket.cpp:59-80, Socket::create_bind2 *)
definition create_bind2 :: "'k sysops \<Rightarrow> sock \<Rightarrow> int \<Rightarrow> int \<Rightarrow> 'k \<Rightarrow> int \<times> 'k" where
  "create_bind2 os s family type k =
     (case sys_socket os family (type OR 2048) k of (fd, k) \<Rightarrow>
        if fd = -1 then (SOCKET_ERR, k)
        else case set_option_fd os 0 0 fd OPT_REUSEADDR 1 k of (_, k) \<Rightarrow>
          case sys_bind os fd (sk_local s) k of (r, k) \<Rightarrow>
            if r = -1 then (SOCKET_ERR, sys_close os fd k) else (fd, k))"

(* src/src/server/socket.cpp:137-156, Socket::set_noblock *)
definition set_noblock :: "'k sysops \<Rightarrow> sock \<Rightarrow> 'k \<Rightarrow> int \<times> 'k" where
  "set_noblock os s k =
     (case sys_getfl os (sk_fd s) k of (flags, k) \<Rightarrow>
        if flags = -1 then (SOCKET_ERR, k)
        else case sys_setfl os (sk_fd s) (flags OR 2048) k of (r, k) \<Rightarrow>
          if r = -1 then (SOCKET_ERR, k) else (SOCKET_OK, k))"

text \<open>The backlog argument is ignored: the source passes 4095.\<close>

(* src/src/server/tcp_socket.cpp:35-43, TCPSocket::listen *)
definition tcp_listen :: "'k sysops \<Rightarrow> sock \<Rightarrow> int \<Rightarrow> 'k \<Rightarrow> int \<times> 'k" where
  "tcp_listen os s backlog k =
     (case sys_listen os (sk_fd s) 4095 k of (r, k) \<Rightarrow>
        if r = -1 then (SOCKET_ERR, sys_close os (sk_fd s) k) else (SOCKET_OK, k))"

(* src/src/server/tcp_socket.cpp:45-60, TCPSocket::accept *)
partial_function (option) tcp_accept :: "'k sysops \<Rightarrow> sock \<Rightarrow> 'k \<Rightarrow> (int \<times> 'k) option" where
  "tcp_accept os s k =
     (case sys_accept os (sk_fd s) k of ((a_s, intr), k) \<Rightarrow>
        if a_s = -1 then (if intr then tcp_accept os s k else Some (SOCKET_ERR, k))
        else Some (a_s, k))"

(* src/src/server/udp_socket.cpp:54-60, UDPSocket::connect *)
definition udp_connect :: "'k sysops \<Rightarrow> int \<Rightarrow> ipv4 \<Rightarrow> 'k \<Rightarrow> int \<times> 'k" where
  "udp_connect os fd sa k =
     (case sys_connect os fd sa k of (r, k) \<Rightarrow> if r = -1 then (SOCKET_ERR, k) else (SOCKET_OK, k))"

text \<open>
  The datagram \<open>recvfrom\<close> takes off the listening socket goes into a local buffer
  and is lost; its result is unsigned, so the error test never fires. The result
  of \<open>connect\<close> is ignored.
\<close>

(* src/src/server/udp_socket.cpp:37-52, UDPSocket::accept *)
definition udp_accept :: "'k sysops \<Rightarrow> sock \<Rightarrow> 'k \<Rightarrow> int \<times> 'k" where
  "udp_accept os s k =
     (case sys_recvfrom os (sk_fd s) k of (sa, k) \<Rightarrow>
        case create_bind2 os s 2 2 k of (fd, k) \<Rightarrow>
          case udp_connect os fd sa k of (_, k) \<Rightarrow> (fd, k))"

section \<open>The socket table\<close>

text \<open>
  \<open>if (fd >= v.size()) v.resize(fd*2, NULL); v[fd] = x;\<close> as it stands in the
  network manager and in the worker. A store past the end and an overflow of
  \<open>fd*2\<close> are undefined behaviour.
\<close>

(* src/src/server/network_manager.cpp:103-105, NetworkManager::wrap_socket *)
definition fd_put :: "'a option list \<Rightarrow> int \<Rightarrow> 'a \<Rightarrow> 'a option list option" where
  "fd_put v fd x =
     (if fd < 0 \<or> length v \<le> nat fd \<and> 2 ^ 30 \<le> fd then None
      else let v = (if length v \<le> nat fd then resize v (nat fd * 2) None else v)
           in poke v (nat fd) (Some x))"

(* src/src/server/network_manager.h:36-61, NetworkManager *)
record netman =
  nm_sockets :: "sock option list"
  nm_listen :: int

(* src/src/server/network_manager.cpp:25-28, NetworkManager::NetworkManager *)
definition netman_new :: netman where
  "netman_new = \<lparr>nm_sockets = [], nm_listen = -1\<rparr>"

abbreviation (input) G_SERVER_TCP :: int where "G_SERVER_TCP \<equiv> 0"
abbreviation (input) G_SERVER_UDP :: int where "G_SERVER_UDP \<equiv> 1"

text \<open>Registration of a new server socket.\<close>

(* src/src/server/network_manager.cpp:64-71, NetworkManager::create_server *)
definition register_server :: "netman \<Rightarrow> sock \<Rightarrow> (sock option \<times> netman) option" where
  "register_server nm s = do {
     v \<leftarrow> fd_put (nm_sockets nm) (sk_fd s) s;
     Some (Some s, nm\<lparr>nm_sockets := v, nm_listen := sk_fd s\<rparr>) }"

text \<open>
  A server type other than the two leaves the socket pointer null, which the
  source dereferences.
\<close>

(* src/src/server/network_manager.cpp:40-72, NetworkManager::create_server *)
definition nm_create_server :: "'k sysops \<Rightarrow> netman \<Rightarrow> int \<Rightarrow> string \<Rightarrow> nat \<Rightarrow> int \<Rightarrow> 'k \<Rightarrow> ((sock option \<times> netman) \<times> 'k) option" where
  "nm_create_server os nm type ip port junk_fd k =
     (let srv = \<lparr>ip_str = ip, ip_port = port\<rparr> in
      if type = G_SERVER_TCP then
        case create_bind os \<lparr>sk_kind = TCP, sk_fd = junk_fd, sk_local = srv\<rparr> 2 1 k of (r, s, k) \<Rightarrow>
          if r = SOCKET_ERR then Some ((None, nm), k)
          else case tcp_listen os s 1024 k of (_, k) \<Rightarrow>
            (case register_server nm s of None \<Rightarrow> None | Some x \<Rightarrow> Some (x, k))
      else if type = G_SERVER_UDP then
        case create_bind os \<lparr>sk_kind = UDP, sk_fd = junk_fd, sk_local = srv\<rparr> 2 2 k of (r, s, k) \<Rightarrow>
          if r = SOCKET_ERR then Some ((None, nm), k)
          else (case register_server nm s of None \<Rightarrow> None | Some x \<Rightarrow> Some (x, k))
      else None)"

(* src/src/server/network_manager.cpp:89-108, NetworkManager::wrap_socket *)
definition wrap_socket :: "'k sysops \<Rightarrow> netman \<Rightarrow> sock \<Rightarrow> int \<Rightarrow> ipv4 \<Rightarrow> 'k \<Rightarrow> ((sock \<times> netman) \<times> 'k) option" where
  "wrap_socket os nm listen_s fd junk_addr k =
     (let s = \<lparr>sk_kind = sk_kind listen_s, sk_fd = fd, sk_local = junk_addr\<rparr>;
          opt = (case sk_kind listen_s of TCP \<Rightarrow> OPT_NODELAY | UDP \<Rightarrow> OPT_REUSEADDR)
      in case set_option os 0 0 s opt 1 k of (_, k) \<Rightarrow>
         case set_noblock os s k of (_, k) \<Rightarrow> do {
           v \<leftarrow> fd_put (nm_sockets nm) fd s;
           Some ((s, nm\<lparr>nm_sockets := v\<rparr>), k) })"

(* src/src/server/network_manager.cpp:74-87, NetworkManager::generic_accept *)
definition generic_accept :: "'k sysops \<Rightarrow> netman \<Rightarrow> int \<Rightarrow> ipv4 \<Rightarrow> 'k \<Rightarrow> ((sock option \<times> netman) \<times> 'k) option" where
  "generic_accept os nm listen_fd junk_addr k =
     (if listen_fd < 0 then None
      else do {
        slot \<leftarrow> peek (nm_sockets nm) (nat listen_fd);
        s \<leftarrow> slot;
        (fd, k) \<leftarrow> (case sk_kind s of TCP \<Rightarrow> tcp_accept os s k | UDP \<Rightarrow> Some (udp_accept os s k));
        if fd = -1 then Some ((None, nm), k)
        else do { ((s', nm), k) \<leftarrow> wrap_socket os nm s fd junk_addr k; Some ((Some s', nm), k) } })"

(* src/src/server/network_manager.cpp:30-38, NetworkManager::~NetworkManager *)
definition netman_destroy :: "'k sysops \<Rightarrow> netman \<Rightarrow> 'k \<Rightarrow> (netman \<times> 'k) option" where
  "netman_destroy os nm k =
     (if nm_listen nm \<noteq> -1 then do {
        _ \<leftarrow> peek (nm_sockets nm) (nat (nm_listen nm));
        Some (nm\<lparr>nm_sockets := []\<rparr>, sys_close os (nm_listen nm) k) }
      else Some (nm\<lparr>nm_sockets := []\<rparr>, k))"

section \<open>Laws\<close>

lemma fd_put_ok:
  assumes "0 < fd \<or> (fd = 0 \<and> v \<noteq> [])" "fd < 2 ^ 30"
  shows "\<exists>v'. fd_put v fd x = Some v' \<and> nat fd < length v' \<and> v' ! nat fd = Some x \<and>
    (\<forall>i < length v'. i \<noteq> nat fd \<longrightarrow> v' ! i = (if i < length v then v ! i else None)) \<and> length v \<le> length v' \<and>
    length v' \<le> max (length v) (2 ^ 31)"
proof (cases "length v \<le> nat fd")
  case True
  then have "0 < fd" using assms by auto
  then show ?thesis using True assms(2) by (auto simp: fd_put_def)
next
  case False
  then show ?thesis using assms by (auto simp: fd_put_def)
qed

text \<open>The clauses of \<open>kernel_ok\<close> as rules.\<close>

lemma kernel_socket: "kernel_ok os fds \<Longrightarrow> sys_socket os d t k = (fd, k') \<Longrightarrow> (fd = -1 \<and> fds k' = fds k) \<or> (0 \<le> fd \<and> fd < 2 ^ 30 \<and> fd \<notin> fds k \<and> fds k' = insert fd (fds k))"
  by (drule kernel_ok_def [THEN iffD1, THEN conjunct1, rule_format])

lemma kernel_setsockopt: "kernel_ok os fds \<Longrightarrow> sys_setsockopt os fd l ov v k = (r, k') \<Longrightarrow> fds k' = fds k"
  by (drule kernel_ok_def [THEN iffD1, THEN conjunct2, THEN conjunct1, rule_format])

lemma kernel_bind: "kernel_ok os fds \<Longrightarrow> sys_bind os fd a k = (r, k') \<Longrightarrow> fds k' = fds k"
  by (drule kernel_ok_def [THEN iffD1, THEN conjunct2, THEN conjunct2, THEN conjunct1, rule_format])

lemma kernel_listen: "kernel_ok os fds \<Longrightarrow> sys_listen os fd b k = (r, k') \<Longrightarrow> fds k' = fds k"
  by (drule kernel_ok_def [THEN iffD1, THEN conjunct2, THEN conjunct2, THEN conjunct2, THEN conjunct1, rule_format])

lemma kernel_accept: "kernel_ok os fds \<Longrightarrow> sys_accept os l k = ((fd, e), k') \<Longrightarrow> (fd = -1 \<and> fds k' = fds k) \<or> (0 \<le> fd \<and> fd < 2 ^ 30 \<and> fd \<notin> fds k \<and> fds k' = insert fd (fds k))"
  by (drule kernel_ok_def [THEN iffD1, THEN conjunct2, THEN conjunct2, THEN conjunct2, THEN conjunct2, THEN conjunct1, rule_format])

lemma kernel_recvfrom: "kernel_ok os fds \<Longrightarrow> sys_recvfrom os fd k = (x, k') \<Longrightarrow> fds k' = fds k"
  by (drule kernel_ok_def [THEN iffD1, THEN conjunct2, THEN conjunct2, THEN conjunct2, THEN conjunct2, THEN conjunct2, THEN conjunct1, rule_format])

lemma kernel_connect: "kernel_ok os fds \<Longrightarrow> sys_connect os fd a k = (r, k') \<Longrightarrow> fds k' = fds k"
  by (drule kernel_ok_def [THEN iffD1, THEN conjunct2, THEN conjunct2, THEN conjunct2, THEN conjunct2, THEN conjunct2, THEN conjunct2, THEN conjunct1, rule_format])

lemma kernel_getfl: "kernel_ok os fds \<Longrightarrow> sys_getfl os fd k = (r, k') \<Longrightarrow> fds k' = fds k"
  by (drule kernel_ok_def [THEN iffD1, THEN conjunct2, THEN conjunct2, THEN conjunct2, THEN conjunct2, THEN conjunct2, THEN conjunct2, THEN conjunct2, THEN conjunct1, rule_format])

lemma kernel_setfl: "kernel_ok os fds \<Longrightarrow> sys_setfl os fd f k = (r, k') \<Longrightarrow> fds k' = fds k"
  by (drule kernel_ok_def [THEN iffD1, THEN conjunct2, THEN conjunct2, THEN conjunct2, THEN conjunct2, THEN conjunct2, THEN conjunct2, THEN conjunct2, THEN conjunct2, THEN conjunct1, rule_format])

lemma kernel_close: "kernel_ok os fds \<Longrightarrow> fds (sys_close os fd k) = fds k - {fd}"
  by (drule kernel_ok_def [THEN iffD1, THEN conjunct2, THEN conjunct2, THEN conjunct2, THEN conjunct2, THEN conjunct2, THEN conjunct2, THEN conjunct2, THEN conjunct2, THEN conjunct2, rule_format])

lemma set_option_fds:
  assumes "kernel_ok os fds" "set_option os jl jo s opt v k = (r, k')"
  shows "fds k' = fds k"
proof -
  obtain t l ov where t: "translate_option jl jo opt = (t, l, ov)" by (metis prod_cases3)
  obtain r1 k1 where 1: "sys_setsockopt os (sk_fd s) l ov v k = (r1, k1)" by (metis surj_pair)
  have "k' = k \<or> k' = k1" using assms(2) unfolding set_option_def t by (simp add: 1 split: if_splits)
  then show ?thesis using kernel_setsockopt [OF assms(1) 1] by (elim disjE) simp_all
qed

lemma set_noblock_fds:
  assumes "kernel_ok os fds" "set_noblock os s k = (r, k')"
  shows "fds k' = fds k"
proof -
  obtain f k1 where 1: "sys_getfl os (sk_fd s) k = (f, k1)" by (metis surj_pair)
  obtain r2 k2 where 2: "sys_setfl os (sk_fd s) (f OR 2048) k1 = (r2, k2)" by (metis surj_pair)
  have "k' = k1 \<or> k' = k2" using assms(2) by (simp add: set_noblock_def 1 2 split: if_splits)
  then show ?thesis using kernel_getfl [OF assms(1) 1] kernel_setfl [OF assms(1) 2] by (elim disjE) simp_all
qed

lemma create_bind_fds:
  assumes "kernel_ok os fds" "create_bind os s d t k = (r, s', k')"
  shows "(r = SOCKET_ERR \<and> fds k' = fds k) \<or>
    (r = SOCKET_OK \<and> 0 \<le> sk_fd s' \<and> sk_fd s' < 2 ^ 30 \<and> sk_fd s' \<notin> fds k \<and> fds k' = insert (sk_fd s') (fds k) \<and> sk_kind s' = sk_kind s)"
proof -
  obtain fd k1 where 1: "sys_socket os d (t OR 2048) k = (fd, k1)" by (metis surj_pair)
  obtain r2 k2 where 2: "set_option os 0 0 (s\<lparr>sk_fd := fd\<rparr>) OPT_REUSEADDR 1 k1 = (r2, k2)" by (metis surj_pair)
  obtain r3 k3 where 3: "sys_bind os fd (sk_local s) k2 = (r3, k3)" by (metis surj_pair)
  have f: "fds k2 = fds k1" "fds k3 = fds k2"
    using set_option_fds [OF assms(1) 2] kernel_bind [OF assms(1) 3] by simp_all
  have run: "(r, s', k') = (if fd = -1 then (SOCKET_ERR, s\<lparr>sk_fd := fd\<rparr>, k1)
      else if r3 = -1 then (SOCKET_ERR, s\<lparr>sk_fd := fd\<rparr>, sys_close os fd k3) else (SOCKET_OK, s\<lparr>sk_fd := fd\<rparr>, k3))"
    using assms(2) unfolding create_bind_def 1 Let_def prod.case by (cases "fd = -1") (auto simp: 2 3)
  show ?thesis
  proof (cases "fd = -1")
    case True
    then show ?thesis using run kernel_socket [OF assms(1) 1] by simp
  next
    case False
    then have "0 \<le> fd" "fd < 2 ^ 30" "fd \<notin> fds k" "fds k3 = insert fd (fds k)"
      using kernel_socket [OF assms(1) 1] f by simp_all
    then show ?thesis using run False by (cases "r3 = -1") (simp_all add: kernel_close [OF assms(1)])
  qed
qed

lemma tcp_listen_fds:
  assumes "kernel_ok os fds" "tcp_listen os s b k = (r, k')"
  shows "(r = SOCKET_ERR \<and> fds k' = fds k - {sk_fd s}) \<or> (r = SOCKET_OK \<and> fds k' = fds k)"
proof -
  obtain r1 k1 where 1: "sys_listen os (sk_fd s) 4095 k = (r1, k1)" by (cases "sys_listen os (sk_fd s) 4095 k")
  have run: "(if r1 = -1 then (SOCKET_ERR, sys_close os (sk_fd s) k1) else (SOCKET_OK, k1)) = (r, k')"
    using assms(2) unfolding tcp_listen_def 1 prod.case .
  have "fds k1 = fds k" by (rule kernel_listen [OF assms(1) 1])
  then show ?thesis using run kernel_close [OF assms(1), of "sk_fd s" k1] by (cases "r1 = -1") auto
qed

lemma register_server_ok:
  assumes "0 < sk_fd s" "sk_fd s < 2 ^ 30"
  shows "\<exists>nm'. register_server nm s = Some (Some s, nm') \<and> nm_listen nm' = sk_fd s \<and>
    nat (sk_fd s) < length (nm_sockets nm') \<and> nm_sockets nm' ! nat (sk_fd s) = Some s"
proof -
  obtain v where "fd_put (nm_sockets nm) (sk_fd s) s = Some v" "nat (sk_fd s) < length v" "v ! nat (sk_fd s) = Some s"
    using fd_put_ok [OF disjI1 [OF assms(1)] assms(2), of "nm_sockets nm" s] by blast
  then show ?thesis by (simp add: register_server_def)
qed

lemma wrap_socket_ok:
  assumes "kernel_ok os fds" "0 < fd" "fd < 2 ^ 30"
  shows "\<exists>s nm' k'. wrap_socket os nm l fd a k = Some ((s, nm'), k') \<and> sk_fd s = fd \<and> sk_kind s = sk_kind l \<and>
    nm_sockets nm' ! nat fd = Some s \<and> nat fd < length (nm_sockets nm') \<and> nm_listen nm' = nm_listen nm \<and>
    (\<forall>i < length (nm_sockets nm'). i \<noteq> nat fd \<longrightarrow>
       nm_sockets nm' ! i = (if i < length (nm_sockets nm) then nm_sockets nm ! i else None)) \<and> fds k' = fds k"
proof -
  let ?s = "\<lparr>sk_kind = sk_kind l, sk_fd = fd, sk_local = a\<rparr>"
  let ?opt = "case sk_kind l of TCP \<Rightarrow> OPT_NODELAY | UDP \<Rightarrow> OPT_REUSEADDR"
  obtain r1 k1 where 1: "set_option os 0 0 ?s ?opt 1 k = (r1, k1)" by (metis surj_pair)
  obtain r2 k2 where 2: "set_noblock os ?s k1 = (r2, k2)" by (metis surj_pair)
  obtain v where v: "fd_put (nm_sockets nm) fd ?s = Some v" "nat fd < length v" "v ! nat fd = Some ?s"
      "\<forall>i < length v. i \<noteq> nat fd \<longrightarrow> v ! i = (if i < length (nm_sockets nm) then nm_sockets nm ! i else None)"
    using fd_put_ok [OF disjI1 [OF assms(2)] assms(3), of "nm_sockets nm" ?s] by blast
  have "fds k2 = fds k" using set_option_fds [OF assms(1) 1] set_noblock_fds [OF assms(1) 2] by simp
  moreover have "wrap_socket os nm l fd a k = Some ((?s, nm\<lparr>nm_sockets := v\<rparr>), k2)"
    unfolding wrap_socket_def Let_def 1 prod.case 2 v(1) by simp
  ultimately show ?thesis using v(2-4) by (intro exI [of _ ?s] exI [of _ "nm\<lparr>nm_sockets := v\<rparr>"] exI [of _ k2] conjI) simp_all
qed

section \<open>Properties\<close>


text \<open>A small kernel: the next descriptor to hand out and the open ones.\<close>

definition demo_os :: "(int \<times> int list) sysops" where
  "demo_os = \<lparr>sys_socket = (\<lambda>_ _ (n, l). (if n \<in> set l \<or> n < 0 \<or> 1000 < n then (-1, (n, l)) else (n, (n + 1, n # l)))),
     sys_setsockopt = (\<lambda>_ _ _ _ k. (0, k)), sys_bind = (\<lambda>_ _ k. (0, k)), sys_listen = (\<lambda>_ _ k. (-1, k)),
     sys_accept = (\<lambda>_ (n, l). if n \<in> set l \<or> n < 0 \<or> 1000 < n then ((-1, False), (n, l)) else ((n, False), (n + 1, n # l))),
     sys_recvfrom = (\<lambda>_ k. (\<lparr>ip_str = [], ip_port = 0\<rparr>, k)), sys_connect = (\<lambda>_ _ k. (0, k)),
     sys_getfl = (\<lambda>_ k. (0, k)), sys_setfl = (\<lambda>_ _ k. (0, k)),
     sys_close = (\<lambda>fd (n, l). (n, filter (\<lambda>x. x \<noteq> fd) l))\<rparr>"

lemma demo_os_ok: "kernel_ok demo_os (\<lambda>(n, l). set l)"
  unfolding kernel_ok_def demo_os_def by (auto split: if_splits)


text \<open>
  \<open>create_server\<close> ignores the result of \<open>listen\<close>. When \<open>listen\<close> fails for a TCP
  server the descriptor has been closed again, yet \<open>create_server\<close> returns the
  socket and registers the closed descriptor as the listening one.
\<close>

lemma create_server_ignores_listen:
  assumes "kernel_ok os fds" and "\<forall>fd b k. fst (sys_listen os fd b k) = -1" and "0 \<in> fds k"
    and "nm_create_server os nm G_SERVER_TCP ip port j k = Some ((Some s, nm'), k')"
  shows "nm_listen nm' = sk_fd s \<and> sk_fd s \<notin> fds k' \<and> fds k' = fds k"
proof -
  let ?s0 = "\<lparr>sk_kind = TCP, sk_fd = j, sk_local = \<lparr>ip_str = ip, ip_port = port\<rparr>\<rparr>"
  obtain r1 s1 k1 where 1: "create_bind os ?s0 2 1 k = (r1, s1, k1)" by (metis prod_cases3)
  obtain r2 k2 where 2: "tcp_listen os s1 1024 k1 = (r2, k2)" by (metis surj_pair)
  note c = create_bind_fds [OF assms(1) 1]
  have ok: "r1 \<noteq> SOCKET_ERR"
  proof
    assume "r1 = SOCKET_ERR"
    then show False using assms(4) 1 by (simp add: nm_create_server_def)
  qed
  then have c': "sk_fd s1 \<notin> fds k" "fds k1 = insert (sk_fd s1) (fds k)" "0 \<le> sk_fd s1" "sk_fd s1 < 2 ^ 30" using c by auto
  then have s1: "0 < sk_fd s1" "sk_fd s1 \<notin> fds k" "fds k1 = insert (sk_fd s1) (fds k)"
    using assms(3) by (cases "sk_fd s1 = 0"; simp)+
  obtain r3 k3 where 3: "sys_listen os (sk_fd s1) 4095 k1 = (r3, k3)" by (metis surj_pair)
  then have "r3 = -1" using assms(2) [rule_format, of "sk_fd s1" 4095 k1] by simp
  then have "r2 = SOCKET_ERR" using 2 3 by (simp add: tcp_listen_def)
  then have k2: "fds k2 = fds k" using tcp_listen_fds [OF assms(1) 2] s1 by auto
  obtain nm1 where nm1: "register_server nm s1 = Some (Some s1, nm1)" "nm_listen nm1 = sk_fd s1"
    using register_server_ok [OF s1(1) c'(4)] by blast
  then have "s = s1" "nm' = nm1" "k' = k2"
    using assms(4) 1 2 ok by (simp_all add: nm_create_server_def)
  then show ?thesis using nm1 k2 s1 by simp
qed

end
