(* ===== verification/Connections.thy ===== *)
theory Connections
  imports Sds Event_Loop Sockets
begin

text \<open>
  The connections of \<open>src/server/connection.cpp\<close>, \<open>tcp_connection.cpp\<close> and
  \<open>udp_connection.cpp\<close>: the receive state machine of a TCP connection and the
  list of replies to be written. The two classes share one record; its kind is
  that of the socket. A reply is the bytes its \<open>Slice\<close> refers to.
  \<open>Connection::read\<close> and \<open>Connection::write\<close> call the socket and have no
  \<open>return\<close>; the model takes the value of that call as their result.
\<close>

section \<open>State and operations\<close>

(* src/src/server/connection.h:39-68, Connection *)
record conn =
  c_sock :: sock
  c_last :: int
  c_watcher :: "ev_io option"
  c_timer :: "timer_watcher option"
  c_buf :: sds
  c_reply_n :: int
  c_replies :: "string list"
  c_state :: int
  c_expected :: int
  c_processed :: int
  c_written :: int

abbreviation c_fd :: "conn \<Rightarrow> int" where
  "c_fd c \<equiv> sk_fd (c_sock c)"

text \<open>
  The members the constructors do not set are arguments. A \<open>NULL\<close> from
  \<open>sdsempty\<close> is kept by the source and would be dereferenced later; it is \<open>None\<close>
  here.
\<close>

(* src/src/server/connection.cpp:22-32, Connection::Connection *)
definition connection_new :: "allocator \<Rightarrow> sock \<Rightarrow> int \<Rightarrow> int \<Rightarrow> int \<Rightarrow> int \<Rightarrow> int \<Rightarrow> conn option" where
  "connection_new a s last0 state0 expected0 processed0 written0 =
     (case sdsempty a of
        Some (Some b) \<Rightarrow> Some \<lparr>c_sock = s, c_last = last0, c_watcher = None, c_timer = None, c_buf = b,
          c_reply_n = 0, c_replies = [], c_state = state0, c_expected = expected0, c_processed = processed0,
          c_written = written0\<rparr>
      | _ \<Rightarrow> None)"

(* src/src/server/tcp_connection.cpp:24-31, TCPConnection::TCPConnection *)
definition tcp_connection_new :: "allocator \<Rightarrow> sock \<Rightarrow> int \<Rightarrow> conn option" where
  "tcp_connection_new a s last0 = connection_new a s last0 0 1 0 0"

(* src/src/server/udp_connection.cpp:22-25, UDPConnection::UDPConnection *)
definition udp_connection_new :: "allocator \<Rightarrow> sock \<Rightarrow> int \<Rightarrow> conn option" where
  "udp_connection_new a s last0 = connection_new a s last0 0 0 0 0"

text \<open>The replies whose memory the destructor releases: all of a TCP connection, none of a UDP one.\<close>

(* src/src/server/tcp_connection.cpp:33-41, TCPConnection::~TCPConnection *)
definition conn_freed_replies :: "conn \<Rightarrow> string list" where
  "conn_freed_replies c = (case sk_kind (c_sock c) of TCP \<Rightarrow> c_replies c | UDP \<Rightarrow> [])"

(* src/src/server/tcp_connection.cpp:43-47, TCPConnection::reset *)
definition conn_reset :: "conn \<Rightarrow> int \<Rightarrow> int \<Rightarrow> conn" where
  "conn_reset c state n = c\<lparr>c_processed := 0, c_state := state, c_expected := n\<rparr>"

(* src/src/server/tcp_connection.cpp:49-53, TCPConnection::expect_next *)
definition expect_next :: "conn \<Rightarrow> int \<Rightarrow> int \<Rightarrow> conn" where
  "expect_next c state n =
     c\<lparr>c_processed := u64 (c_processed c + c_expected c), c_state := state, c_expected := n\<rparr>"

(* src/src/server/tcp_connection.cpp:55-63, TCPConnection::shrink_processed *)
definition shrink_processed :: "conn \<Rightarrow> int \<Rightarrow> int \<Rightarrow> conn option" where
  "shrink_processed c state n = do {
     b \<leftarrow> sdsrange (c_buf c) (s32 (u64 (c_processed c + c_expected c))) (-1);
     Some (c\<lparr>c_buf := b, c_processed := 0, c_state := state, c_expected := n\<rparr>) }"

section \<open>The invariant\<close>

text \<open>
  A connection is well formed when its buffer is, the reply counter counts and
  has not overflowed, no reply is longer than an \<open>int\<close> can count, the
  write position is inside the first reply, the watcher is legal and for its
  descriptor, and a connection with replies to write is watched for writing.
\<close>

fun written_ok :: "int \<Rightarrow> string list \<Rightarrow> bool" where
  "written_ok n [] \<longleftrightarrow> n = 0"
| "written_ok n (r # rs) \<longleftrightarrow> 0 \<le> n \<and> n \<le> int (length r)"

definition watching :: "int \<Rightarrow> bool \<Rightarrow> ev_io option \<Rightarrow> bool" where
  "watching fd out io \<longleftrightarrow> (\<exists>w. io = Some w \<and> watch_ok w \<and> io_active w \<and> io_fd w = fd \<and>
     bit (interest w) 0 \<and> (out \<longrightarrow> bit (interest w) 1))"

definition replies_fit :: "conn \<Rightarrow> bool" where
  "replies_fit c \<longleftrightarrow> length (c_replies c) < 2 ^ 31 \<and> (\<forall>r \<in> set (c_replies c). length r < 2 ^ 31)"

definition conn_ok :: "conn \<Rightarrow> bool" where
  "conn_ok c \<longleftrightarrow> 0 \<le> c_fd c \<and> sds_ok (c_buf c) \<and> c_reply_n c = int (length (c_replies c)) \<and> replies_fit c \<and>
     written_ok (c_written c) (c_replies c) \<and> watching (c_fd c) (c_replies c \<noteq> []) (c_watcher c) \<and>
     c_timer c \<noteq> None"

text \<open>The bytes a connection still has to write.\<close>

definition pending_out :: "conn \<Rightarrow> string" where
  "pending_out c = drop (nat (c_written c)) (concat (c_replies c))"

lemma conn_reset_sel [simp]:
  "c_sock (conn_reset c st n) = c_sock c" "c_buf (conn_reset c st n) = c_buf c" "c_replies (conn_reset c st n) = c_replies c"
  "c_written (conn_reset c st n) = c_written c" "c_state (conn_reset c st n) = st" "c_expected (conn_reset c st n) = n"
  "c_processed (conn_reset c st n) = 0" "pending_out (conn_reset c st n) = pending_out c"
  by (simp_all add: conn_reset_def pending_out_def)

lemma expect_next_sel [simp]:
  "c_sock (expect_next c st n) = c_sock c" "c_buf (expect_next c st n) = c_buf c" "c_replies (expect_next c st n) = c_replies c"
  "c_written (expect_next c st n) = c_written c" "c_state (expect_next c st n) = st" "c_expected (expect_next c st n) = n"
  "c_processed (expect_next c st n) = u64 (c_processed c + c_expected c)" "pending_out (expect_next c st n) = pending_out c"
  by (simp_all add: expect_next_def pending_out_def)

lemma conn_reset_ok [simp]: "conn_ok (conn_reset c st n) = conn_ok c"
  by (simp add: conn_ok_def replies_fit_def conn_reset_def)

lemma expect_next_ok [simp]: "conn_ok (expect_next c st n) = conn_ok c"
  by (simp add: conn_ok_def replies_fit_def expect_next_def)

lemma conn_ok_buf: "conn_ok c \<Longrightarrow> sds_ok (c_buf c)"
  by (simp add: conn_ok_def replies_fit_def)

lemma conn_ok_fd: "conn_ok c \<Longrightarrow> 0 \<le> c_fd c"
  by (simp add: conn_ok_def)

lemma conn_ok_set_buf: "conn_ok c \<Longrightarrow> sds_ok b \<Longrightarrow> conn_ok (c\<lparr>c_buf := b\<rparr>)"
  by (simp add: conn_ok_def replies_fit_def)

lemma conn_ok_set_last [simp]: "conn_ok (c\<lparr>c_last := t\<rparr>) = conn_ok c"
  by (simp add: conn_ok_def replies_fit_def)

text \<open>
  \<open>shrink_processed\<close> drops exactly the bytes processed so far, also when that is
  the whole buffer.
\<close>

lemma shrink_processed_ok:
  assumes "conn_ok c" "0 \<le> c_processed c" "0 \<le> c_expected c"
    "c_processed c + c_expected c \<le> int (length (sds_val (c_buf c)))"
  shows "\<exists>c'. shrink_processed c st n = Some c' \<and> conn_ok c' \<and> c_sock c' = c_sock c \<and> c_replies c' = c_replies c \<and>
    c_written c' = c_written c \<and> c_state c' = st \<and> c_expected c' = n \<and> c_processed c' = 0 \<and>
    sds_val (c_buf c') = drop (nat (c_processed c + c_expected c)) (sds_val (c_buf c))"
proof -
  let ?v = "sds_val (c_buf c)" and ?p = "c_processed c + c_expected c"
  have b: "sds_ok (c_buf c)" using assms(1) by (rule conn_ok_buf)
  have lim: "length ?v < 2 ^ 31" using b by (auto simp: sds_ok_def length_sds_val nat_less_iff)
  then have p: "s32 (u64 ?p) = ?p" "0 \<le> ?p" "?p < 2 ^ 31" using assms by simp_all
  obtain b' where b': "sdsrange (c_buf c) ?p (-1) = Some b'" "sds_ok b'" "sds_val b' = range_spec ?v ?p (-1)"
    using sdsrange_ok [OF b, of ?p "-1"] p by auto
  have "range_spec ?v ?p (-1) = drop (nat ?p) ?v"
  proof (cases "?v = []")
    case False
    then have "min (max 0 (int (length ?v) + - 1)) (int (length ?v) - 1) - ?p + 1 = int (length ?v) - ?p"
      by (simp add: Suc_le_eq)
    then show ?thesis using p(2) by (simp add: range_spec_def index_spec_def Let_def nat_diff_distrib)
  qed (simp add: range_spec_def)
  then show ?thesis using b' p(1) assms(1) by (auto simp: shrink_processed_def conn_ok_def replies_fit_def)
qed

end
