(* ===== verification/Worker.thy ===== *)
theory Worker
  imports Connections Lockfree_Queue
begin

text \<open>
  The worker thread of \<open>src/server/worker.cpp\<close>: the table of connections, the
  callbacks for readable and writable descriptors, replies, timeouts, and the
  messages from the dispatcher.

  The request handler \<open>process_io_buffer\<close> is a virtual function: it is an argument
  \<open>pio\<close> that maps the worker's user state and a connection to a result code and
  their new values. It works on its own connection. The results of system calls
  and the current time are arguments of the callbacks. \<open>w_closed\<close> records the
  descriptors passed to \<open>close\<close>, \<open>w_pipe\<close> the messages in the notification pipe,
  whose four-byte writes are atomic.
\<close>

section \<open>State\<close>

(* src/src/server/server.h:47-63, GenericServerOptions *)
record server_opts =
  so_ip :: "string option"
  so_port :: int
  so_worker_num :: int
  so_server_type :: int
  so_bind_cpu :: bool
  so_connection_timeout :: int
  so_tick :: int
  so_max_io_buffer_size :: int
  so_max_reply_list_size :: int
  so_ssl_open :: int

(* src/src/server/server.cpp:65-78, GenericServerOptions::GenericServerOptions *)
definition server_opts_default :: server_opts where
  "server_opts_default = \<lparr>so_ip = None, so_port = 0, so_worker_num = 8, so_server_type = 0, so_bind_cpu = True,
     so_connection_timeout = 60 * 1000 * 1000, so_tick = 1000, so_max_io_buffer_size = 10 * 1024 * 1024,
     so_max_reply_list_size = 1024, so_ssl_open = 0\<rparr>"

abbreviation (input) WORKER_OK :: int where "WORKER_OK \<equiv> 0"
abbreviation (input) WORKER_ERROR :: int where "WORKER_ERROR \<equiv> -1"

(* src/src/server/worker.h:38-123, GenericWorker *)
record 'u worker =
  w_conns :: "conn option list"
  w_mq :: "sock lfq"
  w_user :: 'u
  w_opts :: server_opts
  w_pipe :: "int list"
  w_closed :: "int list"
  w_running :: bool
  w_pipe_watcher :: "ev_io option"
  w_cron_timer :: "timer_watcher option"
  w_recv_fd :: int
  w_send_fd :: int
  w_cpu :: int
  w_id :: string
  w_thread_name :: string
  w_thread_id :: "nat option"

(* src/src/server/worker.cpp:25-25, INITIAL_FD_NUM *)
definition INITIAL_FD_NUM :: nat where
  "INITIAL_FD_NUM = 1024"

text \<open>
  The values the constructors of worker, watcher and timer leave unset.
\<close>

record unset =
  un_last :: int
  un_fd :: int
  un_events :: int
  un_at :: int
  un_repeat :: int

(* src/src/server/worker.cpp:107-119, GenericWorker::GenericWorker *)
definition worker_new :: "unset \<Rightarrow> server_opts \<Rightarrow> string \<Rightarrow> sock \<Rightarrow> 'u \<Rightarrow> 'u worker" where
  "worker_new un opts name dummy u = \<lparr>w_conns = resize [] INITIAL_FD_NUM None, w_mq = lfq_new dummy, w_user = u, w_opts = opts,
     w_pipe = [], w_closed = [], w_running = False, w_pipe_watcher = None, w_cron_timer = None,
     w_recv_fd = un_fd un, w_send_fd = un_fd un, w_cpu = -1, w_id = '''',
     w_thread_name = name, w_thread_id = None\<rparr>"

text \<open>\<open>p\<close> is the outcome of \<open>pipe\<close>: its two ends, or nothing when it fails.\<close>

(* src/src/server/worker.cpp:126-149, GenericWorker::initialize *)
definition worker_initialize :: "unset \<Rightarrow> int \<Rightarrow> (int \<times> int) option \<Rightarrow> 'u worker \<Rightarrow> (int \<times> 'u worker) option" where
  "worker_initialize un now p w =
     (case p of
        None \<Rightarrow> Some (WORKER_ERROR, w)
      | Some (rfd, sfd) \<Rightarrow> do {
          io \<leftarrow> start_io_event (create_io_event (un_fd un) (un_events un)) rfd READ;
          let t = tw_start now (create_timer True (un_at un) (un_repeat un)) (so_tick (w_opts w));
          Some (WORKER_OK, w\<lparr>w_recv_fd := rfd, w_send_fd := sfd, w_pipe_watcher := Some io, w_cron_timer := Some t\<rparr>) })"

(* src/src/server/worker.cpp:436-438, GenericWorker::run *)
definition worker_run :: "'u worker \<Rightarrow> 'u worker" where
  "worker_run w = w\<lparr>w_running := True\<rparr>"

(* src/src/server/worker.cpp:407-410, GenericWorker::set_worker_id *)
definition set_worker_id :: "string \<Rightarrow> 'u worker \<Rightarrow> 'u worker" where
  "set_worker_id i w = w\<lparr>w_id := i\<rparr>"

(* src/src/server/worker.h:66-66, GenericWorker::set_cpu_id *)
definition set_cpu_id :: "int \<Rightarrow> 'u worker \<Rightarrow> 'u worker" where
  "set_cpu_id i w = w\<lparr>w_cpu := i\<rparr>"

text \<open>\<open>aff\<close> is what \<open>pthread_setaffinity_np\<close> returns for a set of processors.\<close>

(* src/src/server/worker.cpp:27-43, setaffinity_np *)
definition setaffinity_np :: "(int set \<Rightarrow> int) \<Rightarrow> int list \<Rightarrow> bool" where
  "setaffinity_np aff cpus = (if aff (set (filter (\<lambda>i. 0 \<le> i \<and> i < 1024) cpus)) \<noteq> 0 then False else True)"

(* src/src/server/worker.cpp:480-492, GenericWorker::bind_cpu *)
definition bind_cpu :: "(int set \<Rightarrow> int) \<Rightarrow> 'u worker \<Rightarrow> bool" where
  "bind_cpu aff w = (if w_cpu w = -1 then False else if \<not> setaffinity_np aff [w_cpu w] then False else True)"

section \<open>Connections\<close>

(* src/src/server/worker.cpp:319-321, GenericWorker::disable_events *)
definition disable_events :: "conn \<Rightarrow> int \<Rightarrow> conn option" where
  "disable_events c events = do {
     w \<leftarrow> c_watcher c; w' \<leftarrow> stop_io_event w (c_fd c) events; Some (c\<lparr>c_watcher := Some w'\<rparr>) }"

(* src/src/server/worker.cpp:323-325, GenericWorker::enable_events *)
definition enable_events :: "conn \<Rightarrow> int \<Rightarrow> conn option" where
  "enable_events c events = do {
     w \<leftarrow> c_watcher c; w' \<leftarrow> start_io_event w (c_fd c) events; Some (c\<lparr>c_watcher := Some w'\<rparr>) }"

(* src/src/server/worker.cpp:327-329, GenericWorker::start_timer *)
definition start_timer :: "server_opts \<Rightarrow> int \<Rightarrow> conn \<Rightarrow> conn option" where
  "start_timer opts mn_now c = do {
     t \<leftarrow> c_timer c; Some (c\<lparr>c_timer := Some (tw_start mn_now t (so_tick opts))\<rparr>) }"

(* src/src/server/worker.cpp:221-235, GenericWorker::add_reply *)
definition add_reply :: "conn \<Rightarrow> string \<Rightarrow> (int \<times> conn) option" where
  "add_reply c reply =
     (let c = c\<lparr>c_replies := c_replies c @ [reply], c_reply_n := s32 (c_reply_n c + 1)\<rparr>
      in do { c \<leftarrow> enable_events c WRITE; Some (c_reply_n c, c) })"

(* src/src/server/worker.cpp:237-239, GenericWorker::reply_list_size *)
definition reply_list_size :: "conn \<Rightarrow> int" where
  "reply_list_size c = c_reply_n c"

(* src/src/server/worker.cpp:331-368, GenericWorker::create_connection *)
definition create_connection :: "allocator \<Rightarrow> unset \<Rightarrow> int \<Rightarrow> 'u worker \<Rightarrow> sock option \<Rightarrow> (conn option \<times> 'u worker) option" where
  "create_connection a un now w s =
     (case s of None \<Rightarrow> Some (None, w)
      | Some s \<Rightarrow>
          if sk_fd s = -1 then Some (None, w)
          else do {
            c \<leftarrow> (case sk_kind s of TCP \<Rightarrow> tcp_connection_new a s (un_last un)
                                 | UDP \<Rightarrow> udp_connection_new a s (un_last un));
            let c = c\<lparr>c_last := now, c_watcher := Some (create_io_event (un_fd un) (un_events un)),
                      c_timer := Some (create_timer True (un_at un) (un_repeat un))\<rparr>;
            c \<leftarrow> (if so_ssl_open (w_opts w) \<noteq> 0 then enable_events c (READ OR WRITE) else enable_events c READ);
            c \<leftarrow> start_timer (w_opts w) now c;
            v \<leftarrow> fd_put (w_conns w) (sk_fd s) c;
            Some (Some c, w\<lparr>w_conns := v\<rparr>) })"

text \<open>
  The hooks before and after the removal do nothing by default, and no private
  data is set.
\<close>

(* src/src/server/worker.cpp:385-398, GenericWorker::remove_conn *)
definition remove_conn :: "'u worker \<Rightarrow> conn \<Rightarrow> 'u worker option" where
  "remove_conn w c =
     (if c_watcher c = None \<or> c_timer c = None \<or> c_fd c < 0 then None
      else do { v \<leftarrow> (if nat (c_fd c) < length (w_conns w) then Some ((w_conns w)[nat (c_fd c) := None]) else None);
                Some (w\<lparr>w_conns := v\<rparr>) })"

(* src/src/server/worker.cpp:370-375, GenericWorker::close_conn *)
definition close_conn :: "'u worker \<Rightarrow> conn \<Rightarrow> 'u worker option" where
  "close_conn w c = do { w \<leftarrow> remove_conn w c; Some (w\<lparr>w_closed := w_closed w @ [c_fd c]\<rparr>) }"

(* src/src/server/worker.cpp:422-425, GenericWorker::stop *)
fun close_from :: "nat list \<Rightarrow> 'u worker \<Rightarrow> 'u worker option" where
  "close_from [] w = Some w"
| "close_from (i # is) w =
     (case w_conns w ! i of
        Some c \<Rightarrow> do { w \<leftarrow> close_conn w c; close_from is w }
      | None \<Rightarrow> close_from is w)"

(* src/src/server/worker.cpp:377-383, GenericWorker::close_all_conns *)
definition close_all_conns :: "'u worker \<Rightarrow> 'u worker option" where
  "close_all_conns w = close_from [0..<length (w_conns w)] w"

(* src/src/server/worker.cpp:121-124, GenericWorker::~GenericWorker *)
definition worker_destroy :: "'u worker \<Rightarrow> 'u worker option" where
  "worker_destroy w = close_all_conns w"

text \<open>The cron timer and the pipe watcher are deleted; both must exist.\<close>

(* src/src/server/worker.cpp:416-426, GenericWorker::stop *)
definition worker_stop :: "'u worker \<Rightarrow> 'u worker option" where
  "worker_stop w = do {
     _ \<leftarrow> w_cron_timer w;
     _ \<leftarrow> w_pipe_watcher w;
     let w = w\<lparr>w_closed := w_closed w @ [w_recv_fd w, w_send_fd w], w_running := False\<rparr>;
     close_from [0..<length (w_conns w)] w }"

(* src/src/server/worker.cpp:473-478, GenericWorker::process_timeout *)
definition process_timeout :: "int \<Rightarrow> 'u worker \<Rightarrow> conn \<Rightarrow> 'u worker option" where
  "process_timeout now w c =
     (if so_connection_timeout (w_opts w) < u64 (now - c_last c) then close_conn w c else Some w)"

(* src/src/server/worker.cpp:403-405, GenericWorker::get_clients_count *)
definition get_clients_count :: "'u worker \<Rightarrow> int" where
  "get_clients_count w = s32 (int (length (w_conns w)))"

section \<open>Reading\<close>

type_synonym 'u handler = "'u \<Rightarrow> conn \<Rightarrow> (int \<times> conn \<times> 'u) option"

definition put_conn :: "'u worker \<Rightarrow> conn \<Rightarrow> 'u worker" where
  "put_conn w c = w\<lparr>w_conns := (w_conns w)[nat (c_fd c) := Some c]\<rparr>"

text \<open>
  What a readable TCP connection does, up to the table: whether it is to be
  closed, and the connection and user state. The request handler runs at most
  once, and only if the expected bytes are there.
\<close>

(* src/src/server/worker.cpp:180-205, GenericWorker::tcp_read_io *)
definition tcp_read_conn :: "allocator \<Rightarrow> 'u handler \<Rightarrow> int \<Rightarrow> os_read \<Rightarrow> 'u \<Rightarrow> conn \<Rightarrow> (bool \<times> conn \<times> 'u) option" where
  "tcp_read_conn a pio now rd u c =
     (let rlen = s32 (c_expected c); iblen = sdslen (c_buf c) in do {
        b \<leftarrow> sdsMakeRoomFor a (c_buf c) (u64 rlen);
        buf \<leftarrow> store_at (sds_buf b) (nat iblen) (read_bytes rd);
        let r = socket_read rd;
        let c = c\<lparr>c_buf := b\<lparr>sds_buf := buf\<rparr>\<rparr>;
        if r = SOCKET_ERR then Some (True, c, u)
        else if r = SOCKET_PEER_CLOSED then Some (True, c, u)
        else do {
          b \<leftarrow> (if 0 < r then sdsIncrLen (c_buf c) r else Some (c_buf c));
          let c = c\<lparr>c_buf := b, c_last := now\<rparr>;
          if c_expected c \<le> u64 (sdslen (c_buf c) - c_processed c) then do {
            (ret, c, u) \<leftarrow> pio u c;
            Some (ret \<noteq> WORKER_OK, c, u) }
          else Some (False, c, u) } })"

(* src/src/server/worker.cpp:179-206, GenericWorker::tcp_read_io *)
definition tcp_read_io :: "allocator \<Rightarrow> 'u handler \<Rightarrow> int \<Rightarrow> os_read \<Rightarrow> 'u worker \<Rightarrow> conn \<Rightarrow> 'u worker option" where
  "tcp_read_io a pio now rd w c = do {
     (closing, c, u) \<leftarrow> tcp_read_conn a pio now rd (w_user w) c;
     let w = w\<lparr>w_user := u\<rparr>;
     if closing then close_conn w c else Some (put_conn w c) }"

text \<open>
  A datagram is read to the start of the buffer whatever it holds, and the result
  of the handler is ignored.
\<close>

(* src/src/server/worker.cpp:208-219, GenericWorker::udp_read_io *)
definition udp_read_io :: "allocator \<Rightarrow> 'u handler \<Rightarrow> int \<Rightarrow> os_read \<Rightarrow> 'u worker \<Rightarrow> conn \<Rightarrow> 'u worker option" where
  "udp_read_io a pio now rd w c = do {
     b \<leftarrow> sdsMakeRoomFor a (c_buf c) 1024;
     buf \<leftarrow> store_at (sds_buf b) 0 (read_bytes rd);
     let b = b\<lparr>sds_buf := buf\<rparr>;
     b \<leftarrow> (if 0 < socket_read rd then sdsIncrLen b (socket_read rd) else Some b);
     (_, c, u) \<leftarrow> pio (w_user w) (c\<lparr>c_buf := b, c_last := now\<rparr>);
     Some (put_conn (w\<lparr>w_user := u\<rparr>) c) }"

(* src/src/server/worker.cpp:155-177, GenericWorker::read_io *)
definition read_io :: "allocator \<Rightarrow> 'u handler \<Rightarrow> int \<Rightarrow> os_read \<Rightarrow> 'u worker \<Rightarrow> int \<Rightarrow> 'u worker option" where
  "read_io a pio now rd w fd =
     (if fd = -1 then Some w
      else if u64 (int (length (w_conns w))) \<le> u64 fd then Some w
      else case w_conns w ! nat fd of
             None \<Rightarrow> Some w
           | Some c \<Rightarrow> (case sk_kind (c_sock c) of TCP \<Rightarrow> tcp_read_io a pio now rd w c
                                                | UDP \<Rightarrow> udp_read_io a pio now rd w c))"

section \<open>Writing\<close>

text \<open>
  \<open>wr i n\<close> is the outcome of the \<open>i\<close>-th call of \<open>write\<close> in this callback, asked to
  write \<open>n\<close> bytes. The loop returns how it ended, the connection and the bytes
  handed to the kernel.
\<close>

datatype wr_end = WrDone | WrBlocked | WrFailed

(* src/src/server/worker.cpp:275-294, GenericWorker::tcp_write_io *)
partial_function (option) tcp_write_loop :: "(nat \<Rightarrow> nat \<Rightarrow> os_write) \<Rightarrow> nat \<Rightarrow> conn \<Rightarrow> string \<Rightarrow> (wr_end \<times> conn \<times> string) option" where
  "tcp_write_loop wr i c out =
     (case c_replies c of
        [] \<Rightarrow> Some (WrDone, c, out)
      | reply # rest \<Rightarrow>
          (let want = nat (u64 (int (length reply) - c_written c));
               w = socket_write (wr i want)
           in if w = SOCKET_ERR then Some (WrFailed, c, out)
              else if w = 0 then Some (WrBlocked, c, out)
              else let out = out @ take (nat w) (drop (nat (c_written c)) reply)
                in if u64 (w + c_written c) = int (length reply) then
                     tcp_write_loop wr (Suc i) (c\<lparr>c_replies := rest, c_reply_n := s32 (c_reply_n c - 1), c_written := 0\<rparr>) out
                   else tcp_write_loop wr (Suc i) (c\<lparr>c_written := u64 (c_written c + w)\<rparr>) out))"

(* src/src/server/worker.cpp:272-300, GenericWorker::tcp_write_io *)
definition tcp_write_io :: "(nat \<Rightarrow> nat \<Rightarrow> os_write) \<Rightarrow> int \<Rightarrow> 'u worker \<Rightarrow> conn \<Rightarrow> ('u worker \<times> string) option" where
  "tcp_write_io wr now w c = do {
     (e, c, out) \<leftarrow> tcp_write_loop wr 0 c [];
     case e of
       WrFailed \<Rightarrow> do { w \<leftarrow> close_conn w c; Some (w, out) }
     | WrBlocked \<Rightarrow> Some (put_conn w c, out)
     | WrDone \<Rightarrow> do { c \<leftarrow> disable_events (c\<lparr>c_last := now\<rparr>) WRITE; Some (put_conn w c, out) } }"

(* src/src/server/worker.cpp:303-311, GenericWorker::udp_write_io *)
partial_function (option) udp_write_loop :: "(nat \<Rightarrow> nat \<Rightarrow> os_write) \<Rightarrow> nat \<Rightarrow> conn \<Rightarrow> string list \<Rightarrow> (conn \<times> string list) option" where
  "udp_write_loop wr i c out =
     (case c_replies c of
        [] \<Rightarrow> Some (c, out)
      | reply # rest \<Rightarrow>
          if u64 (socket_write (wr i (length reply))) = int (length reply) then
            udp_write_loop wr (Suc i) (c\<lparr>c_replies := rest, c_reply_n := s32 (c_reply_n c - 1)\<rparr>) (out @ [reply])
          else udp_write_loop wr (Suc i) c out)"

(* src/src/server/worker.cpp:302-317, GenericWorker::udp_write_io *)
definition udp_write_io :: "(nat \<Rightarrow> nat \<Rightarrow> os_write) \<Rightarrow> int \<Rightarrow> 'u worker \<Rightarrow> conn \<Rightarrow> ('u worker \<times> string list) option" where
  "udp_write_io wr now w c = do {
     (c, out) \<leftarrow> udp_write_loop wr 0 c [];
     c \<leftarrow> disable_events (c\<lparr>c_last := now\<rparr>) WRITE;
     Some (put_conn w c, out) }"

text \<open>
  \<open>socks\<close> is the socket table of the network manager, indexed without a bounds
  check. The result pairs the worker with the bytes written.
\<close>

(* src/src/server/worker.cpp:241-270, GenericWorker::write_io *)
definition write_io :: "sock option list \<Rightarrow> (nat \<Rightarrow> nat \<Rightarrow> os_write) \<Rightarrow> int \<Rightarrow> 'u worker \<Rightarrow> int \<Rightarrow> ('u worker \<times> string) option" where
  "write_io socks wr now w fd =
     (if fd = -1 then Some (w, [])
      else if u64 (int (length (w_conns w))) \<le> u64 fd then Some (w, [])
      else do {
        s \<leftarrow> peek socks (nat fd);
        case s of
          None \<Rightarrow> Some (w, [])
        | Some _ \<Rightarrow>
            (case w_conns w ! nat fd of
               None \<Rightarrow> Some (w, [])
             | Some c \<Rightarrow> (case sk_kind (c_sock c) of
                   TCP \<Rightarrow> tcp_write_io wr now w c
                 | UDP \<Rightarrow> do { (w, out) \<leftarrow> udp_write_io wr now w c; Some (w, concat out) })) })"

(* src/src/server/worker.cpp:67-82, conn_io_cb *)
definition conn_io_cb :: "allocator \<Rightarrow> 'u handler \<Rightarrow> sock option list \<Rightarrow> int \<Rightarrow> os_read \<Rightarrow> (nat \<Rightarrow> nat \<Rightarrow> os_write) \<Rightarrow>
    'u worker \<Rightarrow> int \<Rightarrow> int \<Rightarrow> ('u worker \<times> string) option" where
  "conn_io_cb a pio socks now rd wr w fd revents = do {
     w \<leftarrow> (if revents AND READ \<noteq> 0 then read_io a pio now rd w fd else Some w);
     if revents AND WRITE \<noteq> 0 then write_io socks wr now w fd else Some (w, []) }"

section \<open>Messages from the dispatcher\<close>

(* src/src/server/worker.cpp:428-430, GenericWorker::mq_push *)
definition mq_push :: "sock \<Rightarrow> 'u worker \<Rightarrow> 'u worker option" where
  "mq_push s w = do { q \<leftarrow> lfq_produce s (w_mq w); Some (w\<lparr>w_mq := q\<rparr>) }"

(* src/src/server/worker.cpp:432-434, GenericWorker::mq_pop *)
definition mq_pop :: "'u worker \<Rightarrow> (sock option \<times> 'u worker) option" where
  "mq_pop w = do { (s, q) \<leftarrow> lfq_consume (w_mq w); Some (s, w\<lparr>w_mq := q\<rparr>) }"

text \<open>\<open>wr\<close> is the outcome of the write of four bytes to the pipe.\<close>

(* src/src/server/worker.cpp:440-451, GenericWorker::notify *)
definition worker_notify :: "os_write \<Rightarrow> int \<Rightarrow> 'u worker \<Rightarrow> int \<times> 'u worker" where
  "worker_notify wr msg w =
     (if wr = WrOk 4 then (WORKER_OK, w\<lparr>w_pipe := w_pipe w @ [msg]\<rparr>) else (WORKER_ERROR, w))"

abbreviation (input) QUIT :: int where "QUIT \<equiv> 0"
abbreviation (input) NEW_CONNECTION :: int where "NEW_CONNECTION \<equiv> 1"

(* src/src/server/worker.cpp:453-471, GenericWorker::process_internal_notify *)
definition process_internal_notify :: "allocator \<Rightarrow> unset \<Rightarrow> int \<Rightarrow> int \<Rightarrow> 'u worker \<Rightarrow> 'u worker option" where
  "process_internal_notify a un now msg w =
     (if msg = QUIT then worker_stop w
      else if msg = NEW_CONNECTION then do {
        (s, w) \<leftarrow> mq_pop w;
        case s of None \<Rightarrow> Some w | Some s \<Rightarrow> do { (_, w) \<leftarrow> create_connection a un now w (Some s); Some w } }
      else Some w)"

(* src/src/server/worker.cpp:45-62, recv_notify *)
definition recv_notify :: "allocator \<Rightarrow> unset \<Rightarrow> int \<Rightarrow> 'u worker \<Rightarrow> 'u worker option" where
  "recv_notify a un now w =
     (case w_pipe w of
        [] \<Rightarrow> Some w
      | msg # rest \<Rightarrow> process_internal_notify a un now msg (w\<lparr>w_pipe := rest\<rparr>))"

section \<open>Writing: nothing lost, nothing reordered\<close>

text \<open>The kernel writes at most what it was asked to write.\<close>

definition write_ok :: "(nat \<Rightarrow> nat \<Rightarrow> os_write) \<Rightarrow> bool" where
  "write_ok wr \<longleftrightarrow> (\<forall>i n m. wr i n = WrOk m \<longrightarrow> m \<le> n)"

text \<open>Everything but the three fields of the reply queue.\<close>

definition same_but_queue :: "conn \<Rightarrow> conn \<Rightarrow> bool" where
  "same_but_queue c c' \<longleftrightarrow>
     c' = c\<lparr>c_replies := c_replies c', c_reply_n := c_reply_n c', c_written := c_written c'\<rparr>"

lemma same_but_queue_refl [simp]: "same_but_queue c c"
  by (simp add: same_but_queue_def)

lemma same_but_queue_upd:
  "same_but_queue (c\<lparr>c_replies := rs, c_reply_n := n, c_written := k\<rparr>) c' \<Longrightarrow> same_but_queue c c'"
  by (simp add: same_but_queue_def)

lemma same_but_queue_written:
  "same_but_queue (c\<lparr>c_written := k\<rparr>) c' \<Longrightarrow> same_but_queue c c'"
  by (simp add: same_but_queue_def)

lemma tcp_write_loop_ok:
  assumes "write_ok wr" "replies_fit c" "written_ok (c_written c) (c_replies c)"
    "c_reply_n c = int (length (c_replies c))"
  shows "\<exists>e c' sent. tcp_write_loop wr i c out = Some (e, c', out @ sent) \<and>
    sent @ pending_out c' = pending_out c \<and> written_ok (c_written c') (c_replies c') \<and>
    c_reply_n c' = int (length (c_replies c')) \<and> (e = WrDone \<longleftrightarrow> c_replies c' = []) \<and> same_but_queue c c' \<and>
    replies_fit c'"
  using assms(2-4)
proof (induction "length (c_replies c) + length (pending_out c)" arbitrary: c i out rule: less_induct)
  case less
  show ?case
  proof (cases "c_replies c")
    case Nil
    then show ?thesis using less.prems by (subst tcp_write_loop.simps) (simp add: pending_out_def)
  next
    case (Cons r rest)
    obtain k where k: "c_written c = int k" "k \<le> length r"
      using less.prems(2) Cons by (auto elim: nonneg_int_cases)
    have lr: "length r < 2 ^ 31" "length rest < 2 ^ 31 - 1" using less.prems(1) Cons by (auto simp: replies_fit_def)
    have want: "nat (u64 (int (length r) - c_written c)) = length r - k" using k lr by simp
    have pend: "pending_out c = drop k r @ concat rest" using k Cons by (simp add: pending_out_def)
    show ?thesis
    proof (cases "wr i (length r - k)")
      case WrAgain
      then show ?thesis using Cons less.prems want by (subst tcp_write_loop.simps) (simp add: Let_def)
    next
      case WrErr
      then show ?thesis using Cons less.prems want by (subst tcp_write_loop.simps) (simp add: Let_def)
    next
      case (WrOk m)
      then have m: "k + m \<le> length r" using assms(1) k(2) by (fastforce simp: write_ok_def)
      consider (zero) "m = 0" | (whole) "0 < m" "k + m = length r" | (part) "0 < m" "k + m < length r" using m by linarith
      then show ?thesis
      proof cases
        case zero
        then show ?thesis using WrOk Cons less.prems want by (subst tcp_write_loop.simps) (simp add: Let_def)
      next
        case whole
        let ?c = "c\<lparr>c_replies := rest, c_reply_n := c_reply_n c - 1, c_written := 0\<rparr>"
        have n: "s32 (c_reply_n c - 1) = c_reply_n c - 1" using less.prems(3) Cons lr by simp
        have "\<exists>e c' sent. tcp_write_loop wr (Suc i) ?c (out @ drop k r) = Some (e, c', (out @ drop k r) @ sent) \<and>
          sent @ pending_out c' = pending_out ?c \<and> written_ok (c_written c') (c_replies c') \<and>
          c_reply_n c' = int (length (c_replies c')) \<and> (e = WrDone \<longleftrightarrow> c_replies c' = []) \<and> same_but_queue ?c c' \<and> replies_fit c'"
        proof (intro less.hyps)
          show "length (c_replies ?c) + length (pending_out ?c) < length (c_replies c) + length (pending_out c)"
            using pend Cons by (simp add: pending_out_def [of ?c])
          show "replies_fit ?c" using less.prems(1) Cons by (simp add: replies_fit_def)
          show "written_ok (c_written ?c) (c_replies ?c)" by (cases rest) simp_all
          show "c_reply_n ?c = int (length (c_replies ?c))" using less.prems(3) Cons by simp
        qed
        moreover have "tcp_write_loop wr i c out = tcp_write_loop wr (Suc i) ?c (out @ drop k r)"
          using Cons WrOk whole k n lr want by (subst tcp_write_loop.simps) (simp add: Let_def)
        moreover have "pending_out c = drop k r @ pending_out ?c" using pend by (simp add: pending_out_def)
        ultimately show ?thesis using same_but_queue_upd by fastforce
      next
        case part
        let ?c = "c\<lparr>c_written := int (k + m)\<rparr>"
        have "\<exists>e c' sent. tcp_write_loop wr (Suc i) ?c (out @ take m (drop k r)) = Some (e, c', (out @ take m (drop k r)) @ sent) \<and>
          sent @ pending_out c' = pending_out ?c \<and> written_ok (c_written c') (c_replies c') \<and>
          c_reply_n c' = int (length (c_replies c')) \<and> (e = WrDone \<longleftrightarrow> c_replies c' = []) \<and> same_but_queue ?c c' \<and> replies_fit c'"
        proof (intro less.hyps)
          have "pending_out ?c = drop (k + m) r @ concat rest" using Cons part by (simp add: pending_out_def nat_int_add)
          then show "length (c_replies ?c) + length (pending_out ?c) < length (c_replies c) + length (pending_out c)"
            using pend part Cons by simp
          show "replies_fit ?c" using less.prems(1) by (simp add: replies_fit_def)
          show "written_ok (c_written ?c) (c_replies ?c)" using Cons part by simp
          show "c_reply_n ?c = int (length (c_replies ?c))" using less.prems(3) by simp
        qed
        moreover have "tcp_write_loop wr i c out = tcp_write_loop wr (Suc i) ?c (out @ take m (drop k r))"
          using Cons WrOk part k lr want by (subst tcp_write_loop.simps) (simp add: Let_def)
        moreover have "pending_out c = take m (drop k r) @ pending_out ?c"
        proof -
          have "drop k r = take m (drop k r) @ drop (k + m) r" by (metis append_take_drop_id drop_drop add.commute)
          then show ?thesis using pend part Cons by (simp add: pending_out_def nat_int_add)
        qed
        ultimately show ?thesis using same_but_queue_written by fastforce
      qed
    qed
  qed
qed

section \<open>The table of connections\<close>

text \<open>
  Every entry of the table is a well-formed connection on the descriptor that
  is its index, and the queue from the dispatcher is intact.
\<close>

definition conns_ok :: "conn option list \<Rightarrow> bool" where
  "conns_ok v \<longleftrightarrow> v \<noteq> [] \<and> (\<forall>i c. i < length v \<longrightarrow> v ! i = Some c \<longrightarrow> c_fd c = int i \<and> conn_ok c)"

definition worker_ok :: "'u worker \<Rightarrow> bool" where
  "worker_ok w \<longleftrightarrow> conns_ok (w_conns w) \<and> length (w_conns w) \<le> 2 ^ 31 \<and> (\<exists>q. lfq_rep (w_mq w) q)"

definition slot :: "'u worker \<Rightarrow> int \<Rightarrow> conn option" where
  "slot w fd = (if 0 \<le> fd \<and> nat fd < length (w_conns w) then w_conns w ! nat fd else None)"

text \<open>What I/O on a connection never touches.\<close>

definition same_base :: "'u worker \<Rightarrow> 'u worker \<Rightarrow> bool" where
  "same_base w w' \<longleftrightarrow> w_mq w' = w_mq w \<and> w_pipe_watcher w' = w_pipe_watcher w \<and> w_cron_timer w' = w_cron_timer w \<and>
     w_opts w' = w_opts w \<and> w_pipe w' = w_pipe w \<and> w_running w' = w_running w"

lemma same_base_refl [simp]: "same_base w w"
  by (simp add: same_base_def)

lemma same_base_put [simp]: "same_base w (put_conn w' c) = same_base w w'" "same_base w (w'\<lparr>w_user := u\<rparr>) = same_base w w'"
  by (simp_all add: same_base_def put_conn_def)

lemma conns_okD: "conns_ok v \<Longrightarrow> i < length v \<Longrightarrow> v ! i = Some c \<Longrightarrow> c_fd c = int i \<and> conn_ok c"
  by (simp add: conns_ok_def)

lemma conns_ok_clear: "conns_ok v \<Longrightarrow> conns_ok (v[i := None])"
  by (auto simp: conns_ok_def nth_upd)

lemma conns_ok_set:
  assumes "conns_ok v" "conn_ok c" "nat (c_fd c) = i"
  shows "conns_ok (v[i := Some c])"
  unfolding conns_ok_def
proof (intro conjI allI impI)
  show "v[i := Some c] \<noteq> []" using assms(1) by (simp add: conns_ok_def)
  fix j d assume j: "j < length (v[i := Some c])" "v[i := Some c] ! j = Some d"
  have "j = i \<and> d = c \<or> v ! j = Some d" using j by (simp add: nth_upd split: if_splits)
  moreover have "0 \<le> c_fd c" using assms(2) by (rule conn_ok_fd)
  ultimately show "c_fd d = int j" "conn_ok d" using conns_okD [OF assms(1), of j d] j(1) assms(2,3) by auto
qed

lemma user_frame [simp]: "slot (w\<lparr>w_user := u\<rparr>) fd = slot w fd" "worker_ok (w\<lparr>w_user := u\<rparr>) = worker_ok w"
  by (simp_all add: slot_def worker_ok_def)

lemma slotD:
  assumes "worker_ok w" "slot w fd = Some c"
  shows "0 \<le> fd" "nat fd < length (w_conns w)" "w_conns w ! nat fd = Some c" "c_fd c = fd" "conn_ok c"
proof -
  show 1: "0 \<le> fd" "nat fd < length (w_conns w)" "w_conns w ! nat fd = Some c"
    using assms(2) by (auto simp: slot_def split: if_splits)
  show "c_fd c = fd" "conn_ok c" using conns_okD [OF _ 1(2,3)] assms(1) 1(1) by (auto simp: worker_ok_def)
qed

lemma worker_ok_new: "worker_ok (worker_new un opts nm s u)"
proof -
  have "conns_ok (resize [] INITIAL_FD_NUM None)"
    unfolding conns_ok_def by (simp add: length_greater_0_conv [symmetric] del: length_greater_0_conv) (simp add: INITIAL_FD_NUM_def)
  then show ?thesis using lfq_rep_new [of s] by (auto simp: worker_ok_def worker_new_def INITIAL_FD_NUM_def)
qed

lemma put_conn_ok:
  assumes "worker_ok w" "slot w fd = Some c" "conn_ok c'" "c_sock c' = c_sock c"
  shows "worker_ok (put_conn w c')" "slot (put_conn w c') fd = Some c'"
    "fd' \<noteq> fd \<Longrightarrow> slot (put_conn w c') fd' = slot w fd'"
proof -
  note s = slotD [OF assms(1,2)]
  show "worker_ok (put_conn w c')" using assms s conns_ok_set [of "w_conns w" c'] by (auto simp: worker_ok_def put_conn_def)
  show "slot (put_conn w c') fd = Some c'" using s assms by (simp add: slot_def put_conn_def)
  show "fd' \<noteq> fd \<Longrightarrow> slot (put_conn w c') fd' = slot w fd'"
    using s assms by (auto simp: slot_def put_conn_def nth_upd nat_eq_iff)
qed

lemma close_conn_eq:
  assumes "conn_ok c" "nat (c_fd c) < length (w_conns w)"
  shows "close_conn w c = Some (w\<lparr>w_conns := (w_conns w)[nat (c_fd c) := None], w_closed := w_closed w @ [c_fd c]\<rparr>)"
proof -
  obtain io t where "c_watcher c = Some io" "c_timer c = Some t" "0 \<le> c_fd c"
    using assms(1) by (auto simp: conn_ok_def watching_def)
  then show ?thesis using assms(2) by (simp add: close_conn_def remove_conn_def)
qed

lemma close_conn_ok:
  assumes "worker_ok w" "slot w fd = Some c" "conn_ok c'" "c_sock c' = c_sock c"
  shows "\<exists>w'. close_conn w c' = Some w' \<and> worker_ok w' \<and> slot w' fd = None \<and> w_closed w' = w_closed w @ [fd] \<and>
    (\<forall>fd'. fd' \<noteq> fd \<longrightarrow> slot w' fd' = slot w fd') \<and> same_base w w'"
proof -
  note s = slotD [OF assms(1,2)]
  have "close_conn w c' = Some (w\<lparr>w_conns := (w_conns w)[nat fd := None], w_closed := w_closed w @ [fd]\<rparr>)"
    using close_conn_eq [OF assms(3), of w] assms(4) s by simp
  then show ?thesis using assms(1) s
    by (auto simp: worker_ok_def conns_ok_clear slot_def nth_upd nat_eq_iff same_base_def)
qed

section \<open>Stopping\<close>

lemma close_from_ok:
  assumes "conns_ok (w_conns w)" "distinct is" "\<forall>i \<in> set is. i < length (w_conns w)"
  shows "\<exists>v. close_from is w = Some (w\<lparr>w_conns := v,
      w_closed := w_closed w @ map int (filter (\<lambda>i. w_conns w ! i \<noteq> None) is)\<rparr>) \<and>
    length v = length (w_conns w) \<and> conns_ok v \<and>
    (\<forall>i < length v. v ! i = (if i \<in> set is then None else w_conns w ! i))"
  using assms
proof (induction "is" arbitrary: w)
  case Nil
  then show ?case by (intro exI [of _ "w_conns w"]) simp
next
  case (Cons i "is")
  show ?case
  proof (cases "w_conns w ! i")
    case None
    obtain v where v: "close_from is w = Some (w\<lparr>w_conns := v,
        w_closed := w_closed w @ map int (filter (\<lambda>i. w_conns w ! i \<noteq> None) is)\<rparr>)"
      "length v = length (w_conns w)" "conns_ok v"
      "\<forall>j < length v. v ! j = (if j \<in> set is then None else w_conns w ! j)"
      using Cons.IH [of w] Cons.prems by auto
    then show ?thesis using None by (intro exI [of _ v]) auto
  next
    case (Some c)
    have c: "c_fd c = int i" "conn_ok c" using conns_okD [OF Cons.prems(1) _ Some] Cons.prems(3) by auto
    let ?w = "w\<lparr>w_conns := (w_conns w)[i := None], w_closed := w_closed w @ [int i]\<rparr>"
    have cl: "close_conn w c = Some ?w" using close_conn_eq [OF c(2), of w] c(1) Cons.prems(3) by simp
    have f: "filter (\<lambda>j. w_conns ?w ! j \<noteq> None) is = filter (\<lambda>j. w_conns w ! j \<noteq> None) is"
      using Cons.prems(2) by (intro filter_cong) (auto simp: nth_upd)
    obtain v where v: "close_from is ?w = Some (?w\<lparr>w_conns := v,
        w_closed := w_closed ?w @ map int (filter (\<lambda>j. w_conns ?w ! j \<noteq> None) is)\<rparr>)"
      "length v = length (w_conns ?w)" "conns_ok v"
      "\<forall>j < length v. v ! j = (if j \<in> set is then None else w_conns ?w ! j)"
      using Cons.IH [of ?w] Cons.prems conns_ok_clear by auto
    have "close_from (i # is) w = Some (w\<lparr>w_conns := v,
        w_closed := w_closed w @ map int (filter (\<lambda>j. w_conns w ! j \<noteq> None) (i # is))\<rparr>)"
      unfolding close_from.simps Some option.case cl bind.bind_lunit v(1) f by (simp add: Some)
    then show ?thesis using v Cons.prems(3) by (auto simp: nth_upd)
  qed
qed

text \<open>The descriptors of the open connections, in the order of the table.\<close>

definition open_fds :: "'u worker \<Rightarrow> int list" where
  "open_fds w = map int (filter (\<lambda>i. w_conns w ! i \<noteq> None) [0..<length (w_conns w)])"

lemma close_all_ok:
  assumes "conns_ok (w_conns w)"
  shows "close_from [0..<length (w_conns w)] w =
    Some (w\<lparr>w_conns := replicate (length (w_conns w)) None, w_closed := w_closed w @ open_fds w\<rparr>)"
proof -
  obtain v where v: "close_from [0..<length (w_conns w)] w = Some (w\<lparr>w_conns := v, w_closed := w_closed w @ open_fds w\<rparr>)"
      "length v = length (w_conns w)" "\<forall>i < length v. v ! i = None"
    using close_from_ok [OF assms, of "[0..<length (w_conns w)]"] by (auto simp: open_fds_def)
  then have "v = replicate (length (w_conns w)) None" by (intro nth_equalityI) auto
  then show ?thesis using v(1) by simp
qed

section \<open>Watchers of a connection\<close>

lemma watching_start:
  assumes "io = Some e" "watch_ok e" "io_active e \<longrightarrow> io_fd e = fd" "0 \<le> fd" "take_bit 2 m = m" "m \<noteq> 0"
    "bit (interest e OR m) 0"
  shows "\<exists>e'. start_io_event e fd m = Some e' \<and> watching fd (bit (interest e OR m) 1) (Some e')"
  using start_io_event_ok [OF assms(2,4,5,6,3)] assms(7) by (auto simp: watching_def)

lemma bit_2_1: "bit (2::int) 1" "\<not> bit (2::int) 0" "bit (1::int) 0" "bit (3::int) 0"
  by (simp_all add: bit_0)

lemma enable_write_ok:
  assumes "watching (c_fd c) out (c_watcher c)" "0 \<le> c_fd c"
  shows "\<exists>e. enable_events c WRITE = Some (c\<lparr>c_watcher := Some e\<rparr>) \<and> watching (c_fd c) True (Some e)"
proof -
  obtain e where e: "c_watcher c = Some e" "watch_ok e" "io_active e" "io_fd e = c_fd c" "bit (interest e) 0"
    using assms(1) by (auto simp: watching_def)
  have "bit (interest e OR 2) 0" "bit (interest e OR 2) 1" using e(5) by (simp_all add: bit_or_iff bit_2_int)
  then obtain e' where "start_io_event e (c_fd c) 2 = Some e'" "watching (c_fd c) True (Some e')"
    using watching_start [OF e(1,2) _ assms(2), of 2] e(4) by auto
  then show ?thesis using e(1) by (intro exI [of _ e']) (simp add: enable_events_def)
qed

lemma disable_write_ok:
  assumes "conn_ok c" "c_replies c = []"
  shows "\<exists>e. disable_events c WRITE = Some (c\<lparr>c_watcher := Some e\<rparr>) \<and> conn_ok (c\<lparr>c_watcher := Some e\<rparr>) \<and>
    \<not> bit (interest e) 1"
proof -
  obtain e where e: "c_watcher c = Some e" "watch_ok e" "io_active e" "io_fd e = c_fd c" "bit (interest e) 0"
    using assms(1) by (auto simp: conn_ok_def watching_def)
  obtain e' where e': "stop_io_event e (c_fd c) 2 = Some e'" "watch_ok e'" "io_fd e' = c_fd c"
      "interest e' = interest e AND NOT 2"
    using stop_io_event_ok [OF e(2-4), of 2] by auto
  have b: "bit (interest e') 0" "\<not> bit (interest e') 1" using e'(4) e(5) by (simp_all add: bit_and_iff bit_not_iff bit_2_int)
  then have "io_active e'" by (auto simp: interest_def split: if_splits)
  then show ?thesis using e e' b assms
    by (intro exI [of _ e']) (simp add: disable_events_def conn_ok_def watching_def replies_fit_def)
qed

lemma add_reply_ok:
  assumes "conn_ok c" "Suc (length (c_replies c)) < 2 ^ 31" "length r < 2 ^ 31"
  shows "\<exists>n c' e. add_reply c r = Some (n, c') \<and> conn_ok c' \<and> pending_out c' = pending_out c @ r \<and>
    n = int (length (c_replies c)) + 1 \<and>
    c' = c\<lparr>c_replies := c_replies c @ [r], c_reply_n := n, c_watcher := Some e\<rparr>"
proof -
  let ?n = "int (length (c_replies c)) + 1"
  let ?c = "c\<lparr>c_replies := c_replies c @ [r], c_reply_n := ?n\<rparr>"
  have n: "s32 (c_reply_n c + 1) = ?n" using assms(1,2) by (simp add: conn_ok_def)
  have "watching (c_fd ?c) (c_replies c \<noteq> []) (c_watcher ?c)" "0 \<le> c_fd ?c" using assms(1) by (simp_all add: conn_ok_def)
  then obtain e where e: "enable_events ?c WRITE = Some (?c\<lparr>c_watcher := Some e\<rparr>)" "watching (c_fd ?c) True (Some e)"
    using enable_write_ok [of ?c] by blast
  have w: "written_ok (c_written c) (c_replies c @ [r])" "nat (c_written c) \<le> length (concat (c_replies c))"
    using assms(1) by (cases "c_replies c"; auto simp: conn_ok_def)+
  have "conn_ok (?c\<lparr>c_watcher := Some e\<rparr>)" using assms e(2) w(1) by (auto simp: conn_ok_def replies_fit_def)
  moreover have "add_reply c r = Some (?n, ?c\<lparr>c_watcher := Some e\<rparr>)" unfolding add_reply_def Let_def n e(1) by simp
  moreover have "pending_out (?c\<lparr>c_watcher := Some e\<rparr>) = pending_out c @ r" using w(2) by (simp add: pending_out_def)
  ultimately show ?thesis by blast
qed

section \<open>Writing to a connection of the table\<close>

text \<open>
  What a writable TCP connection does: the bytes handed to the kernel followed
  by the bytes still pending are the bytes that were pending. The connection is
  closed only if a write failed; it is watched for writing exactly as long as
  something is pending.
\<close>

lemma same_but_queue_fields:
  assumes "same_but_queue c c'"
  shows "c_sock c' = c_sock c" "c_buf c' = c_buf c" "c_state c' = c_state c" "c_expected c' = c_expected c"
    "c_processed c' = c_processed c" "c_watcher c' = c_watcher c" "c_timer c' = c_timer c" "c_last c' = c_last c"
  by (subst assms [unfolded same_but_queue_def], simp)+

definition same_input :: "conn \<Rightarrow> conn \<Rightarrow> bool" where
  "same_input c c' \<longleftrightarrow> c_sock c' = c_sock c \<and> c_buf c' = c_buf c \<and> c_state c' = c_state c \<and>
     c_expected c' = c_expected c \<and> c_processed c' = c_processed c"

lemma tcp_write_io_ok:
  assumes "worker_ok w" "slot w fd = Some c" "write_ok wr"
  shows "\<exists>w' sent. tcp_write_io wr now w c = Some (w', sent) \<and> worker_ok w' \<and> same_base w w' \<and>
    (\<forall>fd'. fd' \<noteq> fd \<longrightarrow> slot w' fd' = slot w fd') \<and>
    (case slot w' fd of
       None \<Rightarrow> w_closed w' = w_closed w @ [fd]
     | Some c' \<Rightarrow> w_closed w' = w_closed w \<and> sent @ pending_out c' = pending_out c \<and> same_input c c' \<and>
         (c_replies c' = [] \<longrightarrow> \<not> watching fd True (c_watcher c')))"
proof -
  note s = slotD [OF assms(1,2)]
  have pre: "replies_fit c" "written_ok (c_written c) (c_replies c)" "c_reply_n c = int (length (c_replies c))"
    using s(5) by (simp_all add: conn_ok_def)
  obtain e c1 sent where l: "tcp_write_loop wr 0 c [] = Some (e, c1, [] @ sent)" "sent @ pending_out c1 = pending_out c"
      "written_ok (c_written c1) (c_replies c1)" "c_reply_n c1 = int (length (c_replies c1))"
      "e = WrDone \<longleftrightarrow> c_replies c1 = []" "same_but_queue c c1" "replies_fit c1"
    using tcp_write_loop_ok [OF assms(3) pre] by blast
  note f = same_but_queue_fields [OF l(6)]
  have rep: "c_replies c = [] \<longrightarrow> c_replies c1 = []"
    using l(1) by (subst (asm) tcp_write_loop.simps) auto
  have ok1: "conn_ok c1" using s(5) l f rep by (auto simp: conn_ok_def watching_def)
  show ?thesis
  proof (cases e)
    case WrFailed
    obtain w' where "close_conn w c1 = Some w'" "worker_ok w'" "slot w' fd = None" "w_closed w' = w_closed w @ [fd]"
        "\<forall>fd'. fd' \<noteq> fd \<longrightarrow> slot w' fd' = slot w fd'" "same_base w w'"
      using close_conn_ok [OF assms(1,2) ok1 f(1)] by blast
    then show ?thesis using l(1) WrFailed by (simp add: tcp_write_io_def)
  next
    case WrBlocked
    note p = put_conn_ok [OF assms(1,2) ok1 f(1)]
    have "tcp_write_io wr now w c = Some (put_conn w c1, sent)" using l(1) WrBlocked by (simp add: tcp_write_io_def)
    moreover have "w_closed (put_conn w c1) = w_closed w" by (simp add: put_conn_def)
    ultimately show ?thesis using p l(2,5) f WrBlocked by (auto simp: same_input_def)
  next
    case WrDone
    let ?c = "c1\<lparr>c_last := now\<rparr>"
    have nil: "c_replies ?c = []" "conn_ok ?c" using l(5) WrDone ok1 by simp_all
    obtain io where io: "disable_events ?c WRITE = Some (?c\<lparr>c_watcher := Some io\<rparr>)"
        "conn_ok (?c\<lparr>c_watcher := Some io\<rparr>)" "\<not> bit (interest io) 1"
      using disable_write_ok [OF nil(2,1)] by blast
    note p = put_conn_ok [OF assms(1,2) io(2)]
    have "tcp_write_io wr now w c = Some (put_conn w (?c\<lparr>c_watcher := Some io\<rparr>), sent)"
      using l(1) WrDone io(1) by (simp add: tcp_write_io_def)
    moreover have "w_closed (put_conn w (?c\<lparr>c_watcher := Some io\<rparr>)) = w_closed w" by (simp add: put_conn_def)
    ultimately show ?thesis using p l(2,5) f WrDone io(3)
      by (auto simp: same_input_def pending_out_def watching_def)
  qed
qed

section \<open>New connections\<close>

lemma enable_read_ok:
  assumes "0 \<le> c_fd c" "c_watcher c = Some (create_io_event jf je)" "m = READ \<or> m = (READ OR WRITE)"
  shows "\<exists>e. enable_events c m = Some (c\<lparr>c_watcher := Some e\<rparr>) \<and> watching (c_fd c) False (Some e)"
proof -
  let ?e = "create_io_event jf je"
  have e: "watch_ok ?e" "io_active ?e \<longrightarrow> io_fd ?e = c_fd c" "interest ?e = 0"
    by (simp_all add: create_io_event_def watch_ok_def interest_def)
  have m: "take_bit 2 m = m" "m \<noteq> 0" "bit (interest ?e OR m) 0" using assms(3) e(3) by (auto simp: bit_0)
  obtain e' where "start_io_event ?e (c_fd c) m = Some e'" "watching (c_fd c) (bit (interest ?e OR m) 1) (Some e')"
    using watching_start [OF assms(2) e(1,2) assms(1) m] by blast
  then show ?thesis using assms(2) by (intro exI [of _ e']) (simp add: enable_events_def watching_def)
qed

lemma worker_initialize_ok:
  assumes "0 \<le> rfd"
  shows "\<exists>w'. worker_initialize un now (Some (rfd, sfd)) w = Some (WORKER_OK, w')"
proof -
  let ?e = "create_io_event (un_fd un) (un_events un)"
  have e: "watch_ok ?e" "io_active ?e \<longrightarrow> io_fd ?e = rfd" by (simp_all add: create_io_event_def watch_ok_def)
  obtain io where "start_io_event ?e rfd READ = Some io" using start_io_event_ok [OF e(1) assms _ _ e(2), of READ] by auto
  then show ?thesis by (simp add: worker_initialize_def Let_def)
qed

lemma connection_new_ok:
  assumes "mem_ok a"
  shows "\<exists>b. connection_new a s last0 st0 ex0 pr0 wr0 = Some \<lparr>c_sock = s, c_last = last0, c_watcher = None, c_timer = None,
      c_buf = b, c_reply_n = 0, c_replies = [], c_state = st0, c_expected = ex0, c_processed = pr0, c_written = wr0\<rparr> \<and>
    sds_ok b \<and> sds_val b = []"
  using sdsempty_ok [OF assms] by (auto simp: connection_new_def)

lemma conns_ok_put:
  assumes "conns_ok v" "conn_ok c" "c_fd c < 2 ^ 30"
  shows "\<exists>v'. fd_put v (c_fd c) c = Some v' \<and> conns_ok v' \<and> nat (c_fd c) < length v' \<and> v' ! nat (c_fd c) = Some c \<and>
    (\<forall>i < length v'. i \<noteq> nat (c_fd c) \<longrightarrow> v' ! i = (if i < length v then v ! i else None)) \<and> length v \<le> length v' \<and>
    length v' \<le> max (length v) (2 ^ 31)"
proof -
  have fd: "0 \<le> c_fd c" "v \<noteq> []" using assms by (auto simp: conn_ok_def conns_ok_def)
  then obtain v' where v': "fd_put v (c_fd c) c = Some v'" "nat (c_fd c) < length v'" "v' ! nat (c_fd c) = Some c"
      "\<forall>i < length v'. i \<noteq> nat (c_fd c) \<longrightarrow> v' ! i = (if i < length v then v ! i else None)" "length v \<le> length v'"
      "length v' \<le> max (length v) (2 ^ 31)"
    using fd_put_ok [of "c_fd c" v c] assms(3) by force
  have "c_fd d = int i \<and> conn_ok d" if i: "i < length v'" "v' ! i = Some d" for i d
  proof (cases "i = nat (c_fd c)")
    case True
    then show ?thesis using i v'(3) assms(2) fd by simp
  next
    case False
    then have "v' ! i = (if i < length v then v ! i else None)" using v'(4) i(1) by blast
    then have "i < length v" "v ! i = Some d" using i(2) by (auto split: if_splits)
    then show ?thesis using conns_okD [OF assms(1)] by blast
  qed
  moreover have "v' \<noteq> []" using v'(2) by auto
  ultimately have "conns_ok v'" unfolding conns_ok_def by blast
  then show ?thesis using v' by blast
qed

text \<open>
  A new connection: watched for reading, nothing buffered, nothing to write, and
  for TCP the receive state the constructor sets.
\<close>

definition fresh_conn :: "sock \<Rightarrow> conn \<Rightarrow> bool" where
  "fresh_conn s c \<longleftrightarrow> c_sock c = s \<and> sds_val (c_buf c) = [] \<and> c_replies c = [] \<and> c_written c = 0 \<and> c_processed c = 0 \<and>
     c_state c = 0 \<and> c_expected c = (case sk_kind s of TCP \<Rightarrow> 1 | UDP \<Rightarrow> 0)"

lemma create_connection_ok:
  assumes "mem_ok a" "worker_ok w" "0 \<le> sk_fd s" "sk_fd s < 2 ^ 30"
  shows "\<exists>c w'. create_connection a un now w (Some s) = Some (Some c, w') \<and> worker_ok w' \<and> slot w' (sk_fd s) = Some c \<and>
    fresh_conn s c \<and> (\<forall>fd'. fd' \<noteq> sk_fd s \<longrightarrow> slot w' fd' = slot w fd') \<and> w' = w\<lparr>w_conns := w_conns w'\<rparr>"
proof -
  obtain c0 where c0: "(case sk_kind s of TCP \<Rightarrow> tcp_connection_new a s (un_last un) | UDP \<Rightarrow> udp_connection_new a s (un_last un)) = Some c0"
      "c_reply_n c0 = 0" "sds_ok (c_buf c0)" "fresh_conn s c0"
    using connection_new_ok [OF assms(1)]
    by (cases "sk_kind s") (fastforce simp: tcp_connection_new_def udp_connection_new_def fresh_conn_def)+
  let ?c1 = "c0\<lparr>c_last := now, c_watcher := Some (create_io_event (un_fd un) (un_events un)),
      c_timer := Some (create_timer True (un_at un) (un_repeat un))\<rparr>"
  have cs: "c_sock ?c1 = s" using c0(4) by (simp add: fresh_conn_def)
  obtain e where e: "(if so_ssl_open (w_opts w) \<noteq> 0 then enable_events ?c1 (READ OR WRITE) else enable_events ?c1 READ) =
      Some (?c1\<lparr>c_watcher := Some e\<rparr>)" "watching (sk_fd s) False (Some e)"
    using enable_read_ok [of ?c1 "un_fd un" "un_events un" READ] enable_read_ok [of ?c1 "un_fd un" "un_events un" "READ OR WRITE"]
      assms(3) cs by (cases "so_ssl_open (w_opts w) \<noteq> 0") auto
  let ?c2 = "?c1\<lparr>c_watcher := Some e\<rparr>"
  let ?t = "tw_start now (create_timer True (un_at un) (un_repeat un)) (so_tick (w_opts w))"
  let ?c = "?c2\<lparr>c_timer := Some ?t\<rparr>"
  have t: "start_timer (w_opts w) now ?c2 = Some ?c" by (simp add: start_timer_def)
  have ok: "conn_ok ?c" using c0 e(2) assms(3) by (auto simp: conn_ok_def fresh_conn_def replies_fit_def)
  have fr: "fresh_conn s ?c" using c0(4) by (simp add: fresh_conn_def)
  have fd: "c_fd ?c = sk_fd s" using cs by simp
  obtain v' where v': "fd_put (w_conns w) (c_fd ?c) ?c = Some v'" "conns_ok v'" "nat (c_fd ?c) < length v'"
      "v' ! nat (c_fd ?c) = Some ?c" "length (w_conns w) \<le> length v'" "length v' \<le> max (length (w_conns w)) (2 ^ 31)"
      "\<forall>i < length v'. i \<noteq> nat (c_fd ?c) \<longrightarrow> v' ! i = (if i < length (w_conns w) then w_conns w ! i else None)"
    using conns_ok_put [OF _ ok, of "w_conns w"] assms(2,4) fd unfolding worker_ok_def by fastforce
  let ?w = "w\<lparr>w_conns := v'\<rparr>"
  have "sk_fd s \<noteq> -1" using assms(3) by simp
  then have "create_connection a un now w (Some s) = Some (Some ?c, ?w)"
    unfolding create_connection_def option.case c0(1) using e(1) t v'(1) fd by (simp add: Let_def)
  moreover have "worker_ok ?w" using v'(2,6) assms(2) by (simp add: worker_ok_def)
  moreover have "slot ?w (sk_fd s) = Some ?c" using v'(3,4) fd assms(3) by (simp add: slot_def)
  moreover have "slot ?w fd' = slot w fd'" if "fd' \<noteq> sk_fd s" for fd'
    using that v'(5,7) fd assms(3) by (auto simp: slot_def nat_eq_iff)
  ultimately show ?thesis using fr by (intro exI [of _ ?c] exI [of _ ?w]) simp
qed

section \<open>A kernel that takes bytes\<close>

text \<open>Writing succeeds with at least one byte whenever there is something to write.\<close>

definition write_progress :: "(nat \<Rightarrow> nat \<Rightarrow> os_write) \<Rightarrow> bool" where
  "write_progress wr \<longleftrightarrow> (\<forall>i n. 0 < n \<longrightarrow> (\<exists>m. wr i n = WrOk m \<and> 0 < m \<and> m \<le> n)) \<and> (\<forall>i. wr i 0 = WrOk 0)"

lemma write_progress_ok: "write_progress wr \<Longrightarrow> write_ok wr"
  unfolding write_ok_def write_progress_def by (metis le0 le_zero_eq not_gr_zero os_write.inject)

lemma tcp_write_loop_drains:
  assumes "write_progress wr" "replies_fit c" "written_ok (c_written c) (c_replies c)" "c_reply_n c = int (length (c_replies c))"
    "\<forall>r \<in> set (c_replies c). r \<noteq> []" "c_replies c \<noteq> [] \<longrightarrow> c_written c < int (length (hd (c_replies c)))"
  shows "\<exists>c' sent. tcp_write_loop wr i c out = Some (WrDone, c', sent)"
  using assms(2-6)
proof (induction "length (c_replies c) + length (pending_out c)" arbitrary: c i out rule: less_induct)
  case less
  show ?case
  proof (cases "c_replies c")
    case Nil
    then show ?thesis by (subst tcp_write_loop.simps) simp
  next
    case (Cons r rest)
    obtain k where k: "c_written c = int k" "k < length r"
      using less.prems(2,5) Cons by (auto elim: nonneg_int_cases)
    have lr: "length r < 2 ^ 31" "length rest < 2 ^ 31 - 1" using less.prems(1) Cons by (auto simp: replies_fit_def)
    have want: "nat (u64 (int (length r) - c_written c)) = length r - k" using k lr by simp
    have pend: "pending_out c = drop k r @ concat rest" using k Cons by (simp add: pending_out_def)
    obtain m where m: "wr i (length r - k) = WrOk m" "0 < m" "m \<le> length r - k"
      using assms(1) k(2) unfolding write_progress_def by (metis zero_less_diff)
    show ?thesis
    proof (cases "k + m = length r")
      case True
      let ?c = "c\<lparr>c_replies := rest, c_reply_n := c_reply_n c - 1, c_written := 0\<rparr>"
      have n: "s32 (c_reply_n c - 1) = c_reply_n c - 1" using less.prems(3) Cons lr by simp
      have "\<exists>c' sent. tcp_write_loop wr (Suc i) ?c (out @ drop k r) = Some (WrDone, c', sent)"
      proof (rule less.hyps)
        show "length (c_replies ?c) + length (pending_out ?c) < length (c_replies c) + length (pending_out c)"
          using pend Cons by (simp add: pending_out_def [of ?c])
        show "replies_fit ?c" using less.prems(1) Cons by (simp add: replies_fit_def)
        show "written_ok (c_written ?c) (c_replies ?c)" by (cases rest) simp_all
        show "c_replies ?c \<noteq> [] \<longrightarrow> c_written ?c < int (length (hd (c_replies ?c)))"
          using less.prems(4) Cons by (cases rest) auto
      qed (use less.prems Cons in simp_all)
      moreover have "tcp_write_loop wr i c out = tcp_write_loop wr (Suc i) ?c (out @ drop k r)"
        using Cons m True k n lr want by (subst tcp_write_loop.simps) (simp add: Let_def)
      ultimately show ?thesis by simp
    next
      case False
      let ?c = "c\<lparr>c_written := int (k + m)\<rparr>"
      have "\<exists>c' sent. tcp_write_loop wr (Suc i) ?c (out @ take m (drop k r)) = Some (WrDone, c', sent)"
      proof (rule less.hyps)
        have "pending_out ?c = drop (k + m) r @ concat rest" using Cons m False by (simp add: pending_out_def nat_int_add)
        then show "length (c_replies ?c) + length (pending_out ?c) < length (c_replies c) + length (pending_out c)"
          using pend m k(2) Cons by simp
        show "written_ok (c_written ?c) (c_replies ?c)" using Cons m k(2) by simp
        show "c_replies ?c \<noteq> [] \<longrightarrow> c_written ?c < int (length (hd (c_replies ?c)))" using Cons m k(2) False by simp
      qed (use less.prems Cons in \<open>simp_all add: replies_fit_def\<close>)
      moreover have "tcp_write_loop wr i c out = tcp_write_loop wr (Suc i) ?c (out @ take m (drop k r))"
        using Cons m False k lr want by (subst tcp_write_loop.simps) (simp add: Let_def)
      ultimately show ?thesis by simp
    qed
  qed
qed

text \<open>The write loop of a UDP connection ends only when every datagram went out whole.\<close>

lemma udp_write_loop_stuck:
  assumes "udp_write_loop wr i c out = Some res" "c_replies c = r # rs" "\<forall>i. u64 (socket_write (wr i (length r))) \<noteq> int (length r)"
  shows False
proof -
  have "c_replies c = r # rs \<longrightarrow> (\<forall>i. u64 (socket_write (wr i (length r))) \<noteq> int (length r)) \<longrightarrow> False"
  proof (rule udp_write_loop.raw_induct [OF _ assms(1)])
    fix f wr i c out res
    assume ih: "\<And>wr i c out res. f wr i c out = Some res \<Longrightarrow>
        c_replies c = r # rs \<longrightarrow> (\<forall>i. u64 (socket_write (wr i (length r))) \<noteq> int (length r)) \<longrightarrow> False"
      and eq: "(case c_replies c of [] \<Rightarrow> Some (c, out)
        | reply # rest \<Rightarrow>
            if u64 (socket_write (wr i (length reply))) = int (length reply) then
              f wr (Suc i) (c\<lparr>c_replies := rest, c_reply_n := s32 (c_reply_n c - 1)\<rparr>) (out @ [reply])
            else f wr (Suc i) c out) = Some res"
    show "c_replies c = r # rs \<longrightarrow> (\<forall>i. u64 (socket_write (wr i (length r))) \<noteq> int (length r)) \<longrightarrow> False"
    proof (intro impI)
      assume c: "c_replies c = r # rs" and no: "\<forall>i. u64 (socket_write (wr i (length r))) \<noteq> int (length r)"
      then have "f wr (Suc i) c out = Some res" using eq by simp
      then show False using ih c no by blast
    qed
  qed
  then show ?thesis using assms(2,3) by blast
qed

section \<open>Properties\<close>


definition demo_conn1 :: "string list \<Rightarrow> conn" where
  "demo_conn1 rs = \<lparr>c_sock = \<lparr>sk_kind = TCP, sk_fd = 1, sk_local = \<lparr>ip_str = [], ip_port = 0\<rparr>\<rparr>, c_last = 0,
     c_watcher = Some \<lparr>io_active = True, io_fd = 1, io_events = 3\<rparr>, c_timer = Some (create_timer True 0 0), c_buf = demo_sds,
     c_reply_n = int (length rs), c_replies = rs, c_state = 0, c_expected = 1, c_processed = 0, c_written = 0\<rparr>"

definition demo_table :: "string list \<Rightarrow> unit worker" where
  "demo_table rs = (worker_new \<lparr>un_last = 0, un_fd = 0, un_events = 0, un_at = 0, un_repeat = 0\<rparr> server_opts_default ''w''
     (c_sock (demo_conn1 rs)) ())\<lparr>w_conns := [None, Some (demo_conn1 rs)], w_recv_fd := 5, w_send_fd := 6,
       w_pipe_watcher := Some (create_io_event 0 0), w_cron_timer := Some (create_timer True 0 0)\<rparr>"

lemma demo_conn1_ok: "length rs < 2 ^ 31 \<Longrightarrow> \<forall>r \<in> set rs. length r < 2 ^ 31 \<Longrightarrow> conn_ok (demo_conn1 rs)"
proof -
  have "bit (3::int) 0" "bit (3::int) 1" by (simp_all add: bit_numeral_rec bit_0)
  then have "watching 1 out (Some \<lparr>io_active = True, io_fd = 1, io_events = 3\<rparr>)" for out
    by (simp add: watching_def watch_ok_def interest_def)
  moreover have "written_ok 0 rs" by (cases rs) simp_all
  moreover assume "length rs < 2 ^ 31" "\<forall>r \<in> set rs. length r < 2 ^ 31"
  ultimately show ?thesis using demo_sds_ok by (simp add: conn_ok_def demo_conn1_def replies_fit_def)
qed

lemma demo_table_ok:
  assumes "length rs < 2 ^ 31" "\<forall>r \<in> set rs. length r < 2 ^ 31"
  shows "worker_ok (demo_table rs)" "slot (demo_table rs) 1 = Some (demo_conn1 rs)"
proof -
  have "conns_ok [None, Some (demo_conn1 rs)]"
    using demo_conn1_ok [OF assms] by (auto simp: conns_ok_def less_Suc_eq demo_conn1_def)
  then show "worker_ok (demo_table rs)" using lfq_rep_new [of "c_sock (demo_conn1 rs)"] by (auto simp: worker_ok_def demo_table_def worker_new_def)
  show "slot (demo_table rs) 1 = Some (demo_conn1 rs)" by (simp add: slot_def demo_table_def)
qed


text \<open>
  C23: As long as the kernel takes at least one byte per call and no reply is
  empty, one writable event sends everything that was pending, and the connection
  stays open with no replies left.
\<close>

theorem tcp_write_drains:
  assumes "worker_ok w" and "slot w fd = Some c" and "write_progress wr" and "\<forall>r \<in> set (c_replies c). r \<noteq> []"
    and "c_replies c \<noteq> [] \<longrightarrow> c_written c < int (length (hd (c_replies c)))"
  shows "\<exists>w' c'. tcp_write_io wr now w c = Some (w', pending_out c) \<and> slot w' fd = Some c' \<and> c_replies c' = []"
proof -
  note s = slotD [OF assms(1,2)]
  have pre: "replies_fit c" "written_ok (c_written c) (c_replies c)" "c_reply_n c = int (length (c_replies c))"
    using s(5) by (simp_all add: conn_ok_def)
  obtain w' sent where w': "tcp_write_io wr now w c = Some (w', sent)"
      "case slot w' fd of None \<Rightarrow> w_closed w' = w_closed w @ [fd]
       | Some c' \<Rightarrow> w_closed w' = w_closed w \<and> sent @ pending_out c' = pending_out c \<and> same_input c c' \<and>
           (c_replies c' = [] \<longrightarrow> \<not> watching fd True (c_watcher c'))"
    using tcp_write_io_ok [OF assms(1,2) write_progress_ok [OF assms(3)]] by blast
  obtain c1 out where l: "tcp_write_loop wr 0 c [] = Some (WrDone, c1, out)"
    using tcp_write_loop_drains [OF assms(3) pre assms(4,5)] by blast
  have c1: "c_replies c1 = []" "same_but_queue c c1"
    using tcp_write_loop_ok [OF write_progress_ok [OF assms(3)] pre, of 0 "[]"] l by auto
  obtain c2 where c2: "disable_events (c1\<lparr>c_last := now\<rparr>) WRITE = Some c2" "w' = put_conn w c2"
    using w'(1) l by (auto simp: tcp_write_io_def bind_eq_Some_conv)
  then obtain e where e: "c2 = c1\<lparr>c_last := now, c_watcher := e\<rparr>" by (auto simp: disable_events_def bind_eq_Some_conv)
  have sl: "slot w' fd = Some c2"
    using c2(2) e s same_but_queue_fields(1) [OF c1(2)] by (simp add: slot_def put_conn_def)
  have "sent = pending_out c" using w'(2) sl e c1(1) by (simp add: pending_out_def)
  then show ?thesis using w'(1) sl e c1(1) by auto
qed

theorem tcp_write_drains_witness:
  "\<exists>w' c'. tcp_write_io (\<lambda>_ n. WrOk n) 0 (demo_table [''ab'', ''c'']) (demo_conn1 [''ab'', ''c'']) = Some (w', ''abc'') \<and>
     slot w' 1 = Some c' \<and> c_replies c' = []"
proof -
  let ?rs = "[''ab'', ''c'']"
  have "worker_ok (demo_table ?rs)" "slot (demo_table ?rs) 1 = Some (demo_conn1 ?rs)" using demo_table_ok [of ?rs] by simp_all
  moreover have "write_progress (\<lambda>_ n. WrOk n)" by (simp add: write_progress_def)
  moreover have "\<forall>r \<in> set (c_replies (demo_conn1 ?rs)). r \<noteq> []"
      "c_replies (demo_conn1 ?rs) \<noteq> [] \<longrightarrow> c_written (demo_conn1 ?rs) < int (length (hd (c_replies (demo_conn1 ?rs))))"
    by (simp_all add: demo_conn1_def)
  moreover have "pending_out (demo_conn1 ?rs) = ''abc''" by (simp add: pending_out_def demo_conn1_def)
  ultimately show ?thesis using tcp_write_drains [of "demo_table ?rs" 1 "demo_conn1 ?rs" "\<lambda>_ n. WrOk n" 0] by simp
qed

text \<open>
  An empty reply blocks a TCP connection. The write of zero bytes returns zero,
  which is taken for a full socket: the event returns without sending anything,
  the reply stays first in the queue, and no reply behind it is ever sent.
\<close>

lemma empty_reply_blocks:
  assumes "worker_ok w" and "slot w fd = Some c" and "c_replies c = [] # rs" and "\<forall>i. wr i 0 = WrOk 0"
  shows "tcp_write_io wr now w c = Some (w, [])"
proof -
  note s = slotD [OF assms(1,2)]
  have "c_written c = 0" using s(5) assms(3) by (simp add: conn_ok_def)
  then have "tcp_write_loop wr 0 c [] = Some (WrBlocked, c, [])"
    using assms(3,4) by (subst tcp_write_loop.simps) (simp add: Let_def)
  moreover have "put_conn w c = w" using s by (simp add: put_conn_def list_update_same_conv)
  ultimately show ?thesis by (simp add: tcp_write_io_def)
qed

text \<open>
  C30: The write callback of a UDP connection does not return when the kernel keeps
  refusing the first datagram or takes only a part of it: the loop retries the
  same reply for ever and the event loop of the worker is stuck in it.
\<close>

theorem udp_write_never_returns:
  assumes "c_replies c = r # rs" and "\<forall>i. u64 (socket_write (wr i (length r))) \<noteq> int (length r)"
  shows "udp_write_io wr now w c = None"
  using udp_write_loop_stuck [of wr 0 c "[]"] assms by (cases "udp_write_loop wr 0 c []") (auto simp: udp_write_io_def)

theorem udp_write_never_returns_witness:
  "udp_write_io (\<lambda>_ n. WrAgain) 0 (demo_table [''a'']) (demo_conn1 [''a'']) = None"
  using udp_write_never_returns [of "demo_conn1 [''a'']" "''a''" "[]" "\<lambda>_ n. WrAgain"] by (simp add: demo_conn1_def)

text \<open>
  C25: Stopping a worker closes every descriptor it owns exactly once: both ends of
  the pipe and the descriptors of the open connections, in the order of the
  table. The destructor that follows closes nothing again.
\<close>

theorem worker_stop_closes_once:
  assumes "worker_ok w" and "w_cron_timer w \<noteq> None" and "w_pipe_watcher w \<noteq> None"
  shows "\<exists>w'. worker_stop w = Some w' \<and> (\<forall>fd. slot w' fd = None) \<and>
    w_closed w' = w_closed w @ [w_recv_fd w, w_send_fd w] @ open_fds w \<and>
    distinct (open_fds w) \<and> set (open_fds w) = {fd. slot w fd \<noteq> None} \<and> worker_destroy w' = Some w'"
proof -
  let ?w = "w\<lparr>w_closed := w_closed w @ [w_recv_fd w, w_send_fd w], w_running := False\<rparr>"
  let ?w' = "?w\<lparr>w_conns := replicate (length (w_conns w)) None, w_closed := w_closed ?w @ open_fds ?w\<rparr>"
  have ok: "conns_ok (w_conns ?w)" using assms(1) by (simp add: worker_ok_def)
  have o: "open_fds ?w = open_fds w" by (simp add: open_fds_def)
  have "worker_stop w = Some ?w'" using close_all_ok [OF ok] assms(2,3) by (auto simp: worker_stop_def)
  moreover have "slot ?w' fd = None" for fd by (simp add: slot_def)
  moreover have "distinct (open_fds w)" by (simp add: open_fds_def distinct_map)
  moreover have "set (open_fds w) = {fd. slot w fd \<noteq> None}"
    by (auto simp: open_fds_def slot_def image_iff split: if_splits) (metis int_nat_eq)
  moreover have "worker_destroy ?w' = Some ?w'"
  proof -
    have "conns_ok (w_conns ?w')" using ok by (auto simp: conns_ok_def)
    moreover have "open_fds ?w' = []" by (simp add: open_fds_def)
    ultimately show ?thesis using close_all_ok [of ?w'] by (simp add: worker_destroy_def close_all_conns_def)
  qed
  ultimately show ?thesis using o by auto
qed

theorem worker_stop_closes_once_witness:
  "\<exists>w'. worker_stop (demo_table []) = Some w' \<and> w_closed w' = [5, 6, 1]"
proof -
  have "open_fds (demo_table []) = [1]" by (simp add: open_fds_def demo_table_def upt_rec)
  then show ?thesis using worker_stop_closes_once [of "demo_table []"] demo_table_ok [of "[]"]
    by (auto simp: demo_table_def worker_new_def)
qed

text \<open>
  C31: The idle timer closes a connection exactly if the time since its last
  interaction exceeds the configured timeout. The difference is taken modulo
  \<open>2^64\<close>: when the clock has been set back, even by a microsecond, the connection
  counts as idle for almost \<open>2^64\<close> microseconds and is closed at once.
\<close>

theorem timeout_closes_idle:
  assumes "worker_ok w" and "slot w fd = Some c" and "0 \<le> now" and "now < 2 ^ 64" and "0 \<le> c_last c" and "c_last c < 2 ^ 64"
  shows "\<exists>w'. process_timeout now w c = Some w' \<and> worker_ok w' \<and>
    (slot w' fd = None \<longleftrightarrow>
       (if c_last c \<le> now then so_connection_timeout (w_opts w) < now - c_last c
        else so_connection_timeout (w_opts w) < 2 ^ 64 - (c_last c - now)))"
proof -
  note s = slotD [OF assms(1,2)]
  obtain w' where w': "close_conn w c = Some w'" "worker_ok w'" "slot w' fd = None"
    using close_conn_ok [OF assms(1,2) s(5)] by blast
  have "u64 (now - c_last c) = (if c_last c \<le> now then now - c_last c else 2 ^ 64 - (c_last c - now))"
    using assms(3-6) u64_neg [of "now - c_last c"] by auto
  then show ?thesis using w' assms(1,2) by (auto simp: process_timeout_def)
qed

theorem timeout_closes_idle_witness:
  "\<exists>w'. process_timeout 0 ((demo_table [])\<lparr>w_conns := [None, Some ((demo_conn1 [])\<lparr>c_last := 1\<rparr>)]\<rparr>) ((demo_conn1 [])\<lparr>c_last := 1\<rparr>) = Some w' \<and>
     slot w' 1 = None"
proof -
  let ?c = "(demo_conn1 [])\<lparr>c_last := 1\<rparr>"
  let ?w = "(demo_table [])\<lparr>w_conns := [None, Some ?c]\<rparr>"
  have "conn_ok ?c" using demo_conn1_ok [of "[]"] by simp
  then have "conns_ok [None, Some ?c]" by (auto simp: conns_ok_def less_Suc_eq demo_conn1_def)
  then have "worker_ok ?w" "slot ?w 1 = Some ?c" using demo_table_ok(1) [of "[]"] by (simp_all add: worker_ok_def slot_def)
  from timeout_closes_idle [OF this, of 0] show ?thesis by (auto simp: demo_table_def worker_new_def server_opts_default_def)
qed

end
