(* ===== verification/Serving.thy ===== *)
theory Serving
  imports Worker
begin

text \<open>
  A worker as its event loop drives it. The callbacks of \<open>src/server/worker.cpp\<close>
  are the events; the locale \<open>io_handler\<close> is the contract between the worker and
  the request handler \<open>process_io_buffer\<close> of a derived class, and its theorem says
  that under this contract no event makes the worker fail, whatever the kernel
  reports and whatever the clients send up to the announced bound.
  \<open>echo_handler\<close> extends the contract by what an echo server promises and follows
  the bytes of one connection from arrival to departure.
\<close>

section \<open>Reading from a connection\<close>

text \<open>
  The handler finds the buffer extended by the bytes read. \<open>tcp_readable\<close> is what
  the arithmetic of \<open>tcp_read_io\<close> needs.
\<close>

definition tcp_readable :: "conn \<Rightarrow> os_read \<Rightarrow> bool" where
  "tcp_readable c rd \<longleftrightarrow> sds_ok (c_buf c) \<and> 0 \<le> c_expected c \<and> 0 \<le> c_processed c \<and>
     c_processed c \<le> int (length (sds_val (c_buf c))) \<and>
     length (sds_val (c_buf c)) + nat (c_expected c) \<le> sds_limit \<and> length (read_bytes rd) \<le> nat (c_expected c)"

fun read_ends :: "os_read \<Rightarrow> bool" where
  "read_ends (RdOk bs) \<longleftrightarrow> bs = []"
| "read_ends RdAgain \<longleftrightarrow> False"
| "read_ends RdErr \<longleftrightarrow> True"

lemma socket_read_cases:
  "read_ends rd \<longleftrightarrow> socket_read rd = SOCKET_ERR \<or> socket_read rd = SOCKET_PEER_CLOSED"
  "\<not> read_ends rd \<Longrightarrow> socket_read rd = int (length (read_bytes rd))"
  by (cases rd; simp)+

lemma read_ends_bytes: "read_ends rd \<Longrightarrow> read_bytes rd = []"
  by (cases rd) auto

text \<open>The outcome of a readable event once the bytes are in the buffer \<open>b\<close>.\<close>

definition after_read :: "'u handler \<Rightarrow> int \<Rightarrow> os_read \<Rightarrow> 'u \<Rightarrow> conn \<Rightarrow> sds \<Rightarrow> (bool \<times> conn \<times> 'u) option" where
  "after_read pio now rd u c b =
     (if read_ends rd then Some (True, c\<lparr>c_buf := b\<rparr>, u)
      else if c_expected c \<le> int (length (sds_val b)) - c_processed c
      then do { (ret, c, u) \<leftarrow> pio u (c\<lparr>c_buf := b, c_last := now\<rparr>); Some (ret \<noteq> WORKER_OK, c, u) }
      else Some (False, c\<lparr>c_buf := b, c_last := now\<rparr>, u))"

lemma tcp_read_conn_eq:
  assumes "mem_ok a" "tcp_readable c rd"
  shows "\<exists>b. sds_ok b \<and> sds_val b = sds_val (c_buf c) @ read_bytes rd \<and>
    tcp_read_conn a pio now rd u c = after_read pio now rd u c b"
proof -
  let ?v = "sds_val (c_buf c)" and ?bs = "read_bytes rd"
  note r = assms(2) [unfolded tcp_readable_def]
  have e: "u64 (s32 (c_expected c)) = c_expected c" "length ?v < 2 ^ 31" using r by (auto simp: sds_limit_def)
  obtain b0 where b0: "sdsMakeRoomFor a (c_buf c) (c_expected c) = Some b0" "sds_ok b0" "sds_val b0 = ?v"
      "c_expected c \<le> sds_free b0"
    using sdsMakeRoomFor_ok [OF assms(1), of "c_buf c" "c_expected c"] r by auto
  have ib: "sdslen (c_buf c) = int (length ?v)" using r sdslen_val by blast
  have "int (length ?bs) \<le> sds_free b0" using b0(4) r by linarith
  then obtain buf b where b: "store_at (sds_buf b0) (length ?v) ?bs = Some buf"
      "sdsIncrLen (b0\<lparr>sds_buf := buf\<rparr>) (int (length ?bs)) = Some b" "sds_ok b" "sds_val b = ?v @ ?bs"
    using sdsIncrLen_after_read [OF b0(2)] b0(3) by force
  have st: "tcp_read_conn a pio now rd u c =
      (if read_ends rd then Some (True, c\<lparr>c_buf := b0\<lparr>sds_buf := buf\<rparr>\<rparr>, u)
       else do {
         b \<leftarrow> (if 0 < socket_read rd then sdsIncrLen (b0\<lparr>sds_buf := buf\<rparr>) (socket_read rd) else Some (b0\<lparr>sds_buf := buf\<rparr>));
         let c = c\<lparr>c_buf := b, c_last := now\<rparr>;
         if c_expected c \<le> u64 (sdslen (c_buf c) - c_processed c) then do {
           (ret, c, u) \<leftarrow> pio u c; Some (ret \<noteq> WORKER_OK, c, u) }
         else Some (False, c, u) })"
    using b0(1) b(1) ib e(1) socket_read_cases(1) [of rd] by (simp add: tcp_read_conn_def Let_def)
  show ?thesis
  proof (cases "?bs = []")
    case True
    have buf: "b0\<lparr>sds_buf := buf\<rparr> = b0" using True b(1) by (simp add: store_at_def split: if_splits)
    have len: "u64 (sdslen b0 - c_processed c) = int (length (sds_val b0)) - c_processed c"
      using sdslen_val [OF b0(2)] b0(3) r e(2) by simp
    show ?thesis
    proof (cases "read_ends rd")
      case False
      then have "socket_read rd = 0" using socket_read_cases(2) True by simp
      then show ?thesis using st False True buf b0(2,3) len by (intro exI [of _ b0]) (simp add: Let_def after_read_def)
    qed (use st True buf b0(2,3) in \<open>intro exI [of _ b0], simp add: after_read_def\<close>)
  next
    case False
    then have ne: "\<not> read_ends rd" using read_ends_bytes by blast
    then have sr: "socket_read rd = int (length ?bs)" by (rule socket_read_cases(2))
    have lim: "length (sds_val b) < 2 ^ 31" using b(4) r by (simp add: sds_limit_def)
    then have len: "u64 (sdslen b - c_processed c) = int (length (sds_val b)) - c_processed c"
      using sdslen_val [OF b(3)] b(4) r by simp
    show ?thesis using st ne sr b len False by (intro exI [of _ b]) (simp add: Let_def after_read_def)
  qed
qed

text \<open>The dispatch of \<open>read_io\<close> and \<open>write_io\<close> on the table.\<close>

lemma slot_test:
  assumes "worker_ok w" "0 \<le> fd" "fd < 2 ^ 31"
  shows "(u64 (int (length (w_conns w))) \<le> u64 fd) = (\<not> nat fd < length (w_conns w))"
  using assms by (auto simp: worker_ok_def nat_less_iff)

lemma read_io_tcp:
  assumes "worker_ok w" "0 \<le> fd" "fd < 2 ^ 31" "\<And>c. slot w fd = Some c \<Longrightarrow> sk_kind (c_sock c) = TCP"
  shows "read_io a pio now rd w fd = (case slot w fd of None \<Rightarrow> Some w | Some c \<Rightarrow> tcp_read_io a pio now rd w c)"
  using slot_test [OF assms(1-3)] assms(2,4) by (auto simp: read_io_def slot_def split: option.splits)

lemma write_io_tcp:
  assumes "worker_ok w" "0 \<le> fd" "fd < 2 ^ 31" "\<And>c. slot w fd = Some c \<Longrightarrow> sk_kind (c_sock c) = TCP" "nat fd < length socks"
  shows "write_io socks wr now w fd =
    (if socks ! nat fd = None then Some (w, [])
     else case slot w fd of None \<Rightarrow> Some (w, []) | Some c \<Rightarrow> tcp_write_io wr now w c)"
  using slot_test [OF assms(1-3)] assms(2,4,5) by (auto simp: write_io_def slot_def split: option.splits)

section \<open>Events\<close>

text \<open>
  What the event loop can call: the callback of a descriptor with the events that
  are ready and the outcomes of the system calls it makes, the timer of a
  connection, and the notification pipe. A callback returns the bytes it wrote.
\<close>

datatype wevent =
    EvIO int int int os_read "nat \<Rightarrow> nat \<Rightarrow> os_write"
  | EvTimeout int int
  | EvPipe int

(* src/src/server/worker.cpp:87-93, timeout_cb *)
definition timeout_cb :: "int \<Rightarrow> 'u worker \<Rightarrow> conn \<Rightarrow> 'u worker option" where
  "timeout_cb now w c = process_timeout now w c"

fun worker_event :: "allocator \<Rightarrow> 'u handler \<Rightarrow> unset \<Rightarrow> sock option list \<Rightarrow> wevent \<Rightarrow> 'u worker \<Rightarrow> ('u worker \<times> string) option" where
  "worker_event a pio un socks (EvIO fd revents now rd wr) w = conn_io_cb a pio socks now rd wr w fd revents"
| "worker_event a pio un socks (EvTimeout fd now) w =
     (case slot w fd of None \<Rightarrow> Some (w, []) | Some c \<Rightarrow> do { w \<leftarrow> timeout_cb now w c; Some (w, []) })"
| "worker_event a pio un socks (EvPipe now) w = do { w \<leftarrow> recv_notify a un now w; Some (w, []) }"

text \<open>
  What the kernel guarantees of an event: a \<open>read\<close> returns at most the bytes it
  was asked for, a \<open>write\<close> takes at most the bytes it was given, the socket table
  covers the open descriptors, and a queued socket has a descriptor no open
  connection uses. The clients announce at most \<open>B\<close> bytes at a time, and the
  number of replies waiting on a connection stays below the range of an \<open>int\<close>.
\<close>

fun event_ok :: "nat \<Rightarrow> sock option list \<Rightarrow> wevent \<Rightarrow> 'u worker \<Rightarrow> bool" where
  "event_ok B socks (EvIO fd revents now rd wr) w \<longleftrightarrow> write_ok wr \<and> 0 \<le> fd \<and> fd < 2 ^ 31 \<and> nat fd < length socks \<and>
     (\<forall>c. slot w fd = Some c \<longrightarrow> c_expected c \<le> int B \<and> length (read_bytes rd) \<le> nat (c_expected c) \<and>
        Suc (length (c_replies c)) < 2 ^ 31)"
| "event_ok B socks (EvTimeout fd now) w \<longleftrightarrow> True"
| "event_ok B socks (EvPipe now) w \<longleftrightarrow> (\<forall>s q. lfq_rep (w_mq w) (s # q) \<longrightarrow> slot w (sk_fd s) = None)"

section \<open>The contract of a request handler\<close>

text \<open>
  \<open>rx st e p v\<close> says in which receive states (state, bytes expected, bytes
  processed, contents of the buffer) a connection can be between two events. The
  handler is called with a buffer \<open>v @ bs\<close>, where \<open>v\<close> was there at the last event
  and at most the expected number of bytes \<open>bs\<close> has come in, once the expected bytes
  are there. It must return, keep the connection well formed, and leave it in a
  receive state again unless it asks for the connection to be closed.
\<close>

definition rx_of :: "(int \<Rightarrow> int \<Rightarrow> int \<Rightarrow> string \<Rightarrow> bool) \<Rightarrow> conn \<Rightarrow> bool" where
  "rx_of rx c \<longleftrightarrow> rx (c_state c) (c_expected c) (c_processed c) (sds_val (c_buf c))"

definition serving_ok :: "(int \<Rightarrow> int \<Rightarrow> int \<Rightarrow> string \<Rightarrow> bool) \<Rightarrow> 'u worker \<Rightarrow> bool" where
  "serving_ok rx w \<longleftrightarrow> worker_ok w \<and> w_pipe_watcher w \<noteq> None \<and> w_cron_timer w \<noteq> None \<and>
     (\<forall>fd c. slot w fd = Some c \<longrightarrow> sk_kind (c_sock c) = TCP \<and> rx_of rx c) \<and>
     (\<exists>q. lfq_rep (w_mq w) q \<and> (\<forall>s \<in> set q. sk_kind s = TCP \<and> 0 \<le> sk_fd s \<and> sk_fd s < 2 ^ 30))"

locale io_handler =
  fixes pio :: "allocator \<Rightarrow> 'u handler" and rx :: "int \<Rightarrow> int \<Rightarrow> int \<Rightarrow> string \<Rightarrow> bool" and B :: nat
  assumes rx_new: "rx 0 1 0 []"
    and rx_bounds: "rx st e p v \<Longrightarrow> 0 \<le> e \<and> 0 \<le> p \<and> p \<le> int (length v) \<and> length v + B \<le> sds_limit"
    and rx_wait: "rx st e p v \<Longrightarrow> e \<le> int B \<Longrightarrow> length bs \<le> nat e \<Longrightarrow> int (length (v @ bs)) - p < e \<Longrightarrow> rx st e p (v @ bs)"
    and pio_ok: "mem_ok a \<Longrightarrow> conn_ok c \<Longrightarrow> sds_val (c_buf c) = v @ bs \<Longrightarrow> rx (c_state c) (c_expected c) (c_processed c) v \<Longrightarrow>
      c_expected c \<le> int B \<Longrightarrow> length bs \<le> nat (c_expected c) \<Longrightarrow>
      c_expected c \<le> int (length (v @ bs)) - c_processed c \<Longrightarrow> Suc (length (c_replies c)) < 2 ^ 31 \<Longrightarrow>
      \<exists>r c' u'. pio a u c = Some (r, c', u') \<and> conn_ok c' \<and> c_sock c' = c_sock c \<and> (r = WORKER_OK \<longrightarrow> rx_of rx c')"
begin

lemma readable:
  assumes "conn_ok c" "rx_of rx c" "c_expected c \<le> int B" "length (read_bytes rd) \<le> nat (c_expected c)"
  shows "tcp_readable c rd"
proof -
  note rx = rx_bounds [OF assms(2) [unfolded rx_of_def]]
  have "nat (c_expected c) \<le> B" using assms(3) by simp
  then have "length (sds_val (c_buf c)) + nat (c_expected c) \<le> sds_limit" using rx by (elim conjE) (rule order_trans, rule add_left_mono)
  then show ?thesis using rx conn_ok_buf [OF assms(1)] assms(4) by (simp add: tcp_readable_def)
qed

lemma tcp_read_conn_ok:
  assumes "mem_ok a" "conn_ok c" "rx_of rx c" "c_expected c \<le> int B" "length (read_bytes rd) \<le> nat (c_expected c)"
    "Suc (length (c_replies c)) < 2 ^ 31"
  shows "\<exists>cl c' u'. tcp_read_conn a (pio a) now rd u c = Some (cl, c', u') \<and> conn_ok c' \<and> c_sock c' = c_sock c \<and>
    (\<not> cl \<longrightarrow> rx_of rx c')"
proof -
  obtain b where b: "sds_ok b" "sds_val b = sds_val (c_buf c) @ read_bytes rd"
    "tcp_read_conn a (pio a) now rd u c = after_read (pio a) now rd u c b"
    using tcp_read_conn_eq [OF assms(1) readable [OF assms(2-5)], of "pio a" now u] by (elim exE conjE) (rule that)
  let ?c = "c\<lparr>c_buf := b, c_last := now\<rparr>"
  have ok: "conn_ok ?c" "conn_ok (c\<lparr>c_buf := b\<rparr>)" using conn_ok_set_buf [OF assms(2) b(1)] by simp_all
  have rx: "rx (c_state c) (c_expected c) (c_processed c) (sds_val (c_buf c))" using assms(3) by (simp add: rx_of_def)
  consider (ends) "read_ends rd" | (wait) "\<not> read_ends rd" "int (length (sds_val b)) - c_processed c < c_expected c"
    | (full) "\<not> read_ends rd" "c_expected c \<le> int (length (sds_val b)) - c_processed c" by linarith
  then show ?thesis
  proof cases
    case ends
    then show ?thesis using b(3) ok(2) by (auto simp: after_read_def)
  next
    case wait
    then have "rx_of rx ?c" using rx_wait [OF rx assms(4,5)] b(2) by (simp add: rx_of_def)
    then show ?thesis using b(3) ok(1) wait by (auto simp: after_read_def)
  next
    case full
    have f: "c_expected ?c \<le> int (length (sds_val (c_buf c) @ read_bytes rd)) - c_processed ?c"
      "sds_val (c_buf ?c) = sds_val (c_buf c) @ read_bytes rd" using full(2) b(2) by simp_all
    obtain r c' u' where "pio a u ?c = Some (r, c', u')" "conn_ok c'" "c_sock c' = c_sock ?c" "r = WORKER_OK \<longrightarrow> rx_of rx c'"
      using pio_ok [OF assms(1) ok(1) f(2) _ _ _ f(1), of u] rx assms(4-6) by auto
    then show ?thesis using b(3) full by (auto simp: after_read_def)
  qed
qed

lemma serving_okI:
  assumes "serving_ok rx w" "worker_ok w'" "\<forall>fd'. fd' \<noteq> fd \<longrightarrow> slot w' fd' = slot w fd'"
    "\<And>c. slot w' fd = Some c \<Longrightarrow> sk_kind (c_sock c) = TCP \<and> rx_of rx c"
    "w_mq w' = w_mq w" "w_pipe_watcher w' = w_pipe_watcher w" "w_cron_timer w' = w_cron_timer w"
  shows "serving_ok rx w'"
proof -
  have "sk_kind (c_sock c) = TCP \<and> rx_of rx c" if "slot w' fd' = Some c" for fd' c
    using that assms(1,3,4) by (cases "fd' = fd") (auto simp: serving_ok_def)
  then show ?thesis using assms(1,2,5-7) by (simp add: serving_ok_def)
qed

lemma read_step:
  assumes "mem_ok a" "serving_ok rx w" "event_ok B socks (EvIO fd revents now rd wr) w"
  shows "\<exists>w'. read_io a (pio a) now rd w fd = Some w' \<and> serving_ok rx w' \<and> same_base w w' \<and>
    (\<forall>fd'. fd' \<noteq> fd \<longrightarrow> slot w' fd' = slot w fd') \<and>
    (\<forall>c'. slot w' fd = Some c' \<longrightarrow> (\<exists>c u'. slot w fd = Some c \<and> tcp_read_conn a (pio a) now rd (w_user w) c = Some (False, c', u')))"
proof -
  have w: "worker_ok w" "\<And>c. slot w fd = Some c \<Longrightarrow> sk_kind (c_sock c) = TCP \<and> rx_of rx c"
    using assms(2) by (simp_all add: serving_ok_def)
  note io = read_io_tcp [of w fd a "pio a" now rd, OF w(1)]
  show ?thesis
  proof (cases "slot w fd")
    case None
    then show ?thesis using io assms(2,3) by simp
  next
    case (Some c)
    note s = slotD [OF w(1) Some]
    obtain cl c' u' where r: "tcp_read_conn a (pio a) now rd (w_user w) c = Some (cl, c', u')" "conn_ok c'" "c_sock c' = c_sock c"
        "\<not> cl \<longrightarrow> rx_of rx c'"
      using tcp_read_conn_ok [OF assms(1) s(5), of rd now "w_user w"] w(2) Some assms(3) by auto
    let ?w = "w\<lparr>w_user := u'\<rparr>"
    have w': "worker_ok ?w" "slot ?w fd = Some c" "\<And>fd'. slot ?w fd' = slot w fd'"
      using w(1) Some by simp_all
    have io': "read_io a (pio a) now rd w fd = (if cl then close_conn ?w c' else Some (put_conn ?w c'))"
      using io assms(3) Some w(2) r(1) by (simp add: tcp_read_io_def)
    show ?thesis
    proof (cases cl)
      case True
      obtain w2 where w2: "close_conn ?w c' = Some w2" "worker_ok w2" "slot w2 fd = None" "same_base ?w w2"
          "\<forall>fd'. fd' \<noteq> fd \<longrightarrow> slot w2 fd' = slot ?w fd'"
        using close_conn_ok [OF w'(1,2) r(2,3)] by blast
      then have "serving_ok rx w2" "same_base w w2" using serving_okI [OF assms(2), of w2 fd] w'(3) by (simp_all add: same_base_def)
      then show ?thesis using io' True w2 w'(3) Some by simp
    next
      case False
      note p = put_conn_ok [OF w'(1,2) r(2,3)]
      have "serving_ok rx (put_conn ?w c')"
        using serving_okI [OF assms(2) p(1), of fd] p(2,3) w'(3) r(3,4) False w(2) Some by (simp add: put_conn_def)
      then show ?thesis using io' False p(2,3) w'(3) Some r(1) by simp
    qed
  qed
qed

lemma write_step:
  assumes "serving_ok rx w" "write_ok wr" "0 \<le> fd" "fd < 2 ^ 31" "nat fd < length socks"
  shows "\<exists>w' out. write_io socks wr now w fd = Some (w', out) \<and> serving_ok rx w' \<and>
    (\<forall>fd'. fd' \<noteq> fd \<longrightarrow> slot w' fd' = slot w fd') \<and>
    (\<forall>c'. slot w' fd = Some c' \<longrightarrow> (\<exists>c. slot w fd = Some c \<and> out @ pending_out c' = pending_out c \<and> same_input c c'))"
proof -
  have w: "worker_ok w" "\<And>c. slot w fd = Some c \<Longrightarrow> sk_kind (c_sock c) = TCP \<and> rx_of rx c"
    using assms(1) by (simp_all add: serving_ok_def)
  have k: "\<And>c. slot w fd = Some c \<Longrightarrow> sk_kind (c_sock c) = TCP" using w(2) by blast
  note io = write_io_tcp [OF w(1) assms(3,4) k assms(5), of wr now]
  show ?thesis
  proof (cases "socks ! nat fd = None \<or> slot w fd = None")
    case True
    then have "write_io socks wr now w fd = Some (w, [])" using io by (auto split: option.splits)
    then show ?thesis using assms(1) by (simp add: same_input_def)
  next
    case False
    then obtain c where c: "slot w fd = Some c" "socks ! nat fd \<noteq> None" by auto
    obtain w' sent where w': "tcp_write_io wr now w c = Some (w', sent)" "worker_ok w'" "same_base w w'"
        "\<forall>fd'. fd' \<noteq> fd \<longrightarrow> slot w' fd' = slot w fd'"
        "case slot w' fd of None \<Rightarrow> w_closed w' = w_closed w @ [fd]
         | Some c' \<Rightarrow> w_closed w' = w_closed w \<and> sent @ pending_out c' = pending_out c \<and> same_input c c' \<and>
             (c_replies c' = [] \<longrightarrow> \<not> watching fd True (c_watcher c'))"
      using tcp_write_io_ok [OF w(1) c(1) assms(2)] by blast
    have new: "sent @ pending_out c' = pending_out c \<and> same_input c c'" if "slot w' fd = Some c'" for c'
      using w'(5) that by simp
    have "serving_ok rx w'"
    proof (rule serving_okI [OF assms(1) w'(2,4)])
      fix c' assume "slot w' fd = Some c'"
      then have "same_input c c'" using new by blast
      then show "sk_kind (c_sock c') = TCP \<and> rx_of rx c'" using w(2) [OF c(1)] by (simp add: same_input_def rx_of_def)
    qed (use w'(3) in \<open>simp_all add: same_base_def\<close>)
    moreover have "write_io socks wr now w fd = Some (w', sent)" using io c w'(1) by simp
    ultimately show ?thesis using w'(4) new c(1) by blast
  qed
qed

lemma timeout_step:
  assumes "serving_ok rx w"
  shows "\<exists>w'. worker_event a (pio a) un socks (EvTimeout fd now) w = Some (w', []) \<and> serving_ok rx w' \<and>
    (\<forall>fd'. fd' \<noteq> fd \<longrightarrow> slot w' fd' = slot w fd') \<and> (slot w' fd = slot w fd \<or> slot w' fd = None)"
proof (cases "slot w fd")
  case None
  then show ?thesis using assms by simp
next
  case (Some c)
  have w: "worker_ok w" using assms by (simp add: serving_ok_def)
  note s = slotD [OF w Some]
  obtain w2 where w2: "close_conn w c = Some w2" "worker_ok w2" "slot w2 fd = None" "same_base w w2"
      "\<forall>fd'. fd' \<noteq> fd \<longrightarrow> slot w2 fd' = slot w fd'"
    using close_conn_ok [OF w Some s(5)] by blast
  have "serving_ok rx w2" using serving_okI [OF assms w2(2,5)] w2(3,4) by (simp add: same_base_def)
  then show ?thesis using Some w2 assms by (auto simp: timeout_cb_def process_timeout_def)
qed

lemma pipe_step:
  assumes "mem_ok a" "serving_ok rx w" "event_ok B socks (EvPipe now) w"
  shows "\<exists>w'. worker_event a (pio a) un socks (EvPipe now) w = Some (w', []) \<and> serving_ok rx w' \<and>
    (\<forall>fd. slot w fd \<noteq> None \<longrightarrow> slot w' fd = slot w fd \<or> slot w' fd = None)"
proof (cases "w_pipe w")
  case Nil
  then show ?thesis using assms(2) by (auto simp: recv_notify_def)
next
  case (Cons msg rest)
  let ?w = "w\<lparr>w_pipe := rest\<rparr>"
  obtain q where q: "worker_ok w" "lfq_rep (w_mq w) q" "\<forall>s \<in> set q. sk_kind s = TCP \<and> 0 \<le> sk_fd s \<and> sk_fd s < 2 ^ 30"
    using assms(2) by (auto simp: serving_ok_def)
  have w: "worker_ok ?w" "\<And>fd. slot ?w fd = slot w fd" using q(1) by (simp_all add: worker_ok_def slot_def)
  have sv: "serving_ok rx ?w" using assms(2) w by (simp add: serving_ok_def)
  have ev: "worker_event a (pio a) un socks (EvPipe now) w =
      do { w \<leftarrow> process_internal_notify a un now msg ?w; Some (w, []) }" using Cons by (simp add: recv_notify_def)
  consider (quit) "msg = QUIT" | (new) "msg = NEW_CONNECTION" | (other) "msg \<noteq> QUIT" "msg \<noteq> NEW_CONNECTION" by blast
  then show ?thesis
  proof cases
    case quit
    let ?w1 = "?w\<lparr>w_closed := w_closed ?w @ [w_recv_fd ?w, w_send_fd ?w], w_running := False\<rparr>"
    let ?w2 = "?w1\<lparr>w_conns := replicate (length (w_conns w)) None, w_closed := w_closed ?w1 @ open_fds ?w1\<rparr>"
    have c: "conns_ok (w_conns ?w1)" using q(1) by (simp add: worker_ok_def)
    have "worker_stop ?w = Some ?w2" using close_all_ok [OF c] assms(2) by (auto simp: worker_stop_def serving_ok_def)
    moreover have "slot ?w2 fd = None" for fd by (simp add: slot_def)
    moreover have "worker_ok ?w2" using q(1) by (auto simp: worker_ok_def conns_ok_def)
    ultimately show ?thesis using ev quit assms(2) by (simp add: process_internal_notify_def serving_ok_def)
  next
    case other
    then show ?thesis using ev sv w(2) by (simp add: process_internal_notify_def)
  next
    case new
    show ?thesis
    proof (cases q)
      case Nil
      then have "mq_pop ?w = Some (None, ?w)" using q(2) lq.pop_nil [of "w_mq w"] by (simp add: mq_pop_def)
      then show ?thesis using ev new sv w(2) by (simp add: process_internal_notify_def)
    next
      case (Cons s q')
      obtain m where m: "lfq_consume (w_mq w) = Some (Some s, m)" "lfq_rep m q'" using lq.pop_cons [of "w_mq w" s q'] q(2) Cons by auto
      let ?w1 = "?w\<lparr>w_mq := m\<rparr>"
      have w1: "worker_ok ?w1" "\<And>fd. slot ?w1 fd = slot w fd" using w(1) m(2) by (auto simp: worker_ok_def slot_def)
      have fd: "0 \<le> sk_fd s" "sk_fd s < 2 ^ 30" "sk_kind s = TCP" "slot w (sk_fd s) = None" using q Cons assms(3) by auto
      obtain c w' where c: "create_connection a un now ?w1 (Some s) = Some (Some c, w')" "worker_ok w'"
          "slot w' (sk_fd s) = Some c" "fresh_conn s c" "\<forall>fd'. fd' \<noteq> sk_fd s \<longrightarrow> slot w' fd' = slot ?w1 fd'"
          "w' = ?w1\<lparr>w_conns := w_conns w'\<rparr>"
        using create_connection_ok [OF assms(1) w1(1) fd(1,2), of un now] by blast
      have b: "w_mq w' = m" "w_pipe_watcher w' = w_pipe_watcher w" "w_cron_timer w' = w_cron_timer w"
        by (subst c(6), simp)+
      have conn: "sk_kind (c_sock d) = TCP \<and> rx_of rx d" if d: "slot w' fd' = Some d" for fd' d
      proof (cases "fd' = sk_fd s")
        case True
        then show ?thesis using c(3,4) d fd(3) rx_new by (simp add: fresh_conn_def rx_of_def)
      next
        case False
        then show ?thesis using c(5) d w1(2) assms(2) by (simp add: serving_ok_def)
      qed
      have "\<exists>q. lfq_rep (w_mq w') q \<and> (\<forall>s \<in> set q. sk_kind s = TCP \<and> 0 \<le> sk_fd s \<and> sk_fd s < 2 ^ 30)"
        using m(2) b(1) q(3) Cons by auto
      then have "serving_ok rx w'" using c(2) conn b assms(2) by (simp add: serving_ok_def)
      moreover have "process_internal_notify a un now msg ?w = Some w'"
        using new m(1) c(1) by (simp add: process_internal_notify_def mq_pop_def)
      moreover have "slot w' fd = slot w fd" if "slot w fd \<noteq> None" for fd
      proof -
        have "fd \<noteq> sk_fd s" using that fd(4) by auto
        then show ?thesis using c(5) w1(2) by simp
      qed
      ultimately show ?thesis using ev by simp
    qed
  qed
qed

lemma io_step:
  assumes "mem_ok a" "serving_ok rx w" "event_ok B socks (EvIO fd revents now rd wr) w"
  shows "\<exists>w1 w' out. worker_event a (pio a) un socks (EvIO fd revents now rd wr) w = Some (w', out) \<and> serving_ok rx w' \<and>
    (\<forall>fd'. fd' \<noteq> fd \<longrightarrow> slot w' fd' = slot w fd') \<and>
    (if revents AND READ \<noteq> 0 then \<forall>c1. slot w1 fd = Some c1 \<longrightarrow>
       (\<exists>c u'. slot w fd = Some c \<and> tcp_read_conn a (pio a) now rd (w_user w) c = Some (False, c1, u')) else w1 = w) \<and>
    (\<forall>c'. slot w' fd = Some c' \<longrightarrow> (\<exists>c1. slot w1 fd = Some c1 \<and> out @ pending_out c' = pending_out c1 \<and> same_input c1 c'))"
proof -
  obtain w1 where w1: "(if revents AND READ \<noteq> 0 then read_io a (pio a) now rd w fd else Some w) = Some w1" "serving_ok rx w1"
      "\<forall>fd'. fd' \<noteq> fd \<longrightarrow> slot w1 fd' = slot w fd'"
      "if revents AND READ \<noteq> 0 then \<forall>c1. slot w1 fd = Some c1 \<longrightarrow>
         (\<exists>c u'. slot w fd = Some c \<and> tcp_read_conn a (pio a) now rd (w_user w) c = Some (False, c1, u')) else w1 = w"
    using read_step [OF assms] assms(2) by (cases "revents AND READ \<noteq> 0") auto
  obtain w2 out where w2: "(if revents AND WRITE \<noteq> 0 then write_io socks wr now w1 fd else Some (w1, [])) = Some (w2, out)"
      "serving_ok rx w2" "\<forall>fd'. fd' \<noteq> fd \<longrightarrow> slot w2 fd' = slot w1 fd'"
      "\<forall>c'. slot w2 fd = Some c' \<longrightarrow> (\<exists>c1. slot w1 fd = Some c1 \<and> out @ pending_out c' = pending_out c1 \<and> same_input c1 c')"
  proof (cases "revents AND WRITE \<noteq> 0")
    case True
    then show thesis using write_step [OF w1(2), of wr fd socks now] assms(3) that by auto
  next
    case False
    then show thesis using that [of w1 "[]"] w1(2) by (simp add: same_input_def)
  qed
  have "worker_event a (pio a) un socks (EvIO fd revents now rd wr) w = Some (w2, out)"
    using w1(1) w2(1) by (simp add: conn_io_cb_def)
  then show ?thesis using w1(3,4) w2(2-4) by (intro exI [of _ w1] exI [of _ w2] exI [of _ out]) simp
qed

theorem event_preserves:
  assumes "mem_ok a" "serving_ok rx w" "event_ok B socks ev w"
  shows "\<exists>w' out. worker_event a (pio a) un socks ev w = Some (w', out) \<and> serving_ok rx w'"
proof (cases ev)
  case (EvIO fd revents now rd wr)
  then show ?thesis using io_step [of a w socks fd revents now rd wr un] assms by blast
next
  case (EvTimeout fd now)
  then show ?thesis using timeout_step [OF assms(2), of a un socks fd now] by blast
next
  case (EvPipe now)
  then show ?thesis using pipe_step [of a w socks now un] assms by blast
qed

end

section \<open>Following the bytes of a connection\<close>

text \<open>
  An echo handler turns complete requests at the front of the buffer into replies:
  what it appends to the output is what it removes from the input.
\<close>

locale echo_handler = io_handler +
  fixes whole :: "string \<Rightarrow> bool"
  assumes pio_echo: "mem_ok a \<Longrightarrow> conn_ok c \<Longrightarrow> sds_val (c_buf c) = v @ bs \<Longrightarrow> rx (c_state c) (c_expected c) (c_processed c) v \<Longrightarrow>
      c_expected c \<le> int B \<Longrightarrow> length bs \<le> nat (c_expected c) \<Longrightarrow>
      c_expected c \<le> int (length (v @ bs)) - c_processed c \<Longrightarrow> Suc (length (c_replies c)) < 2 ^ 31 \<Longrightarrow>
      pio a u c = Some (WORKER_OK, c', u') \<Longrightarrow>
      \<exists>f. pending_out c' = pending_out c @ f \<and> f @ sds_val (c_buf c') = v @ bs \<and> (f = [] \<or> whole f)"
begin

lemma read_echo:
  assumes "mem_ok a" "conn_ok c" "rx_of rx c" "c_expected c \<le> int B" "length (read_bytes rd) \<le> nat (c_expected c)"
    "Suc (length (c_replies c)) < 2 ^ 31" "tcp_read_conn a (pio a) now rd u c = Some (False, c', u')"
  shows "\<exists>f. pending_out c' = pending_out c @ f \<and> f @ sds_val (c_buf c') = sds_val (c_buf c) @ read_bytes rd \<and>
    (f = [] \<or> whole f)"
proof -
  obtain b where b: "sds_ok b" "sds_val b = sds_val (c_buf c) @ read_bytes rd"
    "tcp_read_conn a (pio a) now rd u c = after_read (pio a) now rd u c b"
    using tcp_read_conn_eq [OF assms(1) readable [OF assms(2-5)], of "pio a" now u] by (elim exE conjE) (rule that)
  let ?c = "c\<lparr>c_buf := b, c_last := now\<rparr>"
  have ok: "conn_ok ?c" using conn_ok_set_buf [OF assms(2) b(1)] by simp
  have rx: "rx (c_state ?c) (c_expected ?c) (c_processed ?c) (sds_val (c_buf c))" using assms(3) by (simp add: rx_of_def)
  have ar: "after_read (pio a) now rd u c b = Some (False, c', u')" using b(3) assms(7) by simp
  show ?thesis
  proof (cases "c_expected c \<le> int (length (sds_val b)) - c_processed c")
    case True
    have "pio a u ?c = Some (WORKER_OK, c', u')"
      using ar True by (cases "pio a u ?c") (auto simp: after_read_def split: if_splits)
    from pio_echo [OF assms(1) ok _ rx _ _ _ _ this] show ?thesis using b(2) True assms(4-6) by (simp add: pending_out_def)
  next
    case False
    then have "c' = ?c" using ar by (simp add: after_read_def split: if_splits)
    then show ?thesis using b(2) by (simp add: pending_out_def)
  qed
qed

end

text \<open>
  \<open>serves a pio rx B fd w rcv snt\<close>: the worker \<open>w\<close> is reached by events after a
  connection on the descriptor \<open>fd\<close> was created, the connection is still open, its
  client has sent \<open>rcv\<close> and has been sent \<open>snt\<close>.
\<close>

fun ev_in :: "int \<Rightarrow> wevent \<Rightarrow> string" where
  "ev_in fd (EvIO fd' revents now rd wr) = (if fd' = fd \<and> revents AND READ \<noteq> 0 then read_bytes rd else [])"
| "ev_in fd _ = []"

fun ev_out :: "int \<Rightarrow> wevent \<Rightarrow> string \<Rightarrow> string" where
  "ev_out fd (EvIO fd' revents now rd wr) out = (if fd' = fd then out else [])"
| "ev_out fd _ out = []"

inductive serves :: "allocator \<Rightarrow> 'u handler \<Rightarrow> (int \<Rightarrow> int \<Rightarrow> int \<Rightarrow> string \<Rightarrow> bool) \<Rightarrow> nat \<Rightarrow> int \<Rightarrow>
    'u worker \<Rightarrow> string \<Rightarrow> string \<Rightarrow> bool" for a pio rx B fd where
  opened: "serving_ok rx w \<Longrightarrow> sk_kind s = TCP \<Longrightarrow> sk_fd s = fd \<Longrightarrow> 0 \<le> fd \<Longrightarrow> fd < 2 ^ 30 \<Longrightarrow>
    create_connection a un now w (Some s) = Some (Some c, w') \<Longrightarrow> serves a pio rx B fd w' [] []"
| event: "serves a pio rx B fd w rcv snt \<Longrightarrow> event_ok B socks ev w \<Longrightarrow>
    worker_event a pio un socks ev w = Some (w', out) \<Longrightarrow> slot w' fd \<noteq> None \<Longrightarrow>
    serves a pio rx B fd w' (rcv @ ev_in fd ev) (snt @ ev_out fd ev out)"

inductive_cases serves_cases: "serves a pio rx B fd w rcv snt"

definition echoed :: "(string \<Rightarrow> bool) \<Rightarrow> conn \<Rightarrow> string \<Rightarrow> string \<Rightarrow> bool" where
  "echoed whole c rcv snt \<longleftrightarrow> snt @ pending_out c @ sds_val (c_buf c) = rcv \<and>
     (\<exists>fs. snt @ pending_out c = concat fs \<and> (\<forall>f \<in> set fs. whole f))"

lemma echoed_same_input: "echoed whole c1 rcv snt \<Longrightarrow> out @ pending_out c' = pending_out c1 \<Longrightarrow> same_input c1 c' \<Longrightarrow>
    echoed whole c' rcv (snt @ out)"
  unfolding echoed_def same_input_def by (metis append.assoc)

lemma echoed_read:
  assumes "echoed whole c rcv snt" "pending_out c1 = pending_out c @ f" "f @ sds_val (c_buf c1) = sds_val (c_buf c) @ bs"
    "f = [] \<or> whole f"
  shows "echoed whole c1 (rcv @ bs) snt"
proof -
  obtain fs where fs: "snt @ pending_out c = concat fs" "\<forall>f \<in> set fs. whole f" using assms(1) by (auto simp: echoed_def)
  have "snt @ pending_out c1 = concat (fs @ (if f = [] then [] else [f]))" using fs(1) assms(2) by simp
  moreover have "\<forall>g \<in> set (fs @ (if f = [] then [] else [f])). whole g" using fs(2) assms(4) by auto
  moreover have "snt @ pending_out c1 @ sds_val (c_buf c1) = rcv @ bs"
    using assms(1-3) by (simp add: echoed_def)
  ultimately show ?thesis unfolding echoed_def by blast
qed

context echo_handler
begin

lemma serves_echo:
  assumes "mem_ok a"
  shows "serves a (pio a) rx B fd w rcv snt \<Longrightarrow> serving_ok rx w \<and> (\<exists>c. slot w fd = Some c \<and> echoed whole c rcv snt)"
proof (induction rule: serves.induct)
  case (opened w s un now c w')
  have w: "worker_ok w" using opened(1) by (simp add: serving_ok_def)
  obtain c2 w2 where c: "create_connection a un now w (Some s) = Some (Some c2, w2)" "worker_ok w2" "slot w2 (sk_fd s) = Some c2"
      "fresh_conn s c2" "\<forall>fd'. fd' \<noteq> sk_fd s \<longrightarrow> slot w2 fd' = slot w fd'" "w2 = w\<lparr>w_conns := w_conns w2\<rparr>"
    using create_connection_ok [OF assms w, of s un now] opened(3-5) by auto
  have e: "c2 = c" "w2 = w'" using c(1) opened(6) by simp_all
  have b: "w_mq w2 = w_mq w" "w_pipe_watcher w2 = w_pipe_watcher w" "w_cron_timer w2 = w_cron_timer w"
    by (subst c(6), simp)+
  have rxc: "sk_kind (c_sock c2) = TCP \<and> rx_of rx c2" using c(4) opened(2) rx_new by (simp add: fresh_conn_def rx_of_def)
  have "serving_ok rx w2"
    using serving_okI [OF opened(1) c(2) c(5)] c(3) rxc b by simp
  moreover have "echoed whole c2 [] []"
    unfolding echoed_def using c(4) by (auto simp: fresh_conn_def pending_out_def intro: exI [of _ "[]"])
  ultimately show ?case using c(3) opened(3) e by auto
next
  case (event w rcv snt socks ev un w' out)
  have sv: "serving_ok rx w" using event.IH by blast
  obtain c where c: "slot w fd = Some c" "echoed whole c rcv snt" using event.IH by blast
  have ok: "conn_ok c" "rx_of rx c" using slotD [OF _ c(1)] sv c(1) by (auto simp: serving_ok_def)
  show ?case
  proof (cases "\<exists>revents now rd wr. ev = EvIO fd revents now rd wr")
    case False
    have "serving_ok rx w' \<and> slot w' fd = slot w fd"
    proof (cases ev)
      case (EvIO fd' revents now rd wr)
      then show ?thesis using io_step [OF assms sv, of socks fd' revents now rd wr un] event False by auto
    next
      case (EvTimeout fd' now)
      then show ?thesis using timeout_step [OF sv, of a un socks fd' now] event c(1) by (cases "fd' = fd") auto
    next
      case (EvPipe now)
      then show ?thesis using pipe_step [OF assms sv, of socks now un] event c(1) by auto
    qed
    moreover have "ev_in fd ev = []" "ev_out fd ev out = []" using False by (cases ev; simp)+
    ultimately show ?thesis using c by simp
  next
    case True
    then obtain revents now rd wr where ev: "ev = EvIO fd revents now rd wr" by blast
    obtain w1 where w1: "serving_ok rx w'"
      "if revents AND READ \<noteq> 0 then \<forall>c1. slot w1 fd = Some c1 \<longrightarrow>
         (\<exists>c u'. slot w fd = Some c \<and> tcp_read_conn a (pio a) now rd (w_user w) c = Some (False, c1, u')) else w1 = w"
      "\<forall>c'. slot w' fd = Some c' \<longrightarrow> (\<exists>c1. slot w1 fd = Some c1 \<and> out @ pending_out c' = pending_out c1 \<and> same_input c1 c')"
      using io_step [OF assms sv, of socks fd revents now rd wr un] event ev by auto
    obtain c' where c': "slot w' fd = Some c'" using event by blast
    then obtain c1 where c1: "slot w1 fd = Some c1" "out @ pending_out c' = pending_out c1" "same_input c1 c'"
      using w1(3) by blast
    have "echoed whole c1 (rcv @ ev_in fd ev) snt"
    proof (cases "revents AND READ \<noteq> 0")
      case rd: True
      then obtain u' where u': "tcp_read_conn a (pio a) now rd (w_user w) c = Some (False, c1, u')" using w1(2) c1(1) c(1) by auto
      have "\<exists>f. pending_out c1 = pending_out c @ f \<and> f @ sds_val (c_buf c1) = sds_val (c_buf c) @ read_bytes rd \<and> (f = [] \<or> whole f)"
        using read_echo [OF assms ok _ _ _ u'] event.hyps(2) ev c(1) by simp
      then show ?thesis using echoed_read [OF c(2)] ev rd by auto
    next
      case False
      then show ?thesis using w1(2) c1(1) c ev by simp
    qed
    then show ?thesis using echoed_same_input [OF _ c1(2,3)] c' w1(1) ev by simp
  qed
qed

end

section \<open>Reachable workers\<close>

text \<open>
  A worker from its creation on: it is initialised, the dispatcher queues sockets
  and writes to the pipe, and the event loop runs callbacks, in any order.
\<close>

inductive worker_reach :: "allocator \<Rightarrow> 'u handler \<Rightarrow> nat \<Rightarrow> 'u worker \<Rightarrow> bool" for a pio B where
  init: "worker_initialize un now (Some (rfd, sfd)) (worker_new un opts name dummy u) = Some (WORKER_OK, w) \<Longrightarrow> worker_reach a pio B w"
| queued: "worker_reach a pio B w \<Longrightarrow> sk_kind s = TCP \<Longrightarrow> 0 \<le> sk_fd s \<Longrightarrow> sk_fd s < 2 ^ 30 \<Longrightarrow>
    mq_push s w = Some w' \<Longrightarrow> worker_reach a pio B w'"
| notified: "worker_reach a pio B w \<Longrightarrow> worker_notify wr msg w = (r, w') \<Longrightarrow> worker_reach a pio B w'"
| event: "worker_reach a pio B w \<Longrightarrow> event_ok B socks ev w \<Longrightarrow> worker_event a pio un socks ev w = Some (w', out) \<Longrightarrow>
    worker_reach a pio B w'"

lemma slot_cong: "w_conns w' = w_conns w \<Longrightarrow> slot w' fd = slot w fd"
  by (simp add: slot_def)

lemma slot_new: "slot (worker_new un opts nm d u) fd = None"
  by (auto simp: slot_def worker_new_def)

lemma serving_ok_init:
  assumes "worker_initialize un now (Some (rfd, sfd)) (worker_new un opts nm d u) = Some (WORKER_OK, w)"
  shows "serving_ok rx w"
proof -
  obtain io t where w: "w = (worker_new un opts nm d u)\<lparr>w_recv_fd := rfd, w_send_fd := sfd, w_pipe_watcher := Some io, w_cron_timer := Some t\<rparr>"
    using assms by (auto simp: worker_initialize_def Let_def bind_eq_Some_conv)
  have "w_conns w = w_conns (worker_new un opts nm d u)" using w by simp
  then have "slot w fd = None" for fd using slot_cong [of w "worker_new un opts nm d u" fd] slot_new by metis
  moreover have "worker_ok w" using worker_ok_new [of un opts nm d u] w by (simp add: worker_ok_def)
  ultimately show ?thesis using w lfq_rep_new [of d] by (auto simp: serving_ok_def worker_new_def)
qed

context io_handler
begin

lemma reach_serving:
  assumes "mem_ok a"
  shows "worker_reach a (pio a) B w \<Longrightarrow> serving_ok rx w"
proof (induction rule: worker_reach.induct)
  case (init un now rfd sfd opts name dummy u w)
  then show ?case by (rule serving_ok_init)
next
  case (queued w s w')
  obtain q where q: "lfq_rep (w_mq w) q" "\<forall>s \<in> set q. sk_kind s = TCP \<and> 0 \<le> sk_fd s \<and> sk_fd s < 2 ^ 30"
    using queued.IH by (auto simp: serving_ok_def)
  obtain m where m: "lfq_produce s (w_mq w) = Some m" "lfq_rep m (q @ [s])" using lq.push_rep [OF q(1)] by blast
  then have w': "w' = w\<lparr>w_mq := m\<rparr>" using queued by (simp add: mq_push_def)
  have "\<exists>q. lfq_rep m q \<and> (\<forall>s \<in> set q. sk_kind s = TCP \<and> 0 \<le> sk_fd s \<and> sk_fd s < 2 ^ 30)"
    using m(2) q(2) queued by (intro exI [of _ "q @ [s]"]) auto
  moreover have "\<And>fd. slot w' fd = slot w fd" "worker_ok w'"
    using w' m(2) queued.IH by (auto simp: slot_def worker_ok_def serving_ok_def)
  ultimately show ?case using queued.IH w' by (simp add: serving_ok_def)
next
  case (notified w wr msg r w')
  then have "w' = w \<or> w' = w\<lparr>w_pipe := w_pipe w @ [msg]\<rparr>" by (auto simp: worker_notify_def split: if_splits)
  then have "w_conns w' = w_conns w" "w_mq w' = w_mq w" "w_pipe_watcher w' = w_pipe_watcher w" "w_cron_timer w' = w_cron_timer w"
    by auto
  moreover from this(1) have "slot w' fd = slot w fd" for fd by (rule slot_cong)
  ultimately show ?case using notified.IH by (simp add: serving_ok_def worker_ok_def)
next
  case (event w socks ev un w' out)
  then show ?case using event_preserves [OF assms event.IH event.hyps(2), of un] by auto
qed

lemma read_event:
  assumes "mem_ok a" "serving_ok rx w" "slot w fd = Some c" "fd < 2 ^ 31"
    "tcp_read_conn a (pio a) now rd (w_user w) c = Some (False, c', u')" "conn_ok c'" "c_sock c' = c_sock c"
  shows "\<exists>w'. worker_event a (pio a) un socks (EvIO fd READ now rd wr) w = Some (w', []) \<and> slot w' fd = Some c'"
proof -
  have w: "worker_ok w" "sk_kind (c_sock c) = TCP" using assms(2,3) by (auto simp: serving_ok_def)
  note s = slotD [OF w(1) assms(3)]
  let ?w = "put_conn (w\<lparr>w_user := u'\<rparr>) c'"
  have "read_io a (pio a) now rd w fd = Some ?w"
    using read_io_tcp [OF w(1) s(1) assms(4), of a "pio a" now rd] w(2) assms(3,5) by (simp add: tcp_read_io_def)
  then have "worker_event a (pio a) un socks (EvIO fd READ now rd wr) w = Some (?w, [])" by (simp add: conn_io_cb_def)
  moreover have "slot ?w fd = Some c'" using put_conn_ok(2) [of "w\<lparr>w_user := u'\<rparr>" fd c c'] w(1) assms(3,6,7) by simp
  ultimately show ?thesis by blast
qed

end

end
