(* ===== verification/Simple_Worker.thy ===== *)
theory Simple_Worker
  imports Serving
begin

text \<open>
  The echo server of \<open>examples/demo/simple-tcp-server\<close>: a request is an \<open>nshead\<close>
  header (\<open>src/util/nshead.h\<close>) followed by a body of the length the header
  announces, and the reply is the request. The handler is an instance of the
  contract of the worker for clients that announce bodies of at most
  \<open>body_bound\<close> bytes. Shown are the safety of the whole worker, the integrity of
  the echoed stream, the reply to one request, and three ways in which the server
  does not answer.
\<close>

section \<open>The header\<close>

(* src/src/util/nshead.h:7-16, nshead_t *)
record nshead_t =
  nh_id :: nat
  nh_version :: nat
  nh_log_id :: nat
  nh_provider :: string
  nh_magic_num :: nat
  nh_reserved :: nat
  nh_body_len :: nat

(* src/src/util/nshead.h:6-6, NSHEAD_MAGICNUM *)
definition NSHEAD_MAGICNUM :: nat where
  "NSHEAD_MAGICNUM = 0xfb709394"

definition sizeof_nshead :: nat where
  "sizeof_nshead = 36"

text \<open>\<open>(nshead_t*)p\<close>: the structure as it lies in memory, little-endian and without padding.\<close>

definition nshead_of :: "string \<Rightarrow> nshead_t" where
  "nshead_of s = \<lparr>nh_id = le_nat (take 2 s), nh_version = le_nat (take 2 (drop 2 s)), nh_log_id = le_nat (take 4 (drop 4 s)),
     nh_provider = take 16 (drop 8 s), nh_magic_num = le_nat (take 4 (drop 24 s)),
     nh_reserved = le_nat (take 4 (drop 28 s)), nh_body_len = le_nat (take 4 (drop 32 s))\<rparr>"

definition nshead_at :: "string \<Rightarrow> nshead_t option" where
  "nshead_at b = do { s \<leftarrow> load_at b 0 sizeof_nshead; Some (nshead_of s) }"

section \<open>The handler\<close>

abbreviation (input) STATE_IDLE :: int where "STATE_IDLE \<equiv> 0"
abbreviation (input) STATE_HEAD :: int where "STATE_HEAD \<equiv> 1"
abbreviation (input) STATE_BODY :: int where "STATE_BODY \<equiv> 2"

(* src/examples/demo/simple-tcp-server/simple_worker.cpp:68-83, SimpleWorker::process_request *)
definition simple_process_request :: "allocator \<Rightarrow> conn \<Rightarrow> string \<Rightarrow> string \<Rightarrow> (int \<times> conn) option" where
  "simple_process_request a c header body = do {
     buf \<leftarrow> malloc_block a (length header + length body);
     buf \<leftarrow> store_at buf 0 header;
     buf \<leftarrow> store_at buf (length header) body;
     (_, c) \<leftarrow> add_reply c buf;
     Some (WORKER_OK, c) }"

(* src/examples/demo/simple-tcp-server/simple_worker.cpp:31-66, SimpleWorker::process_io_buffer *)
definition simple_process_io_buffer :: "allocator \<Rightarrow> 'u handler" where
  "simple_process_io_buffer a u c =
     (if c_state c = STATE_IDLE then Some (WORKER_OK, conn_reset c STATE_HEAD (int sizeof_nshead), u)
      else if c_state c = STATE_HEAD then do {
        hdr \<leftarrow> nshead_at (sds_buf (c_buf c));
        if nh_magic_num hdr \<noteq> NSHEAD_MAGICNUM then Some (WORKER_ERROR, c, u)
        else Some (WORKER_OK, expect_next c STATE_BODY (int (nh_body_len hdr)), u) }
      else if c_state c = STATE_BODY then do {
        hdr \<leftarrow> nshead_at (sds_buf (c_buf c));
        header \<leftarrow> load_at (sds_buf (c_buf c)) 0 sizeof_nshead;
        body \<leftarrow> load_at (sds_buf (c_buf c)) sizeof_nshead (nh_body_len hdr);
        (ret, c) \<leftarrow> simple_process_request a c header body;
        if ret \<noteq> WORKER_OK then Some (ret, c, u)
        else do { c \<leftarrow> shrink_processed c STATE_HEAD (int sizeof_nshead); Some (WORKER_OK, c, u) } }
      else Some (WORKER_OK, c, u))"

section \<open>Receive states and frames\<close>

text \<open>A complete request: a header with the magic number and as many bytes as it announces.\<close>

definition is_frame :: "string \<Rightarrow> bool" where
  "is_frame f \<longleftrightarrow> sizeof_nshead \<le> length f \<and> nh_magic_num (nshead_of f) = NSHEAD_MAGICNUM \<and>
     length f = sizeof_nshead + nh_body_len (nshead_of f)"

definition body_bound :: nat where
  "body_bound = 2 ^ 29"

text \<open>
  Waiting for a header, the buffer holds at most what one read beyond the last
  request can leave; waiting for a body, it starts with an accepted header.
\<close>

definition simple_rx :: "int \<Rightarrow> int \<Rightarrow> int \<Rightarrow> string \<Rightarrow> bool" where
  "simple_rx st e p v \<longleftrightarrow>
     (st = STATE_IDLE \<and> e = 1 \<and> p = 0 \<and> v = []) \<or>
     (st = STATE_HEAD \<and> e = 36 \<and> p = 0 \<and> length v \<le> body_bound) \<or>
     (st = STATE_BODY \<and> p = 36 \<and> 36 \<le> length v \<and> length v \<le> body_bound + 36 \<and>
        nh_magic_num (nshead_of v) = NSHEAD_MAGICNUM \<and> e = int (nh_body_len (nshead_of v)))"

lemma nshead_of_append:
  assumes "36 \<le> length v"
  shows "nshead_of (v @ w) = nshead_of v" "nshead_of (take 36 v) = nshead_of v"
  using assms by (simp_all add: nshead_of_def drop_take min_def)

lemma nshead_of_take: "36 \<le> n \<Longrightarrow> 36 \<le> length v \<Longrightarrow> nshead_of (take n v) = nshead_of v"
  using nshead_of_append(2) [of "take n v"] nshead_of_append(2) [of v] by (simp add: min_def)

lemma nshead_at_ok:
  assumes "sds_ok b" "36 \<le> length (sds_val b)"
  shows "nshead_at (sds_buf b) = Some (nshead_of (sds_val b))"
proof -
  obtain r where r: "sds_buf b = sds_val b @ NUL # r" using assms(1) by (rule sds_split)
  have "take 36 (sds_buf b) = take 36 (sds_val b)" "36 \<le> length (sds_buf b)" using assms(2) r by simp_all
  then show ?thesis using nshead_of_append(2) [OF assms(2)] by (simp add: nshead_at_def sizeof_nshead_def)
qed

lemma load_val:
  assumes "sds_ok b" "i + n \<le> length (sds_val b)"
  shows "load_at (sds_buf b) i n = Some (take n (drop i (sds_val b)))"
proof -
  obtain r where r: "sds_buf b = sds_val b @ NUL # r" using assms(1) by (rule sds_split)
  have "take n (drop i (sds_buf b)) = take n (drop i (sds_val b))" using r assms(2) by simp
  then show ?thesis using r assms(2) by simp
qed

lemma simple_process_request_ok:
  assumes "mem_ok a" "conn_ok c" "Suc (length (c_replies c)) < 2 ^ 31" "length header + length body < 2 ^ 31"
  shows "\<exists>c' n e. simple_process_request a c header body = Some (WORKER_OK, c') \<and> conn_ok c' \<and>
    pending_out c' = pending_out c @ header @ body \<and>
    c' = c\<lparr>c_replies := c_replies c @ [header @ body], c_reply_n := n, c_watcher := Some e\<rparr>"
proof -
  obtain m where m: "malloc_block a (length header + length body) = Some m" "length m = length header + length body"
    using malloc_block_ok [OF assms(1)] by blast
  have "store_at m 0 header = Some (blit m 0 header)" using m(2) by simp
  moreover have "store_at (blit m 0 header) (length header) body = Some (header @ body)"
    using m(2) by (simp add: blit_def)
  moreover obtain n c' e where "add_reply c (header @ body) = Some (n, c')" "conn_ok c'"
      "pending_out c' = pending_out c @ header @ body"
      "c' = c\<lparr>c_replies := c_replies c @ [header @ body], c_reply_n := n, c_watcher := Some e\<rparr>"
    using add_reply_ok [OF assms(2,3), of "header @ body"] assms(4) by auto
  ultimately show ?thesis using m(1) by (simp add: simple_process_request_def) blast
qed

section \<open>What the handler does in each state\<close>

lemma simple_idle:
  "c_state c = STATE_IDLE \<Longrightarrow> simple_process_io_buffer a u c = Some (WORKER_OK, conn_reset c STATE_HEAD 36, u)"
  by (simp add: simple_process_io_buffer_def sizeof_nshead_def)

lemma simple_head:
  assumes "conn_ok c" "c_state c = STATE_HEAD" "36 \<le> length (sds_val (c_buf c))"
  shows "simple_process_io_buffer a u c =
    (if nh_magic_num (nshead_of (sds_val (c_buf c))) \<noteq> NSHEAD_MAGICNUM then Some (WORKER_ERROR, c, u)
     else Some (WORKER_OK, expect_next c STATE_BODY (int (nh_body_len (nshead_of (sds_val (c_buf c))))), u))"
  using nshead_at_ok [OF conn_ok_buf [OF assms(1)] assms(3)] assms(2) by (simp add: simple_process_io_buffer_def)

lemma simple_body:
  assumes "mem_ok a" "conn_ok c" "c_state c = STATE_BODY" "c_processed c = 36" "c_expected c = int n"
    "n = nh_body_len (nshead_of (sds_val (c_buf c)))" "36 + n \<le> length (sds_val (c_buf c))"
    "Suc (length (c_replies c)) < 2 ^ 31"
  shows "\<exists>c'. simple_process_io_buffer a u c = Some (WORKER_OK, c', u) \<and> conn_ok c' \<and> c_sock c' = c_sock c \<and>
    pending_out c' = pending_out c @ take (36 + n) (sds_val (c_buf c)) \<and> sds_val (c_buf c') = drop (36 + n) (sds_val (c_buf c)) \<and>
    c_replies c' = c_replies c @ [take (36 + n) (sds_val (c_buf c))] \<and> c_written c' = c_written c \<and>
    c_state c' = STATE_HEAD \<and> c_expected c' = 36 \<and> c_processed c' = 0"
proof -
  let ?x = "sds_val (c_buf c)" and ?b = "sds_buf (c_buf c)"
  have ok: "sds_ok (c_buf c)" using assms(2) by (rule conn_ok_buf)
  have lx: "length ?x < 2 ^ 31" using ok by (auto simp: sds_ok_def length_sds_val nat_less_iff)
  have hd: "nshead_at ?b = Some (nshead_of ?x)" "load_at ?b 0 36 = Some (take 36 ?x)" "load_at ?b 36 n = Some (take n (drop 36 ?x))"
    using nshead_at_ok [OF ok] load_val [OF ok, of 0 36] load_val [OF ok, of 36 n] assms(7) by simp_all
  have app: "take 36 ?x @ take n (drop 36 ?x) = take (36 + n) ?x" by (simp add: take_add)
  have "length (take 36 ?x) + length (take n (drop 36 ?x)) < 2 ^ 31" using lx assms(7) by simp
  then obtain c1 m e where c1: "simple_process_request a c (take 36 ?x) (take n (drop 36 ?x)) = Some (WORKER_OK, c1)" "conn_ok c1"
      "pending_out c1 = pending_out c @ take (36 + n) ?x"
      "c1 = c\<lparr>c_replies := c_replies c @ [take (36 + n) ?x], c_reply_n := m, c_watcher := Some e\<rparr>"
    using simple_process_request_ok [OF assms(1,2,8), of "take 36 ?x" "take n (drop 36 ?x)"] app by auto
  have f: "c_sock c1 = c_sock c" "c_buf c1 = c_buf c" "c_processed c1 = 36" "c_expected c1 = int n" "c_written c1 = c_written c"
      "c_replies c1 = c_replies c @ [take (36 + n) ?x]"
    using c1(4) assms(4,5) by simp_all
  obtain c' where c': "shrink_processed c1 STATE_HEAD 36 = Some c'" "conn_ok c'" "c_sock c' = c_sock c1" "c_replies c' = c_replies c1"
      "c_written c' = c_written c1" "c_state c' = STATE_HEAD" "c_expected c' = 36" "c_processed c' = 0"
      "sds_val (c_buf c') = drop (nat (c_processed c1 + c_expected c1)) (sds_val (c_buf c1))"
    using shrink_processed_ok [OF c1(2), of STATE_HEAD 36] f assms(7) by auto
  have "nat (c_processed c1 + c_expected c1) = 36 + n" using f by simp
  then have v: "sds_val (c_buf c') = drop (36 + n) ?x" using c'(9) f(2) by simp
  have p: "pending_out c' = pending_out c @ take (36 + n) ?x" using c1(3) c'(4,5) by (simp add: pending_out_def)
  have "simple_process_io_buffer a u c = Some (WORKER_OK, c', u)"
    using hd c1(1) c'(1) assms(3,6) by (simp add: simple_process_io_buffer_def sizeof_nshead_def)
  then show ?thesis using c' f v p by simp
qed

section \<open>The contract\<close>

lemma simple_rx_bounds: "simple_rx st e p v \<Longrightarrow> 0 \<le> e \<and> 0 \<le> p \<and> p \<le> int (length v) \<and> length v + body_bound \<le> sds_limit"
  by (auto simp: simple_rx_def body_bound_def sds_limit_def)

lemma simple_rx_wait:
  assumes "simple_rx st e p v" "e \<le> int body_bound" "length bs \<le> nat e" "int (length (v @ bs)) - p < e"
  shows "simple_rx st e p (v @ bs)"
  using assms nshead_of_append(1) [of v bs] by (auto simp: simple_rx_def body_bound_def)

lemma simple_step:
  assumes "mem_ok a" "conn_ok c" "sds_val (c_buf c) = v @ bs" "simple_rx (c_state c) (c_expected c) (c_processed c) v"
    "c_expected c \<le> int body_bound" "length bs \<le> nat (c_expected c)"
    "c_expected c \<le> int (length (v @ bs)) - c_processed c" "Suc (length (c_replies c)) < 2 ^ 31"
  shows "\<exists>r c' f. simple_process_io_buffer a u c = Some (r, c', u) \<and> conn_ok c' \<and> c_sock c' = c_sock c \<and>
    (r = WORKER_OK \<longrightarrow> rx_of simple_rx c' \<and> pending_out c' = pending_out c @ f \<and> f @ sds_val (c_buf c') = v @ bs \<and>
       (f = [] \<or> is_frame f))"
proof -
  consider (idle) "c_state c = STATE_IDLE" "c_expected c = 1" "v = []"
    | (head) "c_state c = STATE_HEAD" "c_expected c = 36" "c_processed c = 0" "length v \<le> body_bound"
    | (body) "c_state c = STATE_BODY" "c_processed c = 36" "36 \<le> length v" "length v \<le> body_bound + 36"
        "nh_magic_num (nshead_of v) = NSHEAD_MAGICNUM" "c_expected c = int (nh_body_len (nshead_of v))"
    using assms(4) by (auto simp: simple_rx_def)
  then show ?thesis
  proof cases
    case idle
    have "length bs \<le> 1" using assms(6) idle(2) by simp
    then have "rx_of simple_rx (conn_reset c STATE_HEAD 36)"
      using assms(3) idle(3) by (simp add: rx_of_def simple_rx_def body_bound_def)
    then show ?thesis using simple_idle [OF idle(1)] assms(2,3) idle
      by (intro exI [of _ WORKER_OK] exI [of _ "conn_reset c STATE_HEAD 36"] exI [of _ "[]"]) simp_all
  next
    case head
    let ?c = "expect_next c STATE_BODY (int (nh_body_len (nshead_of (v @ bs))))"
    have l: "36 \<le> length (v @ bs)" "length (v @ bs) \<le> body_bound + 36" using assms(6,7) head by simp_all
    note pio = simple_head [OF assms(2) head(1), of a u, unfolded assms(3), OF l(1)]
    show ?thesis
    proof (cases "nh_magic_num (nshead_of (v @ bs)) = NSHEAD_MAGICNUM")
      case True
      have "rx_of simple_rx ?c" using l True assms(3) head(2,3) by (simp add: rx_of_def simple_rx_def)
      then show ?thesis using pio True assms(2,3)
        by (intro exI [of _ WORKER_OK] exI [of _ ?c] exI [of _ "[]"]) simp_all
    next
      case False
      then show ?thesis using pio assms(2) by simp
    qed
  next
    case body
    let ?n = "nh_body_len (nshead_of v)"
    have n: "?n = nh_body_len (nshead_of (sds_val (c_buf c)))" "36 + ?n \<le> length (sds_val (c_buf c))"
      using assms(3,7) body nshead_of_append(1) [OF body(3), of bs] by simp_all
    obtain c' where c': "simple_process_io_buffer a u c = Some (WORKER_OK, c', u)" "conn_ok c'" "c_sock c' = c_sock c"
        "pending_out c' = pending_out c @ take (36 + ?n) (v @ bs)" "sds_val (c_buf c') = drop (36 + ?n) (v @ bs)"
        "c_state c' = STATE_HEAD" "c_expected c' = 36" "c_processed c' = 0"
      using simple_body [OF assms(1,2) body(1,2,6) n assms(8), of u] unfolding assms(3) by blast
    have "length (drop (36 + ?n) (v @ bs)) \<le> body_bound" using body(4,6) assms(6) by simp
    then have "rx_of simple_rx c'" using c' by (simp add: rx_of_def simple_rx_def)
    moreover have "is_frame (take (36 + ?n) (v @ bs))"
    proof -
      have "nshead_of (take (36 + ?n) (v @ bs)) = nshead_of v"
        using nshead_of_take [of "36 + ?n" "v @ bs"] nshead_of_append(1) [OF body(3), of bs] body(3) by simp
      then show ?thesis using n(2) [unfolded assms(3)] body(5) by (simp add: is_frame_def sizeof_nshead_def del: take_append)
    qed
    ultimately show ?thesis using c' by (intro exI [of _ WORKER_OK] exI [of _ c'] exI [of _ "take (36 + ?n) (v @ bs)"]) (simp_all only: append_take_drop_id simp_thms)
  qed
qed

interpretation sw: echo_handler simple_process_io_buffer simple_rx body_bound is_frame
proof unfold_locales
  show "simple_rx 0 1 0 []" by (simp add: simple_rx_def)
next
  fix st e p v assume "simple_rx st e p v"
  then show "0 \<le> e \<and> 0 \<le> p \<and> p \<le> int (length v) \<and> length v + body_bound \<le> sds_limit" by (rule simple_rx_bounds)
next
  fix st e p v bs
  assume "simple_rx st e p v" "e \<le> int body_bound" "length bs \<le> nat e" "int (length (v @ bs)) - p < e"
  then show "simple_rx st e p (v @ bs)" by (rule simple_rx_wait)
next
  fix a c v bs and u :: 'a
  assume "mem_ok a" "conn_ok c" "sds_val (c_buf c) = v @ bs" "simple_rx (c_state c) (c_expected c) (c_processed c) v"
    "c_expected c \<le> int body_bound" "length bs \<le> nat (c_expected c)"
    "c_expected c \<le> int (length (v @ bs)) - c_processed c" "Suc (length (c_replies c)) < 2 ^ 31"
  note step = simple_step [OF this, of u]
  show "\<exists>r c' u'. simple_process_io_buffer a u c = Some (r, c', u') \<and> conn_ok c' \<and> c_sock c' = c_sock c \<and>
      (r = WORKER_OK \<longrightarrow> rx_of simple_rx c')"
    using step by (elim exE conjE) blast
  fix c' u' assume "simple_process_io_buffer a u c = Some (WORKER_OK, c', u')"
  then show "\<exists>f. pending_out c' = pending_out c @ f \<and> f @ sds_val (c_buf c') = v @ bs \<and> (f = [] \<or> is_frame f)"
    using step by auto
qed

section \<open>One request\<close>

text \<open>The receive state of a connection together with the replies it has queued.\<close>

definition conn_at :: "conn \<Rightarrow> int \<Rightarrow> int \<Rightarrow> int \<Rightarrow> string \<Rightarrow> string list \<Rightarrow> bool" where
  "conn_at c st e p v rs \<longleftrightarrow> conn_ok c \<and> c_state c = st \<and> c_expected c = e \<and> c_processed c = p \<and>
     sds_val (c_buf c) = v \<and> c_replies c = rs \<and> c_written c = 0"

lemma conn_at_read:
  assumes "mem_ok a" "conn_at c st e p v rs" "0 \<le> e" "0 \<le> p" "p \<le> int (length v)" "length v + nat e \<le> sds_limit"
    "bs \<noteq> []" "length bs \<le> nat e" "e \<le> int (length (v @ bs)) - p"
  shows "\<exists>c1. conn_at c1 st e p (v @ bs) rs \<and> c_sock c1 = c_sock c \<and>
    tcp_read_conn a pio now (RdOk bs) u c = do { (ret, c, u) \<leftarrow> pio u c1; Some (ret \<noteq> WORKER_OK, c, u) }"
proof -
  note c = assms(2) [unfolded conn_at_def]
  have "tcp_readable c (RdOk bs)" using c assms(3-6,8) by (simp add: tcp_readable_def conn_ok_buf)
  then obtain b where b: "sds_ok b" "sds_val b = v @ bs" "tcp_read_conn a pio now (RdOk bs) u c = after_read pio now (RdOk bs) u c b"
    using tcp_read_conn_eq [OF assms(1), of c "RdOk bs" pio now u] c by auto
  have "conn_at (c\<lparr>c_buf := b, c_last := now\<rparr>) st e p (v @ bs) rs"
    using c b conn_ok_set_buf [of c b] by (simp add: conn_at_def)
  then show ?thesis using b c assms(7,9) by (intro exI [of _ "c\<lparr>c_buf := b, c_last := now\<rparr>"]) (simp add: after_read_def)
qed

lemma read_idle:
  assumes "mem_ok a" "conn_at c STATE_IDLE 1 0 [] []"
  shows "\<exists>c'. tcp_read_conn a (simple_process_io_buffer a) now (RdOk [x]) u c = Some (False, c', u) \<and>
    conn_at c' STATE_HEAD 36 0 [x] [] \<and> c_sock c' = c_sock c"
proof -
  obtain c1 where c1: "conn_at c1 STATE_IDLE 1 0 [x] []" "c_sock c1 = c_sock c"
      "tcp_read_conn a (simple_process_io_buffer a) now (RdOk [x]) u c =
       do { (ret, c, u) \<leftarrow> simple_process_io_buffer a u c1; Some (ret \<noteq> WORKER_OK, c, u) }"
    using conn_at_read [OF assms, of "[x]" "simple_process_io_buffer a" now u] by (auto simp: sds_limit_def)
  have "simple_process_io_buffer a u c1 = Some (WORKER_OK, conn_reset c1 STATE_HEAD 36, u)"
    using c1(1) by (intro simple_idle) (simp add: conn_at_def)
  moreover have "conn_at (conn_reset c1 STATE_HEAD 36) STATE_HEAD 36 0 [x] []" "c_sock (conn_reset c1 STATE_HEAD 36) = c_sock c"
    using c1(1,2) by (simp_all add: conn_at_def)
  ultimately show ?thesis using c1(3) by simp
qed

lemma read_head:
  assumes "mem_ok a" "conn_at c STATE_HEAD 36 0 v []" "length v \<le> body_bound" "bs \<noteq> []" "length bs \<le> 36" "36 \<le> length (v @ bs)"
    "nh_magic_num (nshead_of (v @ bs)) = NSHEAD_MAGICNUM"
  shows "\<exists>c'. tcp_read_conn a (simple_process_io_buffer a) now (RdOk bs) u c = Some (False, c', u) \<and>
    conn_at c' STATE_BODY (int (nh_body_len (nshead_of (v @ bs)))) 36 (v @ bs) [] \<and> c_sock c' = c_sock c"
proof -
  obtain c1 where c1: "conn_at c1 STATE_HEAD 36 0 (v @ bs) []" "c_sock c1 = c_sock c"
      "tcp_read_conn a (simple_process_io_buffer a) now (RdOk bs) u c =
       do { (ret, c, u) \<leftarrow> simple_process_io_buffer a u c1; Some (ret \<noteq> WORKER_OK, c, u) }"
    using conn_at_read [OF assms(1,2) _ _ _ _ assms(4), of "simple_process_io_buffer a" now u] assms(3,5,6)
    by (auto simp: sds_limit_def body_bound_def)
  let ?c = "expect_next c1 STATE_BODY (int (nh_body_len (nshead_of (v @ bs))))"
  have "simple_process_io_buffer a u c1 = Some (WORKER_OK, ?c, u)"
    using simple_head [of c1 a u] c1(1) assms(6,7) by (simp add: conn_at_def)
  moreover have "conn_at ?c STATE_BODY (int (nh_body_len (nshead_of (v @ bs)))) 36 (v @ bs) []" "c_sock ?c = c_sock c"
    using c1(1,2) by (simp_all add: conn_at_def)
  ultimately show ?thesis using c1(3) by simp
qed

lemma read_body:
  assumes "mem_ok a" "conn_at c STATE_BODY (int n) 36 v []" "n = nh_body_len (nshead_of v)" "36 \<le> length v"
    "length v \<le> body_bound + 36" "n \<le> body_bound" "bs \<noteq> []" "length bs \<le> n" "36 + n \<le> length (v @ bs)"
  shows "\<exists>c'. tcp_read_conn a (simple_process_io_buffer a) now (RdOk bs) u c = Some (False, c', u) \<and>
    conn_at c' STATE_HEAD 36 0 (drop (36 + n) (v @ bs)) [take (36 + n) (v @ bs)] \<and> c_sock c' = c_sock c"
proof -
  obtain c1 where c1: "conn_at c1 STATE_BODY (int n) 36 (v @ bs) []" "c_sock c1 = c_sock c"
      "tcp_read_conn a (simple_process_io_buffer a) now (RdOk bs) u c =
       do { (ret, c, u) \<leftarrow> simple_process_io_buffer a u c1; Some (ret \<noteq> WORKER_OK, c, u) }"
    using conn_at_read [OF assms(1,2) _ _ _ _ assms(7), of "simple_process_io_buffer a" now u] assms(4-6,8,9)
    by (auto simp: sds_limit_def body_bound_def)
  note f = c1(1) [unfolded conn_at_def]
  have n: "n = nh_body_len (nshead_of (sds_val (c_buf c1)))" "36 + n \<le> length (sds_val (c_buf c1))"
    using f assms(3,9) nshead_of_append(1) [OF assms(4), of bs] by simp_all
  obtain c' where "simple_process_io_buffer a u c1 = Some (WORKER_OK, c', u)" "conn_ok c'" "c_sock c' = c_sock c1"
      "sds_val (c_buf c') = drop (36 + n) (sds_val (c_buf c1))" "c_replies c' = c_replies c1 @ [take (36 + n) (sds_val (c_buf c1))]"
      "c_written c' = c_written c1" "c_state c' = STATE_HEAD" "c_expected c' = 36" "c_processed c' = 0"
    using simple_body [OF assms(1) _ _ _ _ n, of u] f by auto
  then show ?thesis using c1 f by (simp add: conn_at_def)
qed

text \<open>A readable event that delivers some bytes, and a writable one whose kernel takes everything.\<close>

definition takes_all :: "nat \<Rightarrow> nat \<Rightarrow> os_write" where
  "takes_all i n = WrOk n"

definition delivers :: "int \<Rightarrow> int \<Rightarrow> string \<Rightarrow> wevent" where
  "delivers fd now bs = EvIO fd READ now (RdOk bs) takes_all"

definition drains :: "int \<Rightarrow> int \<Rightarrow> wevent" where
  "drains fd now = EvIO fd WRITE now RdAgain takes_all"

abbreviation simple_event :: "allocator \<Rightarrow> unset \<Rightarrow> sock option list \<Rightarrow> wevent \<Rightarrow> 'u worker \<Rightarrow> ('u worker \<times> string) option" where
  "simple_event a \<equiv> worker_event a (simple_process_io_buffer a)"

lemma write_ok_takes_all: "write_ok takes_all"
  by (simp add: write_ok_def takes_all_def)

lemma deliver_step:
  assumes "mem_ok a" "serving_ok simple_rx w" "slot w fd = Some c" "fd < 2 ^ 31" "nat fd < length socks"
    "c_expected c \<le> int body_bound" "length bs \<le> nat (c_expected c)" "c_replies c = []"
    "tcp_read_conn a (simple_process_io_buffer a) now (RdOk bs) (w_user w) c = Some (False, c', u')" "conn_ok c'" "c_sock c' = c_sock c"
  shows "\<exists>w'. simple_event a un socks (delivers fd now bs) w = Some (w', []) \<and> slot w' fd = Some c' \<and> serving_ok simple_rx w'"
proof -
  have w: "worker_ok w" using assms(2) by (simp add: serving_ok_def)
  note s = slotD [OF w assms(3)]
  have "event_ok body_bound socks (delivers fd now bs) w"
    using assms(3-8) s(1) write_ok_takes_all by (simp add: delivers_def)
  from sw.event_preserves [OF assms(1,2) this, of un] obtain w2 out
    where "simple_event a un socks (delivers fd now bs) w = Some (w2, out)" "serving_ok simple_rx w2" by blast
  then show ?thesis
    using sw.read_event [OF assms(1-4,9-11), of un socks takes_all] by (auto simp: delivers_def)
qed

lemma fresh_conn_at: "fresh_conn s c \<Longrightarrow> conn_ok c \<Longrightarrow> sk_kind s = TCP \<Longrightarrow> conn_at c STATE_IDLE 1 0 [] []"
  by (simp add: fresh_conn_def conn_at_def)

lemma first_byte:
  assumes "mem_ok a" "serving_ok simple_rx w" "slot w fd = Some c" "fresh_conn s c" "sk_kind s = TCP" "fd < 2 ^ 31" "nat fd < length socks"
  shows "\<exists>w1 c1. simple_event a un socks (delivers fd now [x]) w = Some (w1, []) \<and> slot w1 fd = Some c1 \<and> serving_ok simple_rx w1 \<and>
    conn_at c1 STATE_HEAD 36 0 [x] []"
proof -
  have "worker_ok w" using assms(2) by (simp add: serving_ok_def)
  then have "conn_ok c" using slotD(5) assms(3) by blast
  then have at: "conn_at c STATE_IDLE 1 0 [] []" using fresh_conn_at assms(4,5) by blast
  obtain c1 where c1: "tcp_read_conn a (simple_process_io_buffer a) now (RdOk [x]) (w_user w) c = Some (False, c1, w_user w)"
      "conn_at c1 STATE_HEAD 36 0 [x] []" "c_sock c1 = c_sock c"
    using read_idle [OF assms(1) at, of now x "w_user w"] by blast
  then show ?thesis
    using deliver_step [OF assms(1-3,6,7) _ _ _ c1(1) _ c1(3), of un] at by (auto simp: conn_at_def body_bound_def)
qed

lemma header_read:
  assumes "mem_ok a" "serving_ok simple_rx w" "slot w fd = Some c" "conn_at c STATE_HEAD 36 0 v []" "fd < 2 ^ 31" "nat fd < length socks"
    "length v \<le> body_bound" "bs \<noteq> []" "length bs \<le> 36" "36 \<le> length (v @ bs)" "nh_magic_num (nshead_of (v @ bs)) = NSHEAD_MAGICNUM"
  shows "\<exists>w1 c1. simple_event a un socks (delivers fd now bs) w = Some (w1, []) \<and> slot w1 fd = Some c1 \<and> serving_ok simple_rx w1 \<and>
    conn_at c1 STATE_BODY (int (nh_body_len (nshead_of (v @ bs)))) 36 (v @ bs) []"
proof -
  obtain c1 where c1: "tcp_read_conn a (simple_process_io_buffer a) now (RdOk bs) (w_user w) c = Some (False, c1, w_user w)"
      "conn_at c1 STATE_BODY (int (nh_body_len (nshead_of (v @ bs)))) 36 (v @ bs) []" "c_sock c1 = c_sock c"
    using read_head [OF assms(1,4,7-11), of now "w_user w"] by blast
  then show ?thesis
    using deliver_step [OF assms(1-3,5,6) _ _ _ c1(1) _ c1(3), of un] assms(4,9) by (auto simp: conn_at_def body_bound_def)
qed

lemma frame_parts:
  assumes "is_frame f"
  shows "36 \<le> length f" "nh_magic_num (nshead_of f) = NSHEAD_MAGICNUM" "length f = 36 + nh_body_len (nshead_of f)"
    "[hd f] @ take 35 (tl f) = take 36 f" "nshead_of (take 36 f) = nshead_of f" "length (take 35 (tl f)) = 35"
proof -
  show f: "36 \<le> length f" "nh_magic_num (nshead_of f) = NSHEAD_MAGICNUM" "length f = 36 + nh_body_len (nshead_of f)"
    using assms by (simp_all add: is_frame_def sizeof_nshead_def)
  show "[hd f] @ take 35 (tl f) = take 36 f" "length (take 35 (tl f)) = 35" using f(1) by (cases f; simp)+
  show "nshead_of (take 36 f) = nshead_of f" using f(1) by (rule nshead_of_append(2))
qed

lemma drain_one:
  assumes "serving_ok simple_rx w" "slot w fd = Some c" "conn_at c st e p v [f]" "f \<noteq> []" "length f < 2 ^ 31" "fd < 2 ^ 31"
    "nat fd < length socks" "socks ! nat fd \<noteq> None"
  shows "\<exists>w'. simple_event a un socks (drains fd now) w = Some (w', f)"
proof -
  have w: "worker_ok w" "sk_kind (c_sock c) = TCP" using assms(1,2) by (auto simp: serving_ok_def)
  note s = slotD [OF w(1) assms(2)]
  note c = assms(3) [unfolded conn_at_def]
  let ?c = "c\<lparr>c_replies := [], c_reply_n := 0, c_written := 0\<rparr>"
  have n: "c_reply_n c = 1" using c by (simp add: conn_ok_def)
  have loop: "tcp_write_loop takes_all 0 c [] = Some (WrDone, ?c, f)"
    using c n assms(4,5) by (subst tcp_write_loop.simps, subst tcp_write_loop.simps) (simp add: takes_all_def Let_def)
  have "conn_ok ?c" using c by (auto simp: conn_ok_def replies_fit_def watching_def)
  then obtain io where io: "disable_events (?c\<lparr>c_last := now\<rparr>) WRITE = Some (?c\<lparr>c_last := now, c_watcher := Some io\<rparr>)"
    using disable_write_ok [of "?c\<lparr>c_last := now\<rparr>"] by auto
  have "tcp_write_io takes_all now w c = Some (put_conn w (?c\<lparr>c_last := now, c_watcher := Some io\<rparr>), f)"
    using loop io by (simp add: tcp_write_io_def)
  moreover have "\<And>d. slot w fd = Some d \<Longrightarrow> sk_kind (c_sock d) = TCP" using w(2) assms(2) by simp
  ultimately have "write_io socks takes_all now w fd = Some (put_conn w (?c\<lparr>c_last := now, c_watcher := Some io\<rparr>), f)"
    using write_io_tcp [OF w(1) s(1) assms(6) _ assms(7)] assms(2,8) by simp
  then show ?thesis by (simp add: drains_def conn_io_cb_def)
qed

section \<open>Announcing more than an int can count\<close>

lemma s32_wrap: "2 ^ 31 \<le> e \<Longrightarrow> e < 2 ^ 32 \<Longrightarrow> s32 e = e - 2 ^ 32"
proof -
  assume e: "2 ^ 31 \<le> e" "e < 2 ^ 32"
  have "take_bit 32 (e + 2 ^ 31) = e + 2 ^ 31 - 2 ^ 32"
    unfolding take_bit_eq_mod using e mod_add_self2 [of "e + 2 ^ 31 - 2 ^ 32" "2 ^ 32 :: int"] by (simp add: add.commute)
  then show ?thesis by (simp add: s32_def signed_take_bit_eq_take_bit_shift)
qed

lemma huge_read_none:
  assumes "sds_ok b" "length (sds_val b) \<le> 2 ^ 20" "2 ^ 31 \<le> e" "e \<le> 2 ^ 32 - 2 ^ 22" "\<forall>n \<ge> 2 ^ 63. \<not> hs_ok a n"
  shows "sdsMakeRoomFor a b (u64 (s32 e)) = None"
proof -
  let ?l = "int (length (sds_val b))" and ?add = "e - 2 ^ 32 + 2 ^ 64"
  have add: "u64 (s32 e) = ?add" using s32_wrap [of e] u64_neg [of "e - 2 ^ 32"] assms(3,4) by simp
  have l: "sdslen b = ?l" "sdsavail b < 2 ^ 31" "0 \<le> ?l" "?l \<le> 2 ^ 20"
    using sdslen_val [OF assms(1)] sdsavail_free [OF assms(1)] assms(1,2) by (auto simp: sds_ok_def)
  define N where "N = ?l + ?add"
  have N: "2 ^ 63 \<le> N" "N + 2 ^ 20 + 9 < 2 ^ 64" using l assms(3,4) by (simp_all add: N_def)
  have n: "u64 N = N" "u64 (N + 2 ^ 20) = N + 2 ^ 20" "u64 (8 + (N + 2 ^ 20) + 1) = 8 + (N + 2 ^ 20) + 1"
    by (rule u64_id; use N in simp)+
  have big: "\<not> N < SDS_MAX_PREALLOC" "\<not> ?add \<le> sdsavail b"
    using N l assms(3,4) by (simp_all add: SDS_MAX_PREALLOC_def)
  have room: "sds_room (N + 2 ^ 20) = nat (N + 2 ^ 20 + 1)" using n(3) by (simp add: sds_room_def sizeof_sdshdr_def)
  have "2 ^ 63 \<le> nat (N + 2 ^ 20 + 1)" using N(1) by (simp add: le_nat_iff)
  then have r: "realloc_block a (sds_buf b) (nat (N + 2 ^ 20 + 1)) = None" using assms(5) by (simp add: realloc_block_def)
  have pre: "SDS_MAX_PREALLOC = 2 ^ 20" by (simp add: SDS_MAX_PREALLOC_def)
  show ?thesis
    unfolding sdsMakeRoomFor_def add l(1) Let_def N_def [symmetric] n(1)
    unfolding if_not_P [OF big(1)] if_not_P [OF big(2)] unfolding pre n(2) room r by simp
qed

section \<open>A running server\<close>

definition demo_unset :: unset where
  "demo_unset = \<lparr>un_last = 0, un_fd = 0, un_events = 0, un_at = 0, un_repeat = 0\<rparr>"

definition demo_sock :: sock where
  "demo_sock = \<lparr>sk_kind = TCP, sk_fd = 7, sk_local = \<lparr>ip_str = [], ip_port = 0\<rparr>\<rparr>"

definition demo_socks :: "sock option list" where
  "demo_socks = replicate 8 (Some demo_sock)"

definition mk_frame :: "string \<Rightarrow> string" where
  "mk_frame body = replicate 24 NUL @ le_bytes 4 NSHEAD_MAGICNUM @ replicate 4 NUL @ le_bytes 4 (length body) @ body"

lemma nshead_mk_frame:
  assumes "length b < 2 ^ 32"
  shows "nh_magic_num (nshead_of (replicate 24 NUL @ le_bytes 4 NSHEAD_MAGICNUM @ replicate 4 NUL @ le_bytes 4 n @ b)) = NSHEAD_MAGICNUM"
    "nh_body_len (nshead_of (replicate 24 NUL @ le_bytes 4 NSHEAD_MAGICNUM @ replicate 4 NUL @ le_bytes 4 n @ b)) = n mod 2 ^ 32"
  using le_nat_bytes [of 4 n] le_nat_bytes [of 4 NSHEAD_MAGICNUM] by (simp_all add: nshead_of_def NSHEAD_MAGICNUM_def)

lemma mk_frame_ok: "length b < 2 ^ 32 \<Longrightarrow> is_frame (mk_frame b)" "length (mk_frame b) = 36 + length b"
  using nshead_mk_frame [of b "length b"] by (simp_all add: is_frame_def mk_frame_def sizeof_nshead_def)

lemma demo_reach:
  "\<exists>w :: unit worker. worker_reach demo_mem (simple_process_io_buffer demo_mem) body_bound w \<and> (\<forall>fd. slot w fd = None)"
proof -
  let ?w0 = "worker_new demo_unset server_opts_default ''simple_worker'' demo_sock ()"
  obtain w where w: "worker_initialize demo_unset 0 (Some (5, 6)) ?w0 = Some (WORKER_OK, w)"
    using worker_initialize_ok [of 5 demo_unset 0 6 ?w0] by auto
  then have "w_conns w = w_conns ?w0" by (auto simp: worker_initialize_def Let_def bind_eq_Some_conv)
  then have "slot w fd = None" for fd using slot_cong [of w ?w0 fd] slot_new by metis
  moreover have "worker_reach demo_mem (simple_process_io_buffer demo_mem) body_bound w" using w by (rule worker_reach.init)
  ultimately show ?thesis by blast
qed

lemma demo_conn: "\<exists>(w :: unit worker) c. serving_ok simple_rx w \<and> slot w 7 = Some c \<and> fresh_conn demo_sock c \<and>
  serves demo_mem (simple_process_io_buffer demo_mem) simple_rx body_bound 7 w [] []"
proof -
  obtain w0 :: "unit worker" where "worker_reach demo_mem (simple_process_io_buffer demo_mem) body_bound w0" using demo_reach by blast
  then have sv: "serving_ok simple_rx w0" by (rule sw.reach_serving [OF demo_mem_ok])
  then have "worker_ok w0" by (simp add: serving_ok_def)
  then obtain c w where c: "create_connection demo_mem demo_unset 0 w0 (Some demo_sock) = Some (Some c, w)" "slot w (sk_fd demo_sock) = Some c"
      "fresh_conn demo_sock c"
    using create_connection_ok [OF demo_mem_ok, of w0 demo_sock demo_unset 0] by (auto simp: demo_sock_def)
  have d: "sk_kind demo_sock = TCP" "sk_fd demo_sock = 7" by (simp_all add: demo_sock_def)
  have "serves demo_mem (simple_process_io_buffer demo_mem) simple_rx body_bound 7 w [] []"
    using serves.opened [OF sv d _ _ c(1)] by simp
  moreover from this have "serving_ok simple_rx w" using sw.serves_echo [OF demo_mem_ok] by blast
  ultimately show ?thesis using c d by auto
qed

text \<open>A new connection receives a header in two pieces.\<close>

lemma header_in:
  assumes "mem_ok a" "serving_ok simple_rx w" "slot w fd = Some c" "fresh_conn s c" "sk_kind s = TCP" "fd < 2 ^ 31"
    "nat fd < length socks" "36 \<le> length f" "nh_magic_num (nshead_of f) = NSHEAD_MAGICNUM"
  shows "\<exists>w1 w2 c2. simple_event a un socks (delivers fd now [hd f]) w = Some (w1, []) \<and>
    simple_event a un socks (delivers fd now (take 35 (tl f))) w1 = Some (w2, []) \<and> slot w2 fd = Some c2 \<and> serving_ok simple_rx w2 \<and>
    conn_at c2 STATE_BODY (int (nh_body_len (nshead_of f))) 36 (take 36 f) []"
proof -
  have f: "[hd f] @ take 35 (tl f) = take 36 f" "length (take 35 (tl f)) = 35" using assms(8) by (cases f; simp)+
  note h = nshead_of_append(2) [OF assms(8)]
  obtain w1 c1 where w1: "simple_event a un socks (delivers fd now [hd f]) w = Some (w1, [])" "slot w1 fd = Some c1"
      "serving_ok simple_rx w1" "conn_at c1 STATE_HEAD 36 0 [hd f] []"
    using first_byte [OF assms(1-7), of un now "hd f"] by blast
  have pre: "length [hd f] \<le> body_bound" "take 35 (tl f) \<noteq> []" "length (take 35 (tl f)) \<le> 36" "36 \<le> length ([hd f] @ take 35 (tl f))"
      "nh_magic_num (nshead_of ([hd f] @ take 35 (tl f))) = NSHEAD_MAGICNUM"
    unfolding f(1) h using f(2) assms(8,9) by (cases "tl f"; simp add: body_bound_def)+
  show ?thesis using header_read [OF assms(1) w1(3,2,4) assms(6,7) pre, of un now] w1(1) unfolding f(1) h by blast
qed

section \<open>Properties\<close>



text \<open>
  C1: The echo server returns the stream unchanged. At any moment the bytes sent
  to a client, followed by the replies still queued and the bytes still in its
  buffer, are exactly the bytes received from it, in order; and what has been
  queued or sent is a sequence of complete requests.
\<close>

theorem echo_stream_integrity:
  assumes "mem_ok a" and "serves a (simple_process_io_buffer a) simple_rx body_bound fd w rcv snt"
  shows "\<exists>c fs. slot w fd = Some c \<and> snt @ pending_out c @ sds_val (c_buf c) = rcv \<and>
    snt @ pending_out c = concat fs \<and> (\<forall>f \<in> set fs. is_frame f)"
  using sw.serves_echo [OF assms] unfolding echoed_def by blast

theorem echo_stream_integrity_witness:
  "\<exists>(w :: unit worker) c. serves demo_mem (simple_process_io_buffer demo_mem) simple_rx body_bound 7 w ''x'' [] \<and>
     slot w 7 = Some c \<and> pending_out c @ sds_val (c_buf c) = ''x''"
proof -
  obtain w :: "unit worker" and c where w: "serving_ok simple_rx w" "slot w 7 = Some c" "fresh_conn demo_sock c"
      "serves demo_mem (simple_process_io_buffer demo_mem) simple_rx body_bound 7 w [] []" using demo_conn by blast
  have d: "sk_kind demo_sock = TCP" "(7::int) < 2 ^ 31" "nat 7 < length demo_socks" by (simp_all add: demo_sock_def demo_socks_def)
  obtain w1 c1 where w1: "simple_event demo_mem demo_unset demo_socks (delivers 7 0 ''x'') w = Some (w1, [])" "slot w1 7 = Some c1"
    using first_byte [OF demo_mem_ok w(1-3) d, of demo_unset 0 "CHR ''x''"] by blast
  have "event_ok body_bound demo_socks (delivers 7 0 ''x'') w"
    using w(2,3) write_ok_takes_all d by (simp add: delivers_def fresh_conn_def body_bound_def)
  then have sv: "serves demo_mem (simple_process_io_buffer demo_mem) simple_rx body_bound 7 w1 ''x'' []"
    using serves.event [OF w(4) _ w1(1)] w1(2) by (simp add: delivers_def)
  from echo_stream_integrity [OF demo_mem_ok sv] sv show ?thesis by auto
qed



text \<open>
  C27: A complete request can sit unanswered in the buffer. When the second read
  of a connection returns the rest of the header together with a one-byte body,
  the handler is called once, takes the header and waits for a body that has
  already arrived: nothing is queued, and no further readable event will come
  before the client sends more.
\<close>

theorem buffered_request_stalls:
  assumes "mem_ok a" and "serving_ok simple_rx w" and "slot w fd = Some c" and "fresh_conn s c" and "sk_kind s = TCP"
    and "fd < 2 ^ 31" and "nat fd < length socks" and "is_frame f" and "length f = 37"
  shows "\<exists>w1 w2 c2. simple_event a un socks (delivers fd now [hd f]) w = Some (w1, []) \<and>
    simple_event a un socks (delivers fd now (tl f)) w1 = Some (w2, []) \<and> slot w2 fd = Some c2 \<and>
    sds_val (c_buf c2) = f \<and> c_replies c2 = [] \<and> c_state c2 = STATE_BODY \<and> c_expected c2 = 1"
proof -
  note p = frame_parts [OF assms(8)]
  have f: "[hd f] @ tl f = f" "length (tl f) = 36" "tl f \<noteq> []" using assms(9) by (cases f; auto)+
  obtain w1 c1 where w1: "simple_event a un socks (delivers fd now [hd f]) w = Some (w1, [])" "slot w1 fd = Some c1"
      "serving_ok simple_rx w1" "conn_at c1 STATE_HEAD 36 0 [hd f] []"
    using first_byte [OF assms(1-7), of un now "hd f"] by blast
  have pre: "length [hd f] \<le> body_bound" "tl f \<noteq> []" "length (tl f) \<le> 36" "36 \<le> length ([hd f] @ tl f)"
      "nh_magic_num (nshead_of ([hd f] @ tl f)) = NSHEAD_MAGICNUM"
    unfolding f(1) using f(2,3) assms(9) p(2) by (simp_all add: body_bound_def)
  obtain w2 c2 where "simple_event a un socks (delivers fd now (tl f)) w1 = Some (w2, [])" "slot w2 fd = Some c2"
      "conn_at c2 STATE_BODY (int (nh_body_len (nshead_of f))) 36 f []"
    using header_read [OF assms(1) w1(3,2,4) assms(6,7) pre, of un now] unfolding f(1) by blast
  then show ?thesis using w1(1) p(3) assms(9) by (auto simp: conn_at_def)
qed

theorem buffered_request_stalls_witness:
  "\<exists>(w :: unit worker) w1 w2 c2. simple_event demo_mem demo_unset demo_socks (delivers 7 0 [hd (mk_frame ''x'')]) w = Some (w1, []) \<and>
    simple_event demo_mem demo_unset demo_socks (delivers 7 0 (tl (mk_frame ''x''))) w1 = Some (w2, []) \<and> slot w2 7 = Some c2 \<and>
    sds_val (c_buf c2) = mk_frame ''x'' \<and> c_replies c2 = []"
proof -
  obtain w :: "unit worker" and c where w: "serving_ok simple_rx w" "slot w 7 = Some c" "fresh_conn demo_sock c" using demo_conn by blast
  have d: "sk_kind demo_sock = TCP" "(7::int) < 2 ^ 31" "nat 7 < length demo_socks"
    by (simp_all add: demo_sock_def demo_socks_def)
  have f: "is_frame (mk_frame ''x'')" "length (mk_frame ''x'') = 37" using mk_frame_ok [of "''x''"] by simp_all
  show ?thesis using buffered_request_stalls [OF demo_mem_ok w d f, of demo_unset 0] by blast
qed

text \<open>
  C28: A request with an empty body is never answered. After its header the worker
  asks the kernel for zero bytes; a read of zero bytes returns zero, which is
  taken for the end of the stream, and the connection is closed with nothing
  sent.
\<close>

theorem empty_body_closes:
  assumes "mem_ok a" and "serving_ok simple_rx w" and "slot w fd = Some c" and "fresh_conn s c" and "sk_kind s = TCP"
    and "fd < 2 ^ 31" and "nat fd < length socks" and "is_frame f" and "length f = 36"
  shows "\<exists>w1 w2 w3 c2. simple_event a un socks (delivers fd now [hd f]) w = Some (w1, []) \<and>
    simple_event a un socks (delivers fd now (tl f)) w1 = Some (w2, []) \<and> slot w2 fd = Some c2 \<and>
    c_expected c2 = 0 \<and> c_replies c2 = [] \<and>
    simple_event a un socks (delivers fd now []) w2 = Some (w3, []) \<and> slot w3 fd = None"
proof -
  note p = frame_parts [OF assms(8)]
  have tl: "take 35 (tl f) = tl f" using assms(9) by (cases f; simp)
  obtain w1 w2 c2 where w2: "simple_event a un socks (delivers fd now [hd f]) w = Some (w1, [])"
      "simple_event a un socks (delivers fd now (tl f)) w1 = Some (w2, [])" "slot w2 fd = Some c2" "serving_ok simple_rx w2"
      "conn_at c2 STATE_BODY (int (nh_body_len (nshead_of f))) 36 (take 36 f) []"
    using header_in [OF assms(1-7) p(1,2), of un now] unfolding tl by blast
  have c2: "c_expected c2 = 0" "c_replies c2 = []" using w2(5) p(3) assms(9) by (simp_all add: conn_at_def)
  have wk: "worker_ok w2" "sk_kind (c_sock c2) = TCP" "rx_of simple_rx c2" using w2(3,4) by (auto simp: serving_ok_def)
  note sl = slotD [OF wk(1) w2(3)]
  have "tcp_readable c2 (RdOk [])" using sw.readable [OF sl(5) wk(3), of "RdOk []"] c2(1) by (simp add: body_bound_def)
  then obtain b where b: "sds_ok b" "tcp_read_conn a (simple_process_io_buffer a) now (RdOk []) (w_user w2) c2 =
      after_read (simple_process_io_buffer a) now (RdOk []) (w_user w2) c2 b"
    using tcp_read_conn_eq [OF assms(1), of c2 "RdOk []" "simple_process_io_buffer a" now "w_user w2"] by auto
  obtain w3 where w3: "close_conn (w2\<lparr>w_user := w_user w2\<rparr>) (c2\<lparr>c_buf := b\<rparr>) = Some w3" "slot w3 fd = None"
    using close_conn_ok [of "w2\<lparr>w_user := w_user w2\<rparr>" fd c2 "c2\<lparr>c_buf := b\<rparr>"] wk(1) w2(3) conn_ok_set_buf [OF sl(5) b(1)] by auto
  have "simple_event a un socks (delivers fd now []) w2 = Some (w3, [])"
    using read_io_tcp [OF wk(1) sl(1) assms(6), of a "simple_process_io_buffer a" now "RdOk []"] wk(2) w2(3) b(2) w3(1)
    by (simp add: delivers_def conn_io_cb_def tcp_read_io_def after_read_def)
  then show ?thesis using w2(1-3) c2 w3(2) by blast
qed

theorem empty_body_closes_witness:
  "\<exists>(w :: unit worker) w1 w2 w3. simple_event demo_mem demo_unset demo_socks (delivers 7 0 [hd (mk_frame [])]) w = Some (w1, []) \<and>
    simple_event demo_mem demo_unset demo_socks (delivers 7 0 (tl (mk_frame []))) w1 = Some (w2, []) \<and>
    simple_event demo_mem demo_unset demo_socks (delivers 7 0 []) w2 = Some (w3, []) \<and> slot w3 7 = None"
proof -
  obtain w :: "unit worker" and c where w: "serving_ok simple_rx w" "slot w 7 = Some c" "fresh_conn demo_sock c" using demo_conn by blast
  have d: "sk_kind demo_sock = TCP" "(7::int) < 2 ^ 31" "nat 7 < length demo_socks"
    by (simp_all add: demo_sock_def demo_socks_def)
  have f: "is_frame (mk_frame [])" "length (mk_frame []) = 36" using mk_frame_ok [of "[]"] by simp_all
  show ?thesis using empty_body_closes [OF demo_mem_ok w d f, of demo_unset 0] by blast
qed

text \<open>
  C22: A client can stop the server with 36 bytes. A header that announces
  between \<open>2^31\<close> and \<open>2^32 - 2^22\<close> bytes makes the \<open>int\<close> that holds the size of the next
  read negative; it is converted back to an unsigned size for the buffer, and the
  request for almost \<open>2^64\<close> bytes, which no allocator serves, ends the process at
  the next readable event, whatever that event reads and whatever the handler is.
\<close>

theorem huge_body_aborts:
  assumes "serving_ok simple_rx w" and "slot w fd = Some c" and "c_state c = STATE_BODY"
    and "2 ^ 31 \<le> c_expected c" and "c_expected c \<le> 2 ^ 32 - 2 ^ 22" and "length (sds_val (c_buf c)) \<le> 2 ^ 20"
    and "\<forall>n \<ge> 2 ^ 63. \<not> hs_ok a n" and "fd < 2 ^ 31"
  shows "worker_event a pio un socks (EvIO fd READ now rd wr) w = None"
proof -
  have w: "worker_ok w" "sk_kind (c_sock c) = TCP" using assms(1,2) by (auto simp: serving_ok_def)
  note s = slotD [OF w(1) assms(2)]
  have "sdsMakeRoomFor a (c_buf c) (u64 (s32 (c_expected c))) = None"
    using huge_read_none [OF conn_ok_buf [OF s(5)] assms(6,4,5,7)] .
  then have "tcp_read_conn a pio now rd (w_user w) c = None" by (simp add: tcp_read_conn_def Let_def)
  then show ?thesis using read_io_tcp [OF w(1) s(1) assms(8), of a pio now rd] w(2) assms(2)
    by (simp add: conn_io_cb_def tcp_read_io_def)
qed

definition huge_header :: string where
  "huge_header = replicate 24 NUL @ le_bytes 4 NSHEAD_MAGICNUM @ replicate 4 NUL @ le_bytes 4 (2 ^ 31) @ []"

theorem huge_body_aborts_witness:
  "\<exists>(w :: unit worker) w1 w2. simple_event demo_mem demo_unset demo_socks (delivers 7 0 [hd huge_header]) w = Some (w1, []) \<and>
    simple_event demo_mem demo_unset demo_socks (delivers 7 0 (take 35 (tl huge_header))) w1 = Some (w2, []) \<and>
    simple_event (demo_mem\<lparr>hs_ok := (\<lambda>n. n < 2 ^ 63)\<rparr>) demo_unset demo_socks (delivers 7 0 ''x'') w2 = None"
proof -
  obtain w :: "unit worker" and c where w: "serving_ok simple_rx w" "slot w 7 = Some c" "fresh_conn demo_sock c" using demo_conn by blast
  have d: "sk_kind demo_sock = TCP" "(7::int) < 2 ^ 31" "nat 7 < length demo_socks"
    by (simp_all add: demo_sock_def demo_socks_def)
  have h: "36 \<le> length huge_header" "nh_magic_num (nshead_of huge_header) = NSHEAD_MAGICNUM" "nh_body_len (nshead_of huge_header) = 2 ^ 31"
    using nshead_mk_frame [of "[]" "2 ^ 31"] unfolding huge_header_def by simp_all
  obtain w1 w2 c2 where w2: "simple_event demo_mem demo_unset demo_socks (delivers 7 0 [hd huge_header]) w = Some (w1, [])"
      "simple_event demo_mem demo_unset demo_socks (delivers 7 0 (take 35 (tl huge_header))) w1 = Some (w2, [])"
      "slot w2 7 = Some c2" "serving_ok simple_rx w2"
      "conn_at c2 STATE_BODY (int (nh_body_len (nshead_of huge_header))) 36 (take 36 huge_header) []"
    using header_in [OF demo_mem_ok w d h(1,2), of demo_unset 0] by blast
  have c2: "c_state c2 = STATE_BODY" "2 ^ 31 \<le> c_expected c2" "c_expected c2 \<le> 2 ^ 32 - 2 ^ 22" "length (sds_val (c_buf c2)) \<le> 2 ^ 20"
    using w2(5) h(3) by (simp_all add: conn_at_def)
  have m: "\<forall>n \<ge> 2 ^ 63. \<not> hs_ok (demo_mem\<lparr>hs_ok := (\<lambda>n. n < 2 ^ 63)\<rparr>) n" by simp
  show ?thesis using w2(1,2) huge_body_aborts [OF w2(4,3) c2 m d(2)] unfolding delivers_def by blast
qed

end
