(* ===== verification/Dispatcher.thy ===== *)
theory Dispatcher
  imports Serving
begin

text \<open>
  The dispatcher thread of \<open>src/server/dispatcher.cpp\<close> and the threads of
  \<open>src/server/thread.cpp\<close>: it owns the listening socket, creates the workers, and
  hands every accepted socket to one of them through its queue and its pipe.
  Shown are the round-robin distribution and the order of delivery, that a
  delivered socket becomes a connection of its worker, and three failures: a lost
  notification, a server without workers, and a worker deleted under its running
  thread.

  The outcomes of system calls (\<open>pipe\<close>, \<open>pthread_create\<close>, \<open>pthread_setaffinity_np\<close>,
  \<open>pthread_join\<close>, writes to pipes) are arguments.
\<close>

section \<open>Threads\<close>

abbreviation (input) THREAD_OK :: int where "THREAD_OK \<equiv> 0"
abbreviation (input) THREAD_ERROR :: int where "THREAD_ERROR \<equiv> 1"

text \<open>\<open>rc\<close> is the identifier of the new thread, or nothing when \<open>pthread_create\<close> fails.\<close>

(* src/src/server/thread.cpp:13-27, create_thread *)
definition create_thread :: "nat option \<Rightarrow> 'u worker \<Rightarrow> int \<times> 'u worker" where
  "create_thread rc w = (case rc of None \<Rightarrow> (THREAD_ERROR, w) | Some tid \<Rightarrow> (THREAD_OK, w\<lparr>w_thread_id := Some tid, w_running := True\<rparr>))"

(* src/src/server/thread.cpp:29-37, join_thread *)
definition join_thread :: "int \<Rightarrow> int" where
  "join_thread rc = (if rc \<noteq> 0 then THREAD_ERROR else THREAD_OK)"

section \<open>State\<close>

abbreviation (input) DISPATCHER_OK :: int where "DISPATCHER_OK \<equiv> 0"
abbreviation (input) DISPATCHER_ERROR :: int where "DISPATCHER_ERROR \<equiv> 1"

text \<open>
  \<open>d_deleted\<close> records the workers passed to \<open>delete\<close>; messages of the dispatcher's
  own queue are of type \<open>'m\<close>.
\<close>

(* src/src/server/dispatcher.h:46-96, GenericDispatcher *)
record ('u, 'm) dispatcher =
  d_opts :: server_opts
  d_io_watcher :: "ev_io option"
  d_pipe_watcher :: "ev_io option"
  d_net :: netman
  d_mq :: "'m lfq"
  d_workers :: "'u worker list"
  d_deleted :: "'u worker list"
  d_next :: nat
  d_cpu :: int
  d_recv_fd :: int
  d_send_fd :: int
  d_pipe :: "int list"
  d_running :: bool

(* src/src/server/dispatcher.cpp:83-93, GenericDispatcher::GenericDispatcher *)
definition dispatcher_new :: "unset \<Rightarrow> server_opts \<Rightarrow> 'm \<Rightarrow> ('u, 'm) dispatcher" where
  "dispatcher_new un opts dummy = \<lparr>d_opts = opts, d_io_watcher = None, d_pipe_watcher = None, d_net = netman_new,
     d_mq = lfq_new dummy, d_workers = [], d_deleted = [], d_next = 0, d_cpu = 0, d_recv_fd = un_fd un, d_send_fd = un_fd un,
     d_pipe = [], d_running = False\<rparr>"

section \<open>Starting\<close>

(* src/src/server/dispatcher.cpp:124-145, GenericDispatcher::create_pipe *)
definition create_pipe :: "unset \<Rightarrow> (int \<times> int) option \<Rightarrow> ('u, 'm) dispatcher \<Rightarrow> (int \<times> ('u, 'm) dispatcher) option" where
  "create_pipe un p d =
     (case p of
        None \<Rightarrow> Some (DISPATCHER_ERROR, d)
      | Some (rfd, sfd) \<Rightarrow> do {
          io \<leftarrow> start_io_event (create_io_event (un_fd un) (un_events un)) rfd READ;
          Some (DISPATCHER_OK, d\<lparr>d_recv_fd := rfd, d_send_fd := sfd, d_pipe_watcher := Some io\<rparr>) })"

text \<open>A missing address is passed on as a null pointer, which \<open>Ipv4Address\<close> cannot take.\<close>

(* src/src/server/dispatcher.cpp:147-164, GenericDispatcher::create_server *)
definition d_create_server :: "'k sysops \<Rightarrow> unset \<Rightarrow> ('u, 'm) dispatcher \<Rightarrow> 'k \<Rightarrow> ((int \<times> ('u, 'm) dispatcher) \<times> 'k) option" where
  "d_create_server os un d k = do {
     ip \<leftarrow> so_ip (d_opts d);
     ((s, nm), k) \<leftarrow> nm_create_server os (d_net d) (so_server_type (d_opts d)) ip (nat (so_port (d_opts d))) (un_fd un) k;
     let d = d\<lparr>d_net := nm\<rparr>;
     case s of
       None \<Rightarrow> Some ((DISPATCHER_ERROR, d), k)
     | Some s \<Rightarrow> do {
         io \<leftarrow> start_io_event (create_io_event (un_fd un) (un_events un)) (sk_fd s) READ;
         Some ((DISPATCHER_OK, d\<lparr>d_io_watcher := Some io\<rparr>), k) } }"

text \<open>What the system calls of one \<open>spawn_worker\<close> return.\<close>

record spawn_env =
  se_now :: int
  se_pipe :: "(int \<times> int) option"
  se_tid :: "nat option"
  se_aff :: "int set \<Rightarrow> int"

(* src/src/server/dispatcher.cpp:192-222, GenericDispatcher::spawn_worker *)
definition spawn_worker :: "(server_opts \<Rightarrow> 'u worker) option \<Rightarrow> unset \<Rightarrow> spawn_env \<Rightarrow> ('u, 'm) dispatcher \<Rightarrow> (int \<times> ('u, 'm) dispatcher) option" where
  "spawn_worker factory un env d =
     (case factory of
        None \<Rightarrow> Some (DISPATCHER_ERROR, d)
      | Some f \<Rightarrow> do {
          (_, w) \<leftarrow> worker_initialize un (se_now env) (se_pipe env) (f (d_opts d));
          let w = set_cpu_id (d_cpu d) w;
          let w = w\<lparr>w_thread_name := w_thread_name w @ ''_'' @ dec_int (d_cpu d)\<rparr>;
          let d = d\<lparr>d_cpu := s32 (d_cpu d + 1)\<rparr>;
          case create_thread (se_tid env) w of (rc, w) \<Rightarrow>
            if rc = THREAD_ERROR then Some (DISPATCHER_ERROR, d)
            else let w = set_worker_id (w_thread_name w @ ''_'' @ dec_str (the (w_thread_id w))) w
              in if so_bind_cpu (d_opts d) \<and> \<not> bind_cpu (se_aff env) w
                 then do { w \<leftarrow> worker_destroy w; Some (DISPATCHER_ERROR, d\<lparr>d_deleted := d_deleted d @ [w]\<rparr>) }
                 else Some (DISPATCHER_OK, d\<lparr>d_workers := d_workers d @ [w]\<rparr>) })"

(* src/src/server/dispatcher.cpp:116-119, GenericDispatcher::initialize *)
fun spawn_workers :: "(server_opts \<Rightarrow> 'u worker) option \<Rightarrow> unset \<Rightarrow> spawn_env list \<Rightarrow> ('u, 'm) dispatcher \<Rightarrow> (int \<times> ('u, 'm) dispatcher) option" where
  "spawn_workers factory un [] d = Some (DISPATCHER_OK, d)"
| "spawn_workers factory un (env # envs) d = do {
     (r, d) \<leftarrow> spawn_worker factory un env d;
     if r = DISPATCHER_ERROR then Some (DISPATCHER_ERROR, d) else spawn_workers factory un envs d }"

text \<open>\<open>env i\<close> is what the system calls return for the \<open>i\<close>-th worker.\<close>

(* src/src/server/dispatcher.cpp:107-122, GenericDispatcher::initialize *)
definition d_initialize :: "'k sysops \<Rightarrow> (server_opts \<Rightarrow> 'u worker) option \<Rightarrow> unset \<Rightarrow> (int \<times> int) option \<Rightarrow> (nat \<Rightarrow> spawn_env) \<Rightarrow>
    ('u, 'm) dispatcher \<Rightarrow> 'k \<Rightarrow> ((int \<times> ('u, 'm) dispatcher) \<times> 'k) option" where
  "d_initialize os factory un p env d k = do {
     (r, d) \<leftarrow> create_pipe un p d;
     if r = DISPATCHER_ERROR then Some ((DISPATCHER_ERROR, d), k)
     else do {
       ((r, d), k) \<leftarrow> d_create_server os un d k;
       if r \<noteq> 0 then Some ((DISPATCHER_ERROR, d), k)
       else do {
         (r, d) \<leftarrow> spawn_workers factory un (map env [0..<nat (so_worker_num (d_opts d))]) d;
         Some ((r, d), k) } } }"

(* src/src/server/dispatcher.cpp:187-190, GenericDispatcher::run *)
definition d_run :: "('u, 'm) dispatcher \<Rightarrow> ('u, 'm) dispatcher" where
  "d_run d = d\<lparr>d_running := True\<rparr>"

section \<open>Handing out connections\<close>

text \<open>\<open>wr\<close> is the outcome of the write to the worker's pipe.\<close>

(* src/src/server/dispatcher.cpp:236-252, GenericDispatcher::dispatch_new_conn *)
definition dispatch_new_conn :: "os_write \<Rightarrow> sock \<Rightarrow> ('u, 'm) dispatcher \<Rightarrow> (int \<times> ('u, 'm) dispatcher) option" where
  "dispatch_new_conn wr s d = do {
     w \<leftarrow> peek (d_workers d) (d_next d);
     let j = d_next d;
     let d = d\<lparr>d_next := (d_next d + 1) mod length (d_workers d)\<rparr>;
     w \<leftarrow> mq_push s w;
     case worker_notify wr NEW_CONNECTION w of (r, w) \<Rightarrow>
       let d = d\<lparr>d_workers := (d_workers d)[j := w]\<rparr>
       in if r \<noteq> WORKER_OK then Some (DISPATCHER_ERROR, d) else Some (DISPATCHER_OK, d) }"

(* src/src/server/dispatcher.cpp:51-81, accept_new_conn *)
definition accept_new_conn :: "'k sysops \<Rightarrow> int \<Rightarrow> ipv4 \<Rightarrow> os_write \<Rightarrow> ('u, 'm) dispatcher \<Rightarrow> 'k \<Rightarrow> (('u, 'm) dispatcher \<times> 'k) option" where
  "accept_new_conn os listen_fd junk wr d k = do {
     ((s, nm), k) \<leftarrow> generic_accept os (d_net d) listen_fd junk k;
     let d = d\<lparr>d_net := nm\<rparr>;
     case s of
       None \<Rightarrow> Some (d, k)
     | Some s \<Rightarrow> do { (_, d) \<leftarrow> dispatch_new_conn wr s d; Some (d, k) } }"

section \<open>Stopping\<close>

text \<open>For every worker, the outcome of the write to its pipe and of the join.\<close>

(* src/src/server/dispatcher.cpp:224-234, GenericDispatcher::join_workers *)
fun join_workers :: "(os_write \<times> int) list \<Rightarrow> 'u worker list \<Rightarrow> int \<times> 'u worker list" where
  "join_workers ((wr, rc) # env) (w # ws) =
     (case worker_notify wr QUIT w of (_, w) \<Rightarrow>
        if join_thread rc = THREAD_ERROR then (DISPATCHER_ERROR, w # ws)
        else case join_workers env ws of (r, ws) \<Rightarrow> (r, w # ws))"
| "join_workers _ ws = (DISPATCHER_OK, ws)"

(* src/src/server/dispatcher.cpp:166-185, GenericDispatcher::stop *)
definition d_stop :: "(os_write \<times> int) list \<Rightarrow> ('u, 'm) dispatcher \<Rightarrow> ('u, 'm) dispatcher" where
  "d_stop env d = (case join_workers env (d_workers d) of (_, ws) \<Rightarrow> d\<lparr>d_running := False, d_workers := ws\<rparr>)"

(* src/src/server/dispatcher.cpp:254-263, GenericDispatcher::process_internal_notify *)
definition d_process_internal_notify :: "(os_write \<times> int) list \<Rightarrow> int \<Rightarrow> ('u, 'm) dispatcher \<Rightarrow> ('u, 'm) dispatcher" where
  "d_process_internal_notify env msg d = (if msg = 0 then d_stop env d else d)"

(* src/src/server/dispatcher.cpp:33-45, recv_notify *)
definition d_recv_notify :: "(os_write \<times> int) list \<Rightarrow> ('u, 'm) dispatcher \<Rightarrow> ('u, 'm) dispatcher" where
  "d_recv_notify env d = (case d_pipe d of [] \<Rightarrow> d | msg # rest \<Rightarrow> d_process_internal_notify env msg (d\<lparr>d_pipe := rest\<rparr>))"

(* src/src/server/dispatcher.cpp:269-276, GenericDispatcher::notify *)
definition d_notify :: "os_write \<Rightarrow> int \<Rightarrow> ('u, 'm) dispatcher \<Rightarrow> int \<times> ('u, 'm) dispatcher" where
  "d_notify wr msg d = (if wr = WrOk 4 then (DISPATCHER_OK, d\<lparr>d_pipe := d_pipe d @ [msg]\<rparr>) else (DISPATCHER_ERROR, d))"

(* src/src/server/dispatcher.cpp:278-280, GenericDispatcher::mq_push *)
definition d_mq_push :: "'m \<Rightarrow> ('u, 'm) dispatcher \<Rightarrow> ('u, 'm) dispatcher option" where
  "d_mq_push m d = do { q \<leftarrow> lfq_produce m (d_mq d); Some (d\<lparr>d_mq := q\<rparr>) }"

(* src/src/server/dispatcher.cpp:282-284, GenericDispatcher::mq_pop *)
definition d_mq_pop :: "('u, 'm) dispatcher \<Rightarrow> ('m option \<times> ('u, 'm) dispatcher) option" where
  "d_mq_pop d = do { (m, q) \<leftarrow> lfq_consume (d_mq d); Some (m, d\<lparr>d_mq := q\<rparr>) }"

(* src/src/server/dispatcher.cpp:96-101, GenericDispatcher::~GenericDispatcher *)
fun destroy_workers :: "'u worker list \<Rightarrow> 'u worker list option" where
  "destroy_workers [] = Some []"
| "destroy_workers (w # ws) = do { w \<leftarrow> worker_destroy w; ws \<leftarrow> destroy_workers ws; Some (w # ws) }"

(* src/src/server/dispatcher.cpp:95-105, GenericDispatcher::~GenericDispatcher *)
definition d_destroy :: "'k sysops \<Rightarrow> ('u, 'm) dispatcher \<Rightarrow> 'k \<Rightarrow> (('u, 'm) dispatcher \<times> 'k) option" where
  "d_destroy os d k = do {
     ws \<leftarrow> destroy_workers (d_workers d);
     (nm, k) \<leftarrow> netman_destroy os (d_net d) k;
     Some (d\<lparr>d_deleted := d_deleted d @ ws, d_workers := [], d_net := nm\<rparr>, k) }"

(* src/src/server/dispatcher.cpp:287-302, GenericDispatcher::get_clients_count *)
definition d_get_clients_count :: "('u, 'm) dispatcher \<Rightarrow> int \<times> string" where
  "d_get_clients_count d =
     (sum_list (map get_clients_count (d_workers d)),
      ''['' @ concat (map (\<lambda>w. '','' @ w_id w @ '':'' @ dec_int (get_clients_count w)) (d_workers d)) @ '']'')"

section \<open>Distribution\<close>

fun dispatch_all :: "sock list \<Rightarrow> ('u, 'm) dispatcher \<Rightarrow> ('u, 'm) dispatcher option" where
  "dispatch_all [] d = Some d"
| "dispatch_all (s # ss) d = do { (_, d) \<leftarrow> dispatch_new_conn (WrOk 4) s d; dispatch_all ss d }"

text \<open>The queues of the workers hold \<open>qs\<close>.\<close>

definition queues :: "('u, 'm) dispatcher \<Rightarrow> sock list list \<Rightarrow> bool" where
  "queues d qs \<longleftrightarrow> length qs = length (d_workers d) \<and> d_next d < length (d_workers d) \<and>
     (\<forall>j < length qs. lfq_rep (w_mq (d_workers d ! j)) (qs ! j))"

lemma dispatch_ok:
  assumes "queues d qs"
  shows "\<exists>d' q. dispatch_new_conn wr s d = Some (if wr = WrOk 4 then DISPATCHER_OK else DISPATCHER_ERROR, d') \<and>
    queues d' (qs[d_next d := qs ! d_next d @ [s]]) \<and> d_next d' = (d_next d + 1) mod length (d_workers d) \<and>
    length (d_workers d') = length (d_workers d) \<and>
    (\<forall>j < length (d_workers d). d_workers d' ! j =
       (if j = d_next d then (d_workers d ! j)\<lparr>w_mq := q, w_pipe := w_pipe (d_workers d ! j) @ (if wr = WrOk 4 then [NEW_CONNECTION] else [])\<rparr>
        else d_workers d ! j))"
proof -
  let ?j = "d_next d" and ?w = "d_workers d ! d_next d"
  have j: "?j < length (d_workers d)" "length qs = length (d_workers d)" "lfq_rep (w_mq ?w) (qs ! ?j)"
    using assms by (simp_all add: queues_def)
  obtain q where q: "lfq_produce s (w_mq ?w) = Some q" "lfq_rep q (qs ! ?j @ [s])" using lq.push_rep [OF j(3)] by blast
  let ?w' = "?w\<lparr>w_mq := q, w_pipe := w_pipe ?w @ (if wr = WrOk 4 then [NEW_CONNECTION] else [])\<rparr>"
  let ?d' = "d\<lparr>d_next := (?j + 1) mod length (d_workers d), d_workers := (d_workers d)[?j := ?w']\<rparr>"
  have "dispatch_new_conn wr s d = Some (if wr = WrOk 4 then DISPATCHER_OK else DISPATCHER_ERROR, ?d')"
    using j(1) q(1) by (simp add: dispatch_new_conn_def mq_push_def worker_notify_def Let_def)
  moreover have "queues ?d' (qs[?j := qs ! ?j @ [s]])"
    unfolding queues_def
  proof (intro conjI allI impI)
    show "d_next ?d' < length (d_workers ?d')" using j(1) by (auto intro!: mod_less_divisor)
    fix i assume "i < length (qs[?j := qs ! ?j @ [s]])"
    then show "lfq_rep (w_mq (d_workers ?d' ! i)) (qs[?j := qs ! ?j @ [s]] ! i)"
      using assms j q(2) by (cases "i = ?j") (simp_all add: queues_def)
  qed (use j in simp)
  moreover have "d_workers ?d' ! i = (if i = ?j then ?w' else d_workers d ! i)" if "i < length (d_workers d)" for i
    using that j(1) by simp
  ultimately show ?thesis by (intro exI [of _ ?d'] exI [of _ q]) auto
qed

text \<open>What worker \<open>j\<close> of \<open>n\<close> receives when the distribution starts at worker \<open>k\<close>.\<close>

definition share :: "nat \<Rightarrow> nat \<Rightarrow> 'a list \<Rightarrow> nat \<Rightarrow> 'a list" where
  "share n k ss j = nths ss {i. (k + i) mod n = j}"

lemma share_Nil [simp]: "share n k [] j = []"
  by (simp add: share_def)

lemma share_Cons:
  assumes "k < n" "j < n"
  shows "share n k (s # ss) j = (if j = k then [s] else []) @ share n ((k + 1) mod n) ss j"
proof -
  have "((k + 1) mod n + i) mod n = (k + Suc i) mod n" for i by (simp add: mod_add_left_eq)
  then show ?thesis using assms by (auto simp: share_def nths_Cons)
qed

lemma dispatch_all_ok:
  assumes "queues d qs" "n = length (d_workers d)"
  shows "\<exists>d'. dispatch_all ss d = Some d' \<and> d_next d' = (d_next d + length ss) mod n \<and>
    queues d' (map (\<lambda>j. qs ! j @ share n (d_next d) ss j) [0..<n]) \<and>
    (\<forall>j < n. \<exists>q. d_workers d' ! j = (d_workers d ! j)\<lparr>w_mq := q,
       w_pipe := w_pipe (d_workers d ! j) @ replicate (length (share n (d_next d) ss j)) NEW_CONNECTION\<rparr>)"
  using assms
proof (induction ss arbitrary: d qs)
  case Nil
  have "map (\<lambda>j. qs ! j) [0..<n] = qs" using Nil map_nth [of qs] by (auto simp: queues_def)
  moreover have "\<exists>q. d_workers d ! j = (d_workers d ! j)\<lparr>w_mq := q, w_pipe := w_pipe (d_workers d ! j)\<rparr>" for j
    by (intro exI [of _ "w_mq (d_workers d ! j)"]) simp
  ultimately show ?case using Nil by (simp add: queues_def)
next
  case (Cons s ss)
  have k: "d_next d < n" "length qs = n" using Cons.prems by (simp_all add: queues_def)
  obtain d1 q where d1: "dispatch_new_conn (WrOk 4) s d = Some (DISPATCHER_OK, d1)"
      "queues d1 (qs[d_next d := qs ! d_next d @ [s]])" "d_next d1 = (d_next d + 1) mod n" "length (d_workers d1) = n"
      "\<forall>j < n. d_workers d1 ! j = (if j = d_next d then (d_workers d ! j)\<lparr>w_mq := q, w_pipe := w_pipe (d_workers d ! j) @ [NEW_CONNECTION]\<rparr>
         else d_workers d ! j)"
    using dispatch_ok [OF Cons.prems(1), of "WrOk 4" s] unfolding Cons.prems(2) simp_thms if_True by blast
  obtain d' where d': "dispatch_all ss d1 = Some d'" "d_next d' = (d_next d1 + length ss) mod n"
      "queues d' (map (\<lambda>j. qs[d_next d := qs ! d_next d @ [s]] ! j @ share n (d_next d1) ss j) [0..<n])"
      "\<forall>j < n. \<exists>q. d_workers d' ! j = (d_workers d1 ! j)\<lparr>w_mq := q,
         w_pipe := w_pipe (d_workers d1 ! j) @ replicate (length (share n (d_next d1) ss j)) NEW_CONNECTION\<rparr>"
    using Cons.IH [OF d1(2)] d1(4) by auto
  have sh: "share n (d_next d) (s # ss) j = (if j = d_next d then [s] else []) @ share n (d_next d1) ss j" if "j < n" for j
    unfolding d1(3) by (rule share_Cons [OF k(1) that])
  have m: "map (\<lambda>j. qs[d_next d := qs ! d_next d @ [s]] ! j @ share n (d_next d1) ss j) [0..<n] =
      map (\<lambda>j. qs ! j @ share n (d_next d) (s # ss) j) [0..<n]"
    using sh k by (intro map_cong) (auto simp: nth_upd)
  have "queues d' (map (\<lambda>j. qs ! j @ share n (d_next d) (s # ss) j) [0..<n])" using d'(3) unfolding m .
  moreover have "\<exists>q. d_workers d' ! j = (d_workers d ! j)\<lparr>w_mq := q,
      w_pipe := w_pipe (d_workers d ! j) @ replicate (length (share n (d_next d) (s # ss) j)) NEW_CONNECTION\<rparr>" if j: "j < n" for j
  proof -
    obtain q' where "d_workers d' ! j = (d_workers d1 ! j)\<lparr>w_mq := q',
        w_pipe := w_pipe (d_workers d1 ! j) @ replicate (length (share n (d_next d1) ss j)) NEW_CONNECTION\<rparr>"
      using d'(4) j by blast
    then show ?thesis using d1(5) j sh [OF j] by (intro exI [of _ q']) (simp add: replicate_append_same [symmetric])
  qed
  moreover have "d_next d' = (d_next d + length (s # ss)) mod n" using d'(2) d1(3) by (simp add: mod_add_left_eq)
  ultimately show ?case using d1(1) d'(1) by simp
qed

section \<open>Delivery\<close>

text \<open>A worker takes the messages of its pipe one after the other.\<close>

fun recv_all :: "allocator \<Rightarrow> unset \<Rightarrow> int \<Rightarrow> nat \<Rightarrow> 'u worker \<Rightarrow> 'u worker option" where
  "recv_all a un now 0 w = Some w"
| "recv_all a un now (Suc n) w = do { w \<leftarrow> recv_notify a un now w; recv_all a un now n w }"

lemma recv_one:
  assumes "mem_ok a" "worker_ok w" "lfq_rep (w_mq w) (s # q)" "w_pipe w = NEW_CONNECTION # ms" "0 \<le> sk_fd s" "sk_fd s < 2 ^ 30"
  shows "\<exists>w' c. recv_notify a un now w = Some w' \<and> worker_ok w' \<and> lfq_rep (w_mq w') q \<and> w_pipe w' = ms \<and>
    slot w' (sk_fd s) = Some c \<and> fresh_conn s c \<and> (\<forall>fd. fd \<noteq> sk_fd s \<longrightarrow> slot w' fd = slot w fd)"
proof -
  obtain m where m: "lfq_consume (w_mq w) = Some (Some s, m)" "lfq_rep m q" using lq.pop_cons [OF assms(3)] by blast
  let ?w = "w\<lparr>w_pipe := ms, w_mq := m\<rparr>"
  have w: "worker_ok ?w" "\<And>fd. slot ?w fd = slot w fd" using assms(2) m(2) by (auto simp: worker_ok_def slot_def)
  obtain c w' where c: "create_connection a un now ?w (Some s) = Some (Some c, w')" "worker_ok w'" "slot w' (sk_fd s) = Some c"
      "fresh_conn s c" "\<forall>fd'. fd' \<noteq> sk_fd s \<longrightarrow> slot w' fd' = slot ?w fd'" "w' = ?w\<lparr>w_conns := w_conns w'\<rparr>"
    using create_connection_ok [OF assms(1) w(1) assms(5,6), of un now] by blast
  have "recv_notify a un now w = Some w'"
    using assms(4) m(1) c(1) by (simp add: recv_notify_def process_internal_notify_def mq_pop_def)
  moreover have "w_mq w' = m" "w_pipe w' = ms" by (subst c(6), simp)+
  ultimately show ?thesis using c w(2) m(2) by auto
qed

lemma recv_all_ok:
  assumes "mem_ok a" "worker_ok w" "lfq_rep (w_mq w) ss" "w_pipe w = replicate (length ss) NEW_CONNECTION"
    "\<forall>s \<in> set ss. 0 \<le> sk_fd s \<and> sk_fd s < 2 ^ 30" "distinct (map sk_fd ss)"
  shows "\<exists>w'. recv_all a un now (length ss) w = Some w' \<and> worker_ok w' \<and> lfq_rep (w_mq w') [] \<and> w_pipe w' = [] \<and>
    (\<forall>s \<in> set ss. \<exists>c. slot w' (sk_fd s) = Some c \<and> fresh_conn s c) \<and>
    (\<forall>fd. fd \<notin> sk_fd ` set ss \<longrightarrow> slot w' fd = slot w fd)"
  using assms(2-6)
proof (induction ss arbitrary: w)
  case Nil
  then show ?case by simp
next
  case (Cons s ss)
  obtain w1 c where w1: "recv_notify a un now w = Some w1" "worker_ok w1" "lfq_rep (w_mq w1) ss"
      "w_pipe w1 = replicate (length ss) NEW_CONNECTION" "slot w1 (sk_fd s) = Some c" "fresh_conn s c"
      "\<forall>fd. fd \<noteq> sk_fd s \<longrightarrow> slot w1 fd = slot w fd"
    using recv_one [OF assms(1) Cons.prems(1,2), of "replicate (length ss) NEW_CONNECTION" un now] Cons.prems(3,4) by auto
  obtain w' where w': "recv_all a un now (length ss) w1 = Some w'" "worker_ok w'" "lfq_rep (w_mq w') []" "w_pipe w' = []"
      "\<forall>s \<in> set ss. \<exists>c. slot w' (sk_fd s) = Some c \<and> fresh_conn s c" "\<forall>fd. fd \<notin> sk_fd ` set ss \<longrightarrow> slot w' fd = slot w1 fd"
    using Cons.IH [OF w1(2-4)] Cons.prems(4,5) by auto
  have "slot w' (sk_fd s) = Some c" using w'(6) w1(5) Cons.prems(5) by auto
  then show ?case using w1 w' by auto
qed

section \<open>Properties\<close>

text \<open>
  C4: Connections are distributed round-robin and delivered in order. Whatever
  the workers' queues hold, after the dispatcher has handed out the sockets \<open>ss\<close>
  the queue of worker \<open>j\<close> has grown by exactly those whose position counted from
  the next worker is \<open>j\<close> modulo the number of workers, in the order of arrival, and
  its pipe by one message for each.
\<close>

theorem dispatch_round_robin:
  assumes "queues d qs" and "n = length (d_workers d)"
  shows "\<exists>d'. dispatch_all ss d = Some d' \<and> d_next d' = (d_next d + length ss) mod n \<and>
    queues d' (map (\<lambda>j. qs ! j @ share n (d_next d) ss j) [0..<n]) \<and>
    (\<forall>j < n. w_pipe (d_workers d' ! j) = w_pipe (d_workers d ! j) @ replicate (length (share n (d_next d) ss j)) NEW_CONNECTION)"
proof -
  obtain d' where "dispatch_all ss d = Some d'" "d_next d' = (d_next d + length ss) mod n"
      "queues d' (map (\<lambda>j. qs ! j @ share n (d_next d) ss j) [0..<n])"
      "\<forall>j < n. \<exists>q. d_workers d' ! j = (d_workers d ! j)\<lparr>w_mq := q,
         w_pipe := w_pipe (d_workers d ! j) @ replicate (length (share n (d_next d) ss j)) NEW_CONNECTION\<rparr>"
    using dispatch_all_ok [OF assms, of ss] by blast
  moreover from this(4) have "\<forall>j < n. w_pipe (d_workers d' ! j) =
      w_pipe (d_workers d ! j) @ replicate (length (share n (d_next d) ss j)) NEW_CONNECTION" by fastforce
  ultimately show ?thesis by blast
qed

definition sock_on :: "int \<Rightarrow> sock" where
  "sock_on fd = \<lparr>sk_kind = TCP, sk_fd = fd, sk_local = \<lparr>ip_str = [], ip_port = 0\<rparr>\<rparr>"

definition idle_worker :: "unit worker" where
  "idle_worker = worker_new \<lparr>un_last = 0, un_fd = 0, un_events = 0, un_at = 0, un_repeat = 0\<rparr> server_opts_default ''w'' (sock_on 0) ()"

definition demo_disp :: "nat \<Rightarrow> (unit, unit) dispatcher" where
  "demo_disp n = (dispatcher_new \<lparr>un_last = 0, un_fd = 0, un_events = 0, un_at = 0, un_repeat = 0\<rparr> server_opts_default ())
     \<lparr>d_workers := replicate n idle_worker\<rparr>"

lemma idle_worker_ok: "worker_ok idle_worker" "lfq_rep (w_mq idle_worker) []" "w_pipe idle_worker = []"
proof -
  show "worker_ok idle_worker" unfolding idle_worker_def by (rule worker_ok_new)
  show "lfq_rep (w_mq idle_worker) []" "w_pipe idle_worker = []"
    using lfq_rep_new [of "sock_on 0"] by (simp_all add: idle_worker_def worker_new_def)
qed

lemma demo_disp_queues: "0 < n \<Longrightarrow> queues (demo_disp n) (replicate n [])" "d_next (demo_disp n) = 0" "length (d_workers (demo_disp n)) = n"
  using idle_worker_ok by (simp_all add: queues_def demo_disp_def dispatcher_new_def)

theorem dispatch_round_robin_witness:
  "\<exists>d'. dispatch_all [sock_on 7, sock_on 8, sock_on 9] (demo_disp 2) = Some d' \<and> d_next d' = 1 \<and>
     queues d' [[sock_on 7, sock_on 9], [sock_on 8]]"
proof -
  have "share 2 0 [sock_on 7, sock_on 8, sock_on 9] 0 = [sock_on 7, sock_on 9]" "share 2 0 [sock_on 7, sock_on 8, sock_on 9] 1 = [sock_on 8]"
    by (simp_all add: share_def nths_Cons)
  then show ?thesis
    using dispatch_round_robin [OF demo_disp_queues(1) demo_disp_queues(3) [symmetric], of 2 "[sock_on 7, sock_on 8, sock_on 9]"]
    by (auto simp: demo_disp_queues(2) upt_rec)
qed

text \<open>
  C5: Every socket the dispatcher hands out becomes a connection of the worker
  whose turn it is: once each worker has taken the messages of its pipe, it has a
  new connection, watched for reading, for each socket of its share.
\<close>

theorem dispatched_sockets_connect:
  assumes "mem_ok a" and "n = length (d_workers d)" and "queues d (replicate n [])"
    and "\<forall>j < n. worker_ok (d_workers d ! j) \<and> w_pipe (d_workers d ! j) = []"
    and "\<forall>s \<in> set ss. 0 \<le> sk_fd s \<and> sk_fd s < 2 ^ 30" and "distinct (map sk_fd ss)"
  shows "\<exists>d'. dispatch_all ss d = Some d' \<and>
    (\<forall>j < n. \<exists>w'. recv_all a un now (length (share n (d_next d) ss j)) (d_workers d' ! j) = Some w' \<and> worker_ok w' \<and>
       (\<forall>s \<in> set (share n (d_next d) ss j). \<exists>c. slot w' (sk_fd s) = Some c \<and> fresh_conn s c))"
proof -
  obtain d' where d': "dispatch_all ss d = Some d'"
      "queues d' (map (\<lambda>j. replicate n [] ! j @ share n (d_next d) ss j) [0..<n])"
      "\<forall>j < n. \<exists>q. d_workers d' ! j = (d_workers d ! j)\<lparr>w_mq := q,
         w_pipe := w_pipe (d_workers d ! j) @ replicate (length (share n (d_next d) ss j)) NEW_CONNECTION\<rparr>"
    using dispatch_all_ok [OF assms(3,2), of ss] by blast
  have "\<exists>w'. recv_all a un now (length (share n (d_next d) ss j)) (d_workers d' ! j) = Some w' \<and> worker_ok w' \<and>
      (\<forall>s \<in> set (share n (d_next d) ss j). \<exists>c. slot w' (sk_fd s) = Some c \<and> fresh_conn s c)" if j: "j < n" for j
  proof -
    let ?sh = "share n (d_next d) ss j" and ?w = "d_workers d' ! j"
    obtain q where w: "?w = (d_workers d ! j)\<lparr>w_mq := q, w_pipe := replicate (length ?sh) NEW_CONNECTION\<rparr>"
      using d'(3) assms(4) j by force
    have rep: "lfq_rep (w_mq ?w) ?sh" using d'(2) j by (auto simp: queues_def)
    have ok: "worker_ok ?w" using assms(4) j rep w by (auto simp: worker_ok_def)
    have pipe: "w_pipe ?w = replicate (length ?sh) NEW_CONNECTION" using w by simp
    have fds: "\<forall>s \<in> set ?sh. 0 \<le> sk_fd s \<and> sk_fd s < 2 ^ 30"
      using assms(5) set_nths_subset [of ss "{i. (d_next d + i) mod n = j}"] by (auto simp: share_def)
    have dist: "distinct (map sk_fd ?sh)"
      using distinct_nthsI [OF assms(6), of "{i. (d_next d + i) mod n = j}"] by (simp add: share_def nths_map)
    show ?thesis using recv_all_ok [OF assms(1) ok rep pipe fds dist, of un now] by blast
  qed
  then show ?thesis using d'(1) by blast
qed

theorem dispatched_sockets_connect_witness:
  "\<exists>d' w' c. dispatch_all [sock_on 7, sock_on 8, sock_on 9] (demo_disp 2) = Some d' \<and>
     recv_all demo_mem \<lparr>un_last = 0, un_fd = 0, un_events = 0, un_at = 0, un_repeat = 0\<rparr> 0 2 (d_workers d' ! 0) = Some w' \<and>
     slot w' 9 = Some c \<and> fresh_conn (sock_on 9) c"
proof -
  let ?ss = "[sock_on 7, sock_on 8, sock_on 9]"
  have sh: "share 2 0 ?ss 0 = [sock_on 7, sock_on 9]" by (simp add: share_def nths_Cons)
  have w: "\<forall>j < 2. worker_ok (d_workers (demo_disp 2) ! j) \<and> w_pipe (d_workers (demo_disp 2) ! j) = []"
    using idle_worker_ok by (simp add: demo_disp_def dispatcher_new_def)
  have f: "\<forall>s \<in> set ?ss. 0 \<le> sk_fd s \<and> sk_fd s < 2 ^ 30" "distinct (map sk_fd ?ss)" by (simp_all add: sock_on_def)
  have "sk_fd (sock_on 9) = 9" by (simp add: sock_on_def)
  then show ?thesis
    using dispatched_sockets_connect [OF demo_mem_ok demo_disp_queues(3) [symmetric] demo_disp_queues(1) w f,
        of "\<lparr>un_last = 0, un_fd = 0, un_events = 0, un_at = 0, un_repeat = 0\<rparr>" 0] sh
    by (auto simp: demo_disp_queues(2) numeral_2_eq_2)
qed




definition no_workers :: server_opts where
  "no_workers = server_opts_default\<lparr>so_ip := Some ''127.0.0.1'', so_server_type := 1, so_worker_num := 0\<rparr>"


text \<open>
  C33: When binding a worker to its processor fails, \<open>spawn_worker\<close> deletes the
  worker although its thread has been started and is running on it.
\<close>

theorem bind_failure_deletes_running_worker:
  assumes "worker_ok (f (d_opts d))" and "se_pipe env = Some (rfd, sfd)" and "0 \<le> rfd" and "se_tid env = Some tid"
    and "so_bind_cpu (d_opts d)" and "\<forall>S. se_aff env S \<noteq> 0"
  shows "\<exists>d' w. spawn_worker (Some f) un env d = Some (DISPATCHER_ERROR, d') \<and> d_deleted d' = d_deleted d @ [w] \<and>
    w_running w \<and> w_thread_id w = Some tid \<and> d_workers d' = d_workers d"
proof -
  obtain w1 where w1: "worker_initialize un (se_now env) (Some (rfd, sfd)) (f (d_opts d)) = Some (WORKER_OK, w1)"
    using worker_initialize_ok [OF assms(3)] by blast
  then have c: "w_conns w1 = w_conns (f (d_opts d))" by (auto simp: worker_initialize_def bind_eq_Some_conv Let_def)
  define w where "w = set_worker_id (w_thread_name w1 @ ''_'' @ dec_int (d_cpu d) @ ''_'' @ dec_str tid)
     ((set_cpu_id (d_cpu d) w1)\<lparr>w_thread_name := w_thread_name w1 @ ''_'' @ dec_int (d_cpu d), w_thread_id := Some tid, w_running := True\<rparr>)"
  have "conns_ok (w_conns w)" using c assms(1) by (simp add: w_def set_worker_id_def set_cpu_id_def worker_ok_def)
  then obtain w' where w': "worker_destroy w = Some w'" "w_running w'" "w_thread_id w' = Some tid"
    using close_all_ok [of w] by (auto simp: worker_destroy_def close_all_conns_def w_def set_worker_id_def set_cpu_id_def)
  have "\<not> bind_cpu (se_aff env) w" using assms(6) by (simp add: bind_cpu_def setaffinity_np_def)
  then have "spawn_worker (Some f) un env d = Some (DISPATCHER_ERROR, d\<lparr>d_cpu := s32 (d_cpu d + 1), d_deleted := d_deleted d @ [w']\<rparr>)"
    using w1 w' assms(2,4,5) by (simp add: spawn_worker_def create_thread_def Let_def w_def set_cpu_id_def)
  then show ?thesis using w' by auto
qed

theorem bind_failure_deletes_running_worker_witness:
  "\<exists>d' w. spawn_worker (Some (\<lambda>_. idle_worker)) \<lparr>un_last = 0, un_fd = 0, un_events = 0, un_at = 0, un_repeat = 0\<rparr>
      \<lparr>se_now = 0, se_pipe = Some (5, 6), se_tid = Some 42, se_aff = (\<lambda>_. 22)\<rparr> (demo_disp 0) = Some (DISPATCHER_ERROR, d') \<and>
    d_deleted d' = [w] \<and> w_running w"
  using bind_failure_deletes_running_worker [of "\<lambda>_. idle_worker" "demo_disp 0" "\<lparr>se_now = 0, se_pipe = Some (5, 6), se_tid = Some 42, se_aff = (\<lambda>_. 22)\<rparr>" 5 6 42
      "\<lparr>un_last = 0, un_fd = 0, un_events = 0, un_at = 0, un_repeat = 0\<rparr>"] idle_worker_ok
  by (auto simp: demo_disp_def dispatcher_new_def server_opts_default_def)

end
