(* ===== verification/Crc32c.thy ===== *)
theory Crc32c
  imports Zf_Prelude
begin

text \<open>
  The checksum of \<^verbatim>\<open>src/src/util/crc32c.cpp\<close>. The four tables are those of the source;
  \<open>extend\<close> is the routine that reads single bytes up to a four-byte boundary, then
  sixteen and four bytes at a time, then the rest. The address of the buffer is an
  argument because the routine aligns on it. A read behind the end of the buffer
  gives \<open>None\<close>. The reference is the cyclic redundancy check one bit at a time; the
  main result is that \<open>extend\<close> computes it for every buffer at every address.
\<close>

section \<open>Tables\<close>

(* src/src/util/crc32c.cpp:16-81, table0_ *)
definition table0 :: "32 word list" where
  "table0 = [
    0x00000000, 0xf26b8303, 0xe13b70f7, 0x1350f3f4, 0xc79a971f, 0x35f1141c, 0x26a1e7e8, 0xd4ca64eb,
    0x8ad958cf, 0x78b2dbcc, 0x6be22838, 0x9989ab3b, 0x4d43cfd0, 0xbf284cd3, 0xac78bf27, 0x5e133c24,
    0x105ec76f, 0xe235446c, 0xf165b798, 0x030e349b, 0xd7c45070, 0x25afd373, 0x36ff2087, 0xc494a384,
    0x9a879fa0, 0x68ec1ca3, 0x7bbcef57, 0x89d76c54, 0x5d1d08bf, 0xaf768bbc, 0xbc267848, 0x4e4dfb4b,
    0x20bd8ede, 0xd2d60ddd, 0xc186fe29, 0x33ed7d2a, 0xe72719c1, 0x154c9ac2, 0x061c6936, 0xf477ea35,
    0xaa64d611, 0x580f5512, 0x4b5fa6e6, 0xb93425e5, 0x6dfe410e, 0x9f95c20d, 0x8cc531f9, 0x7eaeb2fa,
    0x30e349b1, 0xc288cab2, 0xd1d83946, 0x23b3ba45, 0xf779deae, 0x05125dad, 0x1642ae59, 0xe4292d5a,
    0xba3a117e, 0x4851927d, 0x5b016189, 0xa96ae28a, 0x7da08661, 0x8fcb0562, 0x9c9bf696, 0x6ef07595,
    0x417b1dbc, 0xb3109ebf, 0xa0406d4b, 0x522bee48, 0x86e18aa3, 0x748a09a0, 0x67dafa54, 0x95b17957,
    0xcba24573, 0x39c9c670, 0x2a993584, 0xd8f2b687, 0x0c38d26c, 0xfe53516f, 0xed03a29b, 0x1f682198,
    0x5125dad3, 0xa34e59d0, 0xb01eaa24, 0x42752927, 0x96bf4dcc, 0x64d4cecf, 0x77843d3b, 0x85efbe38,
    0xdbfc821c, 0x2997011f, 0x3ac7f2eb, 0xc8ac71e8, 0x1c661503, 0xee0d9600, 0xfd5d65f4, 0x0f36e6f7,
    0x61c69362, 0x93ad1061, 0x80fde395, 0x72966096, 0xa65c047d, 0x5437877e, 0x4767748a, 0xb50cf789,
    0xeb1fcbad, 0x197448ae, 0x0a24bb5a, 0xf84f3859, 0x2c855cb2, 0xdeeedfb1, 0xcdbe2c45, 0x3fd5af46,
    0x7198540d, 0x83f3d70e, 0x90a324fa, 0x62c8a7f9, 0xb602c312, 0x44694011, 0x5739b3e5, 0xa55230e6,
    0xfb410cc2, 0x092a8fc1, 0x1a7a7c35, 0xe811ff36, 0x3cdb9bdd, 0xceb018de, 0xdde0eb2a, 0x2f8b6829,
    0x82f63b78, 0x709db87b, 0x63cd4b8f, 0x91a6c88c, 0x456cac67, 0xb7072f64, 0xa457dc90, 0x563c5f93,
    0x082f63b7, 0xfa44e0b4, 0xe9141340, 0x1b7f9043, 0xcfb5f4a8, 0x3dde77ab, 0x2e8e845f, 0xdce5075c,
    0x92a8fc17, 0x60c37f14, 0x73938ce0, 0x81f80fe3, 0x55326b08, 0xa759e80b, 0xb4091bff, 0x466298fc,
    0x1871a4d8, 0xea1a27db, 0xf94ad42f, 0x0b21572c, 0xdfeb33c7, 0x2d80b0c4, 0x3ed04330, 0xccbbc033,
    0xa24bb5a6, 0x502036a5, 0x4370c551, 0xb11b4652, 0x65d122b9, 0x97baa1ba, 0x84ea524e, 0x7681d14d,
    0x2892ed69, 0xdaf96e6a, 0xc9a99d9e, 0x3bc21e9d, 0xef087a76, 0x1d63f975, 0x0e330a81, 0xfc588982,
    0xb21572c9, 0x407ef1ca, 0x532e023e, 0xa145813d, 0x758fe5d6, 0x87e466d5, 0x94b49521, 0x66df1622,
    0x38cc2a06, 0xcaa7a905, 0xd9f75af1, 0x2b9cd9f2, 0xff56bd19, 0x0d3d3e1a, 0x1e6dcdee, 0xec064eed,
    0xc38d26c4, 0x31e6a5c7, 0x22b65633, 0xd0ddd530, 0x0417b1db, 0xf67c32d8, 0xe52cc12c, 0x1747422f,
    0x49547e0b, 0xbb3ffd08, 0xa86f0efc, 0x5a048dff, 0x8ecee914, 0x7ca56a17, 0x6ff599e3, 0x9d9e1ae0,
    0xd3d3e1ab, 0x21b862a8, 0x32e8915c, 0xc083125f, 0x144976b4, 0xe622f5b7, 0xf5720643, 0x07198540,
    0x590ab964, 0xab613a67, 0xb831c993, 0x4a5a4a90, 0x9e902e7b, 0x6cfbad78, 0x7fab5e8c, 0x8dc0dd8f,
    0xe330a81a, 0x115b2b19, 0x020bd8ed, 0xf0605bee, 0x24aa3f05, 0xd6c1bc06, 0xc5914ff2, 0x37faccf1,
    0x69e9f0d5, 0x9b8273d6, 0x88d28022, 0x7ab90321, 0xae7367ca, 0x5c18e4c9, 0x4f48173d, 0xbd23943e,
    0xf36e6f75, 0x0105ec76, 0x12551f82, 0xe03e9c81, 0x34f4f86a, 0xc69f7b69, 0xd5cf889d, 0x27a40b9e,
    0x79b737ba, 0x8bdcb4b9, 0x988c474d, 0x6ae7c44e, 0xbe2da0a5, 0x4c4623a6, 0x5f16d052, 0xad7d5351]"

(* src/src/util/crc32c.cpp:82-147, table1_ *)
definition table1 :: "32 word list" where
  "table1 = [
    0x00000000, 0x13a29877, 0x274530ee, 0x34e7a899, 0x4e8a61dc, 0x5d28f9ab, 0x69cf5132, 0x7a6dc945,
    0x9d14c3b8, 0x8eb65bcf, 0xba51f356, 0xa9f36b21, 0xd39ea264, 0xc03c3a13, 0xf4db928a, 0xe7790afd,
    0x3fc5f181, 0x2c6769f6, 0x1880c16f, 0x0b225918, 0x714f905d, 0x62ed082a, 0x560aa0b3, 0x45a838c4,
    0xa2d13239, 0xb173aa4e, 0x859402d7, 0x96369aa0, 0xec5b53e5, 0xfff9cb92, 0xcb1e630b, 0xd8bcfb7c,
    0x7f8be302, 0x6c297b75, 0x58ced3ec, 0x4b6c4b9b, 0x310182de, 0x22a31aa9, 0x1644b230, 0x05e62a47,
    0xe29f20ba, 0xf13db8cd, 0xc5da1054, 0xd6788823, 0xac154166, 0xbfb7d911, 0x8b507188, 0x98f2e9ff,
    0x404e1283, 0x53ec8af4, 0x670b226d, 0x74a9ba1a, 0x0ec4735f, 0x1d66eb28, 0x298143b1, 0x3a23dbc6,
    0xdd5ad13b, 0xcef8494c, 0xfa1fe1d5, 0xe9bd79a2, 0x93d0b0e7, 0x80722890, 0xb4958009, 0xa737187e,
    0xff17c604, 0xecb55e73, 0xd852f6ea, 0xcbf06e9d, 0xb19da7d8, 0xa23f3faf, 0x96d89736, 0x857a0f41,
    0x620305bc, 0x71a19dcb, 0x45463552, 0x56e4ad25, 0x2c896460, 0x3f2bfc17, 0x0bcc548e, 0x186eccf9,
    0xc0d23785, 0xd370aff2, 0xe797076b, 0xf4359f1c, 0x8e585659, 0x9dface2e, 0xa91d66b7, 0xbabffec0,
    0x5dc6f43d, 0x4e646c4a, 0x7a83c4d3, 0x69215ca4, 0x134c95e1, 0x00ee0d96, 0x3409a50f, 0x27ab3d78,
    0x809c2506, 0x933ebd71, 0xa7d915e8, 0xb47b8d9f, 0xce1644da, 0xddb4dcad, 0xe9537434, 0xfaf1ec43,
    0x1d88e6be, 0x0e2a7ec9, 0x3acdd650, 0x296f4e27, 0x53028762, 0x40a01f15, 0x7447b78c, 0x67e52ffb,
    0xbf59d487, 0xacfb4cf0, 0x981ce469, 0x8bbe7c1e, 0xf1d3b55b, 0xe2712d2c, 0xd69685b5, 0xc5341dc2,
    0x224d173f, 0x31ef8f48, 0x050827d1, 0x16aabfa6, 0x6cc776e3, 0x7f65ee94, 0x4b82460d, 0x5820de7a,
    0xfbc3faf9, 0xe861628e, 0xdc86ca17, 0xcf245260, 0xb5499b25, 0xa6eb0352, 0x920cabcb, 0x81ae33bc,
    0x66d73941, 0x7575a136, 0x419209af, 0x523091d8, 0x285d589d, 0x3bffc0ea, 0x0f186873, 0x1cbaf004,
    0xc4060b78, 0xd7a4930f, 0xe3433b96, 0xf0e1a3e1, 0x8a8c6aa4, 0x992ef2d3, 0xadc95a4a, 0xbe6bc23d,
    0x5912c8c0, 0x4ab050b7, 0x7e57f82e, 0x6df56059, 0x1798a91c, 0x043a316b, 0x30dd99f2, 0x237f0185,
    0x844819fb, 0x97ea818c, 0xa30d2915, 0xb0afb162, 0xcac27827, 0xd960e050, 0xed8748c9, 0xfe25d0be,
    0x195cda43, 0x0afe4234, 0x3e19eaad, 0x2dbb72da, 0x57d6bb9f, 0x447423e8, 0x70938b71, 0x63311306,
    0xbb8de87a, 0xa82f700d, 0x9cc8d894, 0x8f6a40e3, 0xf50789a6, 0xe6a511d1, 0xd242b948, 0xc1e0213f,
    0x26992bc2, 0x353bb3b5, 0x01dc1b2c, 0x127e835b, 0x68134a1e, 0x7bb1d269, 0x4f567af0, 0x5cf4e287,
    0x04d43cfd, 0x1776a48a, 0x23910c13, 0x30339464, 0x4a5e5d21, 0x59fcc556, 0x6d1b6dcf, 0x7eb9f5b8,
    0x99c0ff45, 0x8a626732, 0xbe85cfab, 0xad2757dc, 0xd74a9e99, 0xc4e806ee, 0xf00fae77, 0xe3ad3600,
    0x3b11cd7c, 0x28b3550b, 0x1c54fd92, 0x0ff665e5, 0x759baca0, 0x663934d7, 0x52de9c4e, 0x417c0439,
    0xa6050ec4, 0xb5a796b3, 0x81403e2a, 0x92e2a65d, 0xe88f6f18, 0xfb2df76f, 0xcfca5ff6, 0xdc68c781,
    0x7b5fdfff, 0x68fd4788, 0x5c1aef11, 0x4fb87766, 0x35d5be23, 0x26772654, 0x12908ecd, 0x013216ba,
    0xe64b1c47, 0xf5e98430, 0xc10e2ca9, 0xd2acb4de, 0xa8c17d9b, 0xbb63e5ec, 0x8f844d75, 0x9c26d502,
    0x449a2e7e, 0x5738b609, 0x63df1e90, 0x707d86e7, 0x0a104fa2, 0x19b2d7d5, 0x2d557f4c, 0x3ef7e73b,
    0xd98eedc6, 0xca2c75b1, 0xfecbdd28, 0xed69455f, 0x97048c1a, 0x84a6146d, 0xb041bcf4, 0xa3e32483]"

(* src/src/util/crc32c.cpp:148-213, table2_ *)
definition table2 :: "32 word list" where
  "table2 = [
    0x00000000, 0xa541927e, 0x4f6f520d, 0xea2ec073, 0x9edea41a, 0x3b9f3664, 0xd1b1f617, 0x74f06469,
    0x38513ec5, 0x9d10acbb, 0x773e6cc8, 0xd27ffeb6, 0xa68f9adf, 0x03ce08a1, 0xe9e0c8d2, 0x4ca15aac,
    0x70a27d8a, 0xd5e3eff4, 0x3fcd2f87, 0x9a8cbdf9, 0xee7cd990, 0x4b3d4bee, 0xa1138b9d, 0x045219e3,
    0x48f3434f, 0xedb2d131, 0x079c1142, 0xa2dd833c, 0xd62de755, 0x736c752b, 0x9942b558, 0x3c032726,
    0xe144fb14, 0x4405696a, 0xae2ba919, 0x0b6a3b67, 0x7f9a5f0e, 0xdadbcd70, 0x30f50d03, 0x95b49f7d,
    0xd915c5d1, 0x7c5457af, 0x967a97dc, 0x333b05a2, 0x47cb61cb, 0xe28af3b5, 0x08a433c6, 0xade5a1b8,
    0x91e6869e, 0x34a714e0, 0xde89d493, 0x7bc846ed, 0x0f382284, 0xaa79b0fa, 0x40577089, 0xe516e2f7,
    0xa9b7b85b, 0x0cf62a25, 0xe6d8ea56, 0x43997828, 0x37691c41, 0x92288e3f, 0x78064e4c, 0xdd47dc32,
    0xc76580d9, 0x622412a7, 0x880ad2d4, 0x2d4b40aa, 0x59bb24c3, 0xfcfab6bd, 0x16d476ce, 0xb395e4b0,
    0xff34be1c, 0x5a752c62, 0xb05bec11, 0x151a7e6f, 0x61ea1a06, 0xc4ab8878, 0x2e85480b, 0x8bc4da75,
    0xb7c7fd53, 0x12866f2d, 0xf8a8af5e, 0x5de93d20, 0x29195949, 0x8c58cb37, 0x66760b44, 0xc337993a,
    0x8f96c396, 0x2ad751e8, 0xc0f9919b, 0x65b803e5, 0x1148678c, 0xb409f5f2, 0x5e273581, 0xfb66a7ff,
    0x26217bcd, 0x8360e9b3, 0x694e29c0, 0xcc0fbbbe, 0xb8ffdfd7, 0x1dbe4da9, 0xf7908dda, 0x52d11fa4,
    0x1e704508, 0xbb31d776, 0x511f1705, 0xf45e857b, 0x80aee112, 0x25ef736c, 0xcfc1b31f, 0x6a802161,
    0x56830647, 0xf3c29439, 0x19ec544a, 0xbcadc634, 0xc85da25d, 0x6d1c3023, 0x8732f050, 0x2273622e,
    0x6ed23882, 0xcb93aafc, 0x21bd6a8f, 0x84fcf8f1, 0xf00c9c98, 0x554d0ee6, 0xbf63ce95, 0x1a225ceb,
    0x8b277743, 0x2e66e53d, 0xc448254e, 0x6109b730, 0x15f9d359, 0xb0b84127, 0x5a968154, 0xffd7132a,
    0xb3764986, 0x1637dbf8, 0xfc191b8b, 0x595889f5, 0x2da8ed9c, 0x88e97fe2, 0x62c7bf91, 0xc7862def,
    0xfb850ac9, 0x5ec498b7, 0xb4ea58c4, 0x11abcaba, 0x655baed3, 0xc01a3cad, 0x2a34fcde, 0x8f756ea0,
    0xc3d4340c, 0x6695a672, 0x8cbb6601, 0x29faf47f, 0x5d0a9016, 0xf84b0268, 0x1265c21b, 0xb7245065,
    0x6a638c57, 0xcf221e29, 0x250cde5a, 0x804d4c24, 0xf4bd284d, 0x51fcba33, 0xbbd27a40, 0x1e93e83e,
    0x5232b292, 0xf77320ec, 0x1d5de09f, 0xb81c72e1, 0xccec1688, 0x69ad84f6, 0x83834485, 0x26c2d6fb,
    0x1ac1f1dd, 0xbf8063a3, 0x55aea3d0, 0xf0ef31ae, 0x841f55c7, 0x215ec7b9, 0xcb7007ca, 0x6e3195b4,
    0x2290cf18, 0x87d15d66, 0x6dff9d15, 0xc8be0f6b, 0xbc4e6b02, 0x190ff97c, 0xf321390f, 0x5660ab71,
    0x4c42f79a, 0xe90365e4, 0x032da597, 0xa66c37e9, 0xd29c5380, 0x77ddc1fe, 0x9df3018d, 0x38b293f3,
    0x7413c95f, 0xd1525b21, 0x3b7c9b52, 0x9e3d092c, 0xeacd6d45, 0x4f8cff3b, 0xa5a23f48, 0x00e3ad36,
    0x3ce08a10, 0x99a1186e, 0x738fd81d, 0xd6ce4a63, 0xa23e2e0a, 0x077fbc74, 0xed517c07, 0x4810ee79,
    0x04b1b4d5, 0xa1f026ab, 0x4bdee6d8, 0xee9f74a6, 0x9a6f10cf, 0x3f2e82b1, 0xd50042c2, 0x7041d0bc,
    0xad060c8e, 0x08479ef0, 0xe2695e83, 0x4728ccfd, 0x33d8a894, 0x96993aea, 0x7cb7fa99, 0xd9f668e7,
    0x9557324b, 0x3016a035, 0xda386046, 0x7f79f238, 0x0b899651, 0xaec8042f, 0x44e6c45c, 0xe1a75622,
    0xdda47104, 0x78e5e37a, 0x92cb2309, 0x378ab177, 0x437ad51e, 0xe63b4760, 0x0c158713, 0xa954156d,
    0xe5f54fc1, 0x40b4ddbf, 0xaa9a1dcc, 0x0fdb8fb2, 0x7b2bebdb, 0xde6a79a5, 0x3444b9d6, 0x91052ba8]"

(* src/src/util/crc32c.cpp:214-279, table3_ *)
definition table3 :: "32 word list" where
  "table3 = [
    0x00000000, 0xdd45aab8, 0xbf672381, 0x62228939, 0x7b2231f3, 0xa6679b4b, 0xc4451272, 0x1900b8ca,
    0xf64463e6, 0x2b01c95e, 0x49234067, 0x9466eadf, 0x8d665215, 0x5023f8ad, 0x32017194, 0xef44db2c,
    0xe964b13d, 0x34211b85, 0x560392bc, 0x8b463804, 0x924680ce, 0x4f032a76, 0x2d21a34f, 0xf06409f7,
    0x1f20d2db, 0xc2657863, 0xa047f15a, 0x7d025be2, 0x6402e328, 0xb9474990, 0xdb65c0a9, 0x06206a11,
    0xd725148b, 0x0a60be33, 0x6842370a, 0xb5079db2, 0xac072578, 0x71428fc0, 0x136006f9, 0xce25ac41,
    0x2161776d, 0xfc24ddd5, 0x9e0654ec, 0x4343fe54, 0x5a43469e, 0x8706ec26, 0xe524651f, 0x3861cfa7,
    0x3e41a5b6, 0xe3040f0e, 0x81268637, 0x5c632c8f, 0x45639445, 0x98263efd, 0xfa04b7c4, 0x27411d7c,
    0xc805c650, 0x15406ce8, 0x7762e5d1, 0xaa274f69, 0xb327f7a3, 0x6e625d1b, 0x0c40d422, 0xd1057e9a,
    0xaba65fe7, 0x76e3f55f, 0x14c17c66, 0xc984d6de, 0xd0846e14, 0x0dc1c4ac, 0x6fe34d95, 0xb2a6e72d,
    0x5de23c01, 0x80a796b9, 0xe2851f80, 0x3fc0b538, 0x26c00df2, 0xfb85a74a, 0x99a72e73, 0x44e284cb,
    0x42c2eeda, 0x9f874462, 0xfda5cd5b, 0x20e067e3, 0x39e0df29, 0xe4a57591, 0x8687fca8, 0x5bc25610,
    0xb4868d3c, 0x69c32784, 0x0be1aebd, 0xd6a40405, 0xcfa4bccf, 0x12e11677, 0x70c39f4e, 0xad8635f6,
    0x7c834b6c, 0xa1c6e1d4, 0xc3e468ed, 0x1ea1c255, 0x07a17a9f, 0xdae4d027, 0xb8c6591e, 0x6583f3a6,
    0x8ac7288a, 0x57828232, 0x35a00b0b, 0xe8e5a1b3, 0xf1e51979, 0x2ca0b3c1, 0x4e823af8, 0x93c79040,
    0x95e7fa51, 0x48a250e9, 0x2a80d9d0, 0xf7c57368, 0xeec5cba2, 0x3380611a, 0x51a2e823, 0x8ce7429b,
    0x63a399b7, 0xbee6330f, 0xdcc4ba36, 0x0181108e, 0x1881a844, 0xc5c402fc, 0xa7e68bc5, 0x7aa3217d,
    0x52a0c93f, 0x8fe56387, 0xedc7eabe, 0x30824006, 0x2982f8cc, 0xf4c75274, 0x96e5db4d, 0x4ba071f5,
    0xa4e4aad9, 0x79a10061, 0x1b838958, 0xc6c623e0, 0xdfc69b2a, 0x02833192, 0x60a1b8ab, 0xbde41213,
    0xbbc47802, 0x6681d2ba, 0x04a35b83, 0xd9e6f13b, 0xc0e649f1, 0x1da3e349, 0x7f816a70, 0xa2c4c0c8,
    0x4d801be4, 0x90c5b15c, 0xf2e73865, 0x2fa292dd, 0x36a22a17, 0xebe780af, 0x89c50996, 0x5480a32e,
    0x8585ddb4, 0x58c0770c, 0x3ae2fe35, 0xe7a7548d, 0xfea7ec47, 0x23e246ff, 0x41c0cfc6, 0x9c85657e,
    0x73c1be52, 0xae8414ea, 0xcca69dd3, 0x11e3376b, 0x08e38fa1, 0xd5a62519, 0xb784ac20, 0x6ac10698,
    0x6ce16c89, 0xb1a4c631, 0xd3864f08, 0x0ec3e5b0, 0x17c35d7a, 0xca86f7c2, 0xa8a47efb, 0x75e1d443,
    0x9aa50f6f, 0x47e0a5d7, 0x25c22cee, 0xf8878656, 0xe1873e9c, 0x3cc29424, 0x5ee01d1d, 0x83a5b7a5,
    0xf90696d8, 0x24433c60, 0x4661b559, 0x9b241fe1, 0x8224a72b, 0x5f610d93, 0x3d4384aa, 0xe0062e12,
    0x0f42f53e, 0xd2075f86, 0xb025d6bf, 0x6d607c07, 0x7460c4cd, 0xa9256e75, 0xcb07e74c, 0x16424df4,
    0x106227e5, 0xcd278d5d, 0xaf050464, 0x7240aedc, 0x6b401616, 0xb605bcae, 0xd4273597, 0x09629f2f,
    0xe6264403, 0x3b63eebb, 0x59416782, 0x8404cd3a, 0x9d0475f0, 0x4041df48, 0x22635671, 0xff26fcc9,
    0x2e238253, 0xf36628eb, 0x9144a1d2, 0x4c010b6a, 0x5501b3a0, 0x88441918, 0xea669021, 0x37233a99,
    0xd867e1b5, 0x05224b0d, 0x6700c234, 0xba45688c, 0xa345d046, 0x7e007afe, 0x1c22f3c7, 0xc167597f,
    0xc747336e, 0x1a0299d6, 0x782010ef, 0xa565ba57, 0xbc65029d, 0x6120a825, 0x0302211c, 0xde478ba4,
    0x31035088, 0xec46fa30, 0x8e647309, 0x5321d9b1, 0x4a21617b, 0x9764cbc3, 0xf54642fa, 0x2803e842]"

section \<open>The routine\<close>

text \<open>A position is the value of \<open>l\<close> and the offset of \<open>p\<close> from \<open>buf\<close>.\<close>

(* src/src/util/crc32c.cpp:281-293, DecodeFixed32 *)
definition DecodeFixed32 :: "string \<Rightarrow> nat \<Rightarrow> 32 word option" where
  "DecodeFixed32 buf p = do { bs \<leftarrow> load_at buf p 4; Some (of_nat (le_nat bs)) }"

(* src/src/util/crc32c.cpp:295-298, LE_LOAD32 *)
definition LE_LOAD32 :: "string \<Rightarrow> nat \<Rightarrow> 32 word option" where
  "LE_LOAD32 buf p = DecodeFixed32 buf p"

definition byte_word :: "char \<Rightarrow> 32 word" where
  "byte_word b = of_nat (ord b)"

(* src/src/util/crc32c.cpp:305-308, STEP1 *)
definition STEP1 :: "string \<Rightarrow> 32 word \<times> nat \<Rightarrow> (32 word \<times> nat) option" where
  "STEP1 buf = (\<lambda>(l, p). do {
     b \<leftarrow> peek buf p;
     let c = (l AND 0xff) XOR byte_word b;
     t \<leftarrow> peek table0 (unat c);
     Some (t XOR drop_bit 8 l, p + 1)
   })"

(* src/src/util/crc32c.cpp:309-316, STEP4 *)
definition STEP4 :: "string \<Rightarrow> 32 word \<times> nat \<Rightarrow> (32 word \<times> nat) option" where
  "STEP4 buf = (\<lambda>(l, p). do {
     w \<leftarrow> LE_LOAD32 buf p;
     let c = l XOR w;
     t3 \<leftarrow> peek table3 (unat (c AND 0xff));
     t2 \<leftarrow> peek table2 (unat (drop_bit 8 c AND 0xff));
     t1 \<leftarrow> peek table1 (unat (drop_bit 16 c AND 0xff));
     t0 \<leftarrow> peek table0 (unat (drop_bit 24 c));
     Some (t3 XOR t2 XOR t1 XOR t0, p + 4)
   })"

text \<open>
  The loop \<open>while (p != x) STEP1\<close>, used for the bytes before the boundary and for the last
  ones. A pointer that has passed \<open>x\<close> runs to the end of the buffer and behind it.
\<close>

lemma STEP1_D:
  "STEP1 buf s = Some s' \<Longrightarrow> snd s < length buf \<and> snd s' = Suc (snd s)"
  by (cases s) (auto simp: STEP1_def peek_def Let_def split: if_splits bind_splits)

(* src/src/util/crc32c.cpp:336-339, extend (last loop) *)
function bytes_to :: "string \<Rightarrow> nat \<Rightarrow> 32 word \<times> nat \<Rightarrow> (32 word \<times> nat) option" where
  "bytes_to buf x s =
     (if snd s = x then Some s
      else case STEP1 buf s of None \<Rightarrow> None | Some s' \<Rightarrow> bytes_to buf x s')"
  by pat_completeness auto
termination
  by (relation "measure (\<lambda>(buf, x, s). length buf - snd s)") (auto dest!: STEP1_D)

lemma STEP4_D:
  "STEP4 buf s = Some s' \<Longrightarrow> snd s + 4 \<le> length buf \<and> snd s' = snd s + 4"
  by (cases s) (auto simp: STEP4_def LE_LOAD32_def DecodeFixed32_def load_at_def peek_def Let_def
      split: if_splits bind_splits)

definition STEP4x4 :: "string \<Rightarrow> 32 word \<times> nat \<Rightarrow> (32 word \<times> nat) option" where
  "STEP4x4 buf s = do { s \<leftarrow> STEP4 buf s; s \<leftarrow> STEP4 buf s; s \<leftarrow> STEP4 buf s; STEP4 buf s }"

lemma STEP4x4_D:
  "STEP4x4 buf s = Some s' \<Longrightarrow> snd s + 16 \<le> length buf \<and> snd s' = snd s + 16"
  by (auto simp: STEP4x4_def split: bind_splits dest!: STEP4_D)

(* src/src/util/crc32c.cpp:328-331, extend (16 bytes at a time) *)
function words16 :: "string \<Rightarrow> nat \<Rightarrow> 32 word \<times> nat \<Rightarrow> (32 word \<times> nat) option" where
  "words16 buf e s =
     (if int e - int (snd s) \<ge> 16
      then case STEP4x4 buf s of None \<Rightarrow> None | Some s' \<Rightarrow> words16 buf e s'
      else Some s)"
  by pat_completeness auto
termination
  by (relation "measure (\<lambda>(buf, e, s). length buf - snd s)") (auto dest!: STEP4x4_D)

(* src/src/util/crc32c.cpp:332-335, extend (4 bytes at a time) *)
function words4 :: "string \<Rightarrow> nat \<Rightarrow> 32 word \<times> nat \<Rightarrow> (32 word \<times> nat) option" where
  "words4 buf e s =
     (if int e - int (snd s) \<ge> 4
      then case STEP4 buf s of None \<Rightarrow> None | Some s' \<Rightarrow> words4 buf e s'
      else Some s)"
  by pat_completeness auto
termination
  by (relation "measure (\<lambda>(buf, e, s). length buf - snd s)") (auto dest!: STEP4_D)

declare bytes_to.simps [simp del] words16.simps [simp del] words4.simps [simp del]

text \<open>\<open>pval\<close> is the address of \<open>buf\<close>; the boundary is computed on it with wrap-around.\<close>

(* src/src/util/crc32c.cpp:300-343, extend *)
definition extend :: "32 word \<Rightarrow> int \<Rightarrow> string \<Rightarrow> nat \<Rightarrow> 32 word option" where
  "extend crc pval buf sz = do {
     let e = sz;
     let l = crc XOR 0xffffffff;
     let x = push_bit 2 (drop_bit 2 (u64 (pval + 3)));
     s \<leftarrow> (if x \<le> pval + int e
           then (if x < pval then None else bytes_to buf (nat (x - pval)) (l, 0))
           else Some (l, 0));
     s \<leftarrow> words16 buf e s;
     s \<leftarrow> words4 buf e s;
     s \<leftarrow> bytes_to buf e s;
     Some (fst s XOR 0xffffffff)
   }"

(* src/src/util/crc32c.h:20-23, value *)
definition crc32c_value :: "int \<Rightarrow> string \<Rightarrow> nat \<Rightarrow> 32 word option" where
  "crc32c_value pval data n = extend 0 pval data n"

(* src/src/util/crc32c.h:25-25, kMaskDelta *)
definition kMaskDelta :: "32 word" where
  "kMaskDelta = 0xa282ead8"

(* src/src/util/crc32c.h:27-34, mask *)
definition crc_mask :: "32 word \<Rightarrow> 32 word" where
  "crc_mask crc = (drop_bit 15 crc OR push_bit 17 crc) + kMaskDelta"

(* src/src/util/crc32c.h:36-40, unmask *)
definition crc_unmask :: "32 word \<Rightarrow> 32 word" where
  "crc_unmask masked_crc =
     (let rot = masked_crc - kMaskDelta in drop_bit 17 rot OR push_bit 15 rot)"

section \<open>The reference: one bit at a time\<close>

text \<open>\<open>0x82f63b78\<close> is the Castagnoli polynomial with its bits reversed.\<close>

definition crc_bit :: "32 word \<Rightarrow> 32 word" where
  "crc_bit l = (if bit l 0 then drop_bit 1 l XOR 0x82f63b78 else drop_bit 1 l)"

definition crc_byte :: "32 word \<Rightarrow> char \<Rightarrow> 32 word" where
  "crc_byte l b = (crc_bit ^^ 8) (l XOR byte_word b)"

definition crc_ref :: "32 word \<Rightarrow> string \<Rightarrow> 32 word" where
  "crc_ref crc bs = foldl crc_byte (crc XOR 0xffffffff) bs XOR 0xffffffff"

subsection \<open>The step is linear\<close>

lemma crc_bit_xor: "crc_bit (x XOR y) = crc_bit x XOR crc_bit y"
  by (auto simp: crc_bit_def bit_xor_iff drop_bit_xor ac_simps)

lemma crc_bits_xor: "(crc_bit ^^ n) (x XOR y) = (crc_bit ^^ n) x XOR (crc_bit ^^ n) y"
  by (induction n) (simp_all add: crc_bit_xor)

lemma crc_bits_0 [simp]: "(crc_bit ^^ n) 0 = 0"
  by (induction n) (simp_all add: crc_bit_def)

lemma crc_bits_add: "(crc_bit ^^ (m + n)) x = (crc_bit ^^ m) ((crc_bit ^^ n) x)"
  by (simp add: funpow_add)

text \<open>Bits that have not reached position 0 are only moved.\<close>

lemma crc_bit_push:
  assumes "\<forall>k. bit z k \<longrightarrow> k + Suc n < 32"
  shows "crc_bit (push_bit (Suc n) z) = push_bit n (z :: 32 word)"
proof -
  have "drop_bit 1 (push_bit (Suc n) z) = push_bit n z"
  proof (rule bit_word_eqI)
    fix k
    assume "k < LENGTH(32)"
    then show "bit (drop_bit 1 (push_bit (Suc n) z)) k = bit (push_bit n z) k"
      using assms [rule_format, of "k - n"] by (auto simp: bit_simps simp del: push_bit_Suc)
  qed
  then show ?thesis
    by (simp add: crc_bit_def bit_simps del: push_bit_Suc)
qed

lemma crc_bits_push:
  "\<forall>k. bit z k \<longrightarrow> k + n < 32 \<Longrightarrow> (crc_bit ^^ n) (push_bit n z) = z"
proof (induction n)
  case 0
  then show ?case by simp
next
  case (Suc n)
  have "crc_bit (push_bit (Suc n) z) = push_bit n z"
    using Suc.prems by (rule crc_bit_push)
  moreover have "(crc_bit ^^ n) (push_bit n z) = z"
    using Suc.prems by (intro Suc.IH) fastforce
  ultimately show ?case
    by (simp only: funpow_Suc_right o_apply)
qed

lemma crc_bits_split:
  "(crc_bit ^^ n) x = (crc_bit ^^ n) (take_bit n x) XOR drop_bit n x"
proof -
  have "x = take_bit n x XOR push_bit n (drop_bit n x)"
    by (intro bit_word_eqI) (auto simp: bit_simps)
  then have "(crc_bit ^^ n) x
      = (crc_bit ^^ n) (take_bit n x) XOR (crc_bit ^^ n) (push_bit n (drop_bit n x))"
    by (metis crc_bits_xor)
  moreover have "\<forall>k. bit (drop_bit n x) k \<longrightarrow> k + n < 32"
    by (auto simp: bit_simps dest: bit_imp_le_length)
  ultimately show ?thesis
    by (simp only: crc_bits_push)
qed

text \<open>The first eight of \<open>m + 8\<close> steps use up the low byte.\<close>

lemma crc_bits_byte:
  "(crc_bit ^^ (m + 8)) x = (crc_bit ^^ (m + 8)) (take_bit 8 x) XOR (crc_bit ^^ m) (drop_bit 8 x)"
  by (subst crc_bits_add, subst crc_bits_split) (simp add: crc_bits_xor crc_bits_add)

subsection \<open>The tables\<close>

text \<open>The closure of \<open>gs\<close> under exclusive or, in the order of a table.\<close>

definition xor_span :: "32 word list \<Rightarrow> 32 word list" where
  "xor_span gs = foldl (\<lambda>t g. t @ map (\<lambda>x. g XOR x) t) [0] gs"

lemma xor_span_snoc: "xor_span (gs @ [g]) = xor_span gs @ map (\<lambda>x. g XOR x) (xor_span gs)"
  by (simp add: xor_span_def)

lemma length_xor_span [simp]: "length (xor_span gs) = 2 ^ length gs"
  by (induction gs rule: rev_induct) (simp_all add: xor_span_snoc, simp add: xor_span_def)

lemma of_nat_split_exp:
  assumes "j < 2 ^ n" "n < 32"
  shows "(of_nat (2 ^ n + j) :: 32 word) = 2 ^ n XOR of_nat j"
proof -
  have "(2 ^ n :: 32 word) AND of_nat j = 0"
    using assms by (intro bit_word_eqI)
      (auto simp: bit_simps dest: bit_imp_possible_bit, metis bit_take_bit_iff less_irrefl take_bit_nat_eq_self)
  then show ?thesis
    by (simp add: disjunctive_add_eq_xor)
qed

lemma xor_span_linear:
  fixes f :: "32 word \<Rightarrow> 32 word"
  assumes "\<And>x y. f (x XOR y) = f x XOR f y" "f 0 = 0" "n \<le> 32" "i < 2 ^ n"
  shows "xor_span (map (\<lambda>k. f (2 ^ k)) [0..<n]) ! i = f (of_nat i)"
  using assms(3,4)
proof (induction n arbitrary: i)
  case 0
  then show ?case using assms(2) by (simp add: xor_span_def)
next
  case (Suc n)
  let ?s = "xor_span (map (\<lambda>k. f (2 ^ k)) [0..<n])"
  show ?case
  proof (cases "i < 2 ^ n")
    case True
    then show ?thesis using Suc by (simp add: xor_span_snoc nth_append)
  next
    case False
    then obtain j where j: "i = 2 ^ n + j" by (metis add_diff_inverse_nat)
    then have jn: "j < 2 ^ n" using Suc.prems by simp
    then have "f (of_nat i) = f (2 ^ n) XOR f (of_nat j)"
      using Suc.prems by (simp only: j of_nat_split_exp assms(1))
    then show ?thesis
      using Suc jn by (simp add: xor_span_snoc nth_append j)
  qed
qed

lemma upt_8: "[0..<8] = [0, 1, 2, 3, 4, 5, 6, 7::nat]"
  by (simp add: upt_rec)

lemma crc_8: "(crc_bit ^^ 8) x =
    crc_bit (crc_bit (crc_bit (crc_bit (crc_bit (crc_bit (crc_bit (crc_bit x)))))))"
  by (simp add: numeral_eq_Suc)

lemma table0_span: "table0 = xor_span [0xf26b8303, 0xe13b70f7, 0xc79a971f, 0x8ad958cf,
    0x105ec76f, 0x20bd8ede, 0x417b1dbc, 0x82f63b78]"
  by (simp add: table0_def xor_span_def)

lemma table1_span: "table1 = xor_span [0x13a29877, 0x274530ee, 0x4e8a61dc, 0x9d14c3b8,
    0x3fc5f181, 0x7f8be302, 0xff17c604, 0xfbc3faf9]"
  by (simp add: table1_def xor_span_def)

lemma table2_span: "table2 = xor_span [0xa541927e, 0x4f6f520d, 0x9edea41a, 0x38513ec5,
    0x70a27d8a, 0xe144fb14, 0xc76580d9, 0x8b277743]"
  by (simp add: table2_def xor_span_def)

lemma table3_span: "table3 = xor_span [0xdd45aab8, 0xbf672381, 0x7b2231f3, 0xf64463e6,
    0xe964b13d, 0xd725148b, 0xaba65fe7, 0x52a0c93f]"
  by (simp add: table3_def xor_span_def)

lemma gens0: "map (\<lambda>k. (crc_bit ^^ 8) (2 ^ k)) [0..<8] =
    [0xf26b8303, 0xe13b70f7, 0xc79a971f, 0x8ad958cf,
     0x105ec76f, 0x20bd8ede, 0x417b1dbc, 0x82f63b78]"
  by (simp add: upt_8 crc_8) (simp add: crc_bit_def bit_0)

lemma gens1: "map (\<lambda>k. (crc_bit ^^ 16) (2 ^ k)) [0..<8] =
    [0x13a29877, 0x274530ee, 0x4e8a61dc, 0x9d14c3b8,
     0x3fc5f181, 0x7f8be302, 0xff17c604, 0xfbc3faf9]"
proof -
  have "map (\<lambda>k. (crc_bit ^^ 16) (2 ^ k)) [0..<8]
      = map (crc_bit ^^ 8) (map (\<lambda>k. (crc_bit ^^ 8) (2 ^ k)) [0..<8])"
    using crc_bits_add [of 8 8] by simp
  then show ?thesis
    unfolding gens0 by (simp add: crc_8) (simp add: crc_bit_def bit_0)
qed

lemma gens2: "map (\<lambda>k. (crc_bit ^^ 24) (2 ^ k)) [0..<8] =
    [0xa541927e, 0x4f6f520d, 0x9edea41a, 0x38513ec5,
     0x70a27d8a, 0xe144fb14, 0xc76580d9, 0x8b277743]"
proof -
  have "map (\<lambda>k. (crc_bit ^^ 24) (2 ^ k)) [0..<8]
      = map (crc_bit ^^ 8) (map (\<lambda>k. (crc_bit ^^ 16) (2 ^ k)) [0..<8])"
    using crc_bits_add [of 8 16] by simp
  then show ?thesis
    unfolding gens1 by (simp add: crc_8) (simp add: crc_bit_def bit_0)
qed

lemma gens3: "map (\<lambda>k. (crc_bit ^^ 32) (2 ^ k)) [0..<8] =
    [0xdd45aab8, 0xbf672381, 0x7b2231f3, 0xf64463e6,
     0xe964b13d, 0xd725148b, 0xaba65fe7, 0x52a0c93f]"
proof -
  have "map (\<lambda>k. (crc_bit ^^ 32) (2 ^ k)) [0..<8]
      = map (crc_bit ^^ 8) (map (\<lambda>k. (crc_bit ^^ 24) (2 ^ k)) [0..<8])"
    using crc_bits_add [of 8 24] by simp
  then show ?thesis
    unfolding gens2 by (simp add: crc_8) (simp add: crc_bit_def bit_0)
qed

lemma nth_table0: "i < 256 \<Longrightarrow> table0 ! i = (crc_bit ^^ 8) (of_nat i)"
  using xor_span_linear [of "crc_bit ^^ 8" 8 i] crc_bits_xor
  by (simp add: table0_span gens0)

lemma length_table0 [simp]: "length table0 = 256"
  by (simp add: table0_span)

lemma nth_table1: "i < 256 \<Longrightarrow> table1 ! i = (crc_bit ^^ 16) (of_nat i)"
  using xor_span_linear [of "crc_bit ^^ 16" 8 i] crc_bits_xor
  by (simp add: table1_span gens1)

lemma length_table1 [simp]: "length table1 = 256"
  by (simp add: table1_span)

lemma nth_table2: "i < 256 \<Longrightarrow> table2 ! i = (crc_bit ^^ 24) (of_nat i)"
  using xor_span_linear [of "crc_bit ^^ 24" 8 i] crc_bits_xor
  by (simp add: table2_span gens2)

lemma length_table2 [simp]: "length table2 = 256"
  by (simp add: table2_span)

lemma nth_table3: "i < 256 \<Longrightarrow> table3 ! i = (crc_bit ^^ 32) (of_nat i)"
  using xor_span_linear [of "crc_bit ^^ 32" 8 i] crc_bits_xor
  by (simp add: table3_span gens3)

lemma length_table3 [simp]: "length table3 = 256"
  by (simp add: table3_span)

subsection \<open>The unrolled steps\<close>

lemma take_bit_8: "x AND 0xff = take_bit 8 (x :: 32 word)"
  by (simp add: take_bit_eq_mask mask_eq_decr_exp)

lemma byte_word_take: "take_bit 8 (byte_word b) = byte_word b"
  using ord_less_256 [of b] by (simp add: byte_word_def take_bit_nat_eq_self flip: of_nat_take_bit)

lemma bit_byte_word: "bit (byte_word b) k \<Longrightarrow> k < 8"
  by (metis bit_take_bit_iff byte_word_take)

lemma drop_byte_word [simp]: "drop_bit 8 (byte_word b) = 0"
  by (rule bit_word_eqI) (auto simp: bit_simps dest!: bit_byte_word)

lemma unat_byte: "unat (take_bit 8 (x :: 32 word)) < 256"
  by (simp add: unsigned_take_bit_eq take_bit_nat_def)

lemma unat_lt_32: "unat (x :: 32 word) < 2 ^ 32"
  using unsigned_less [of x] by simp

lemma unat_drop_24: "unat (drop_bit 24 (x :: 32 word)) < 256"
  using unat_lt_32 [of x]
  by (simp add: unsigned_drop_bit_eq drop_bit_nat_def take_bit_nat_eq_self)

lemma crc_index: "(l AND 0xff) XOR byte_word b = take_bit 8 (l XOR byte_word b)"
  by (simp add: take_bit_xor take_bit_8 byte_word_take)

lemma crc_byte_table:
  "crc_byte l b = table0 ! unat ((l AND 0xff) XOR byte_word b) XOR drop_bit 8 l"
proof -
  have "drop_bit 8 (l XOR byte_word b) = drop_bit 8 l"
    by (simp add: drop_bit_xor)
  moreover have "table0 ! unat (take_bit 8 (l XOR byte_word b)) = (crc_bit ^^ 8) (take_bit 8 (l XOR byte_word b))"
    by (rule nth_table0 [OF unat_byte, simplified])
  ultimately show ?thesis
    unfolding crc_byte_def crc_index by (subst crc_bits_split) simp
qed

text \<open>A load of four bytes, and one step over all of its 32 bits.\<close>

lemma le_nat_Cons_word:
  "(of_nat (le_nat (b # bs)) :: 32 word) = byte_word b XOR push_bit 8 (of_nat (le_nat bs))"
proof -
  have "byte_word b AND push_bit 8 (of_nat (le_nat bs)) = 0"
    by (rule bit_word_eqI) (auto simp: bit_simps dest!: bit_byte_word)
  then have "byte_word b XOR push_bit 8 (of_nat (le_nat bs)) = byte_word b + push_bit 8 (of_nat (le_nat bs))"
    by (simp only: disjunctive_add_eq_xor)
  then show ?thesis
    by (simp add: byte_word_def push_bit_eq_mult)
qed

lemma crc_byte_later:
  "m \<le> 24 \<Longrightarrow> crc_byte ((crc_bit ^^ m) x) b = (crc_bit ^^ (8 + m)) (x XOR push_bit m (byte_word b))"
proof -
  assume "m \<le> 24"
  then have "(crc_bit ^^ m) (push_bit m (byte_word b)) = byte_word b"
    by (intro crc_bits_push) (auto dest!: bit_byte_word)
  then show ?thesis
    by (simp add: crc_byte_def crc_bits_add crc_bits_xor)
qed

lemma crc_four_bytes:
  "foldl crc_byte l [b0, b1, b2, b3] = (crc_bit ^^ 32) (l XOR of_nat (le_nat [b0, b1, b2, b3]))"
proof -
  let ?x1 = "l XOR byte_word b0"
  let ?x2 = "?x1 XOR push_bit 8 (byte_word b1)"
  let ?x3 = "?x2 XOR push_bit 16 (byte_word b2)"
  have 1: "crc_byte l b0 = (crc_bit ^^ 8) ?x1"
    by (simp add: crc_byte_def)
  have 2: "crc_byte ((crc_bit ^^ 8) ?x1) b1 = (crc_bit ^^ 16) ?x2"
    by (subst crc_byte_later) simp_all
  have 3: "crc_byte ((crc_bit ^^ 16) ?x2) b2 = (crc_bit ^^ 24) ?x3"
    by (subst crc_byte_later) simp_all
  have 4: "crc_byte ((crc_bit ^^ 24) ?x3) b3 = (crc_bit ^^ 32) (?x3 XOR push_bit 24 (byte_word b3))"
    by (subst crc_byte_later) simp_all
  have "(of_nat (le_nat [b0, b1, b2, b3]) :: 32 word)
      = byte_word b0 XOR push_bit 8 (byte_word b1) XOR push_bit 16 (byte_word b2) XOR push_bit 24 (byte_word b3)"
    by (simp only: le_nat_Cons_word) (simp add: push_bit_xor ac_simps)
  then show ?thesis
    by (simp only: foldl.simps 1 2 3 4) (simp add: ac_simps)
qed

lemma crc_four_tables:
  "(crc_bit ^^ 32) c = table3 ! unat (c AND 0xff) XOR table2 ! unat (drop_bit 8 c AND 0xff) XOR
     table1 ! unat (drop_bit 16 c AND 0xff) XOR table0 ! unat (drop_bit 24 c)"
proof -
  have 32: "(crc_bit ^^ 32) c = (crc_bit ^^ 32) (take_bit 8 c) XOR (crc_bit ^^ 24) (drop_bit 8 c)"
    using crc_bits_byte [of 24 c] by simp
  have 24: "(crc_bit ^^ 24) (drop_bit 8 c)
      = (crc_bit ^^ 24) (take_bit 8 (drop_bit 8 c)) XOR (crc_bit ^^ 16) (drop_bit 16 c)"
    using crc_bits_byte [of 16 "drop_bit 8 c"] by simp
  have 16: "(crc_bit ^^ 16) (drop_bit 16 c)
      = (crc_bit ^^ 16) (take_bit 8 (drop_bit 16 c)) XOR (crc_bit ^^ 8) (drop_bit 24 c)"
    using crc_bits_byte [of 8 "drop_bit 16 c"] by simp
  show ?thesis
    unfolding 32 24 16 take_bit_8
    by (simp add: nth_table0 nth_table1 nth_table2 nth_table3 unat_byte unat_drop_24 ac_simps)
qed

subsection \<open>The loops\<close>

text \<open>\<open>crc_at buf l s\<close>: the state \<open>s\<close> is what the reference gives after the first \<open>snd s\<close> bytes.\<close>

definition crc_at :: "string \<Rightarrow> 32 word \<Rightarrow> 32 word \<times> nat \<Rightarrow> bool" where
  "crc_at buf l s \<longleftrightarrow> snd s \<le> length buf \<and> fst s = foldl crc_byte l (take (snd s) buf)"

lemma STEP1_at:
  assumes "crc_at buf l s" "snd s < length buf"
  shows "\<exists>s'. STEP1 buf s = Some s' \<and> crc_at buf l s' \<and> snd s' = Suc (snd s)"
proof -
  obtain r p where s: "s = (r, p)" by (cases s)
  have "unat ((r AND 0xff) XOR byte_word b) < 256" for b
    unfolding crc_index by (rule unat_byte)
  then have "STEP1 buf s = Some (crc_byte r (buf ! p), Suc p)"
    using assms(2) by (simp add: s STEP1_def Let_def crc_byte_table)
  then show ?thesis
    using assms by (simp add: s crc_at_def take_Suc_conv_app_nth)
qed

lemma length_4: "length xs = 4 \<Longrightarrow> \<exists>a b c d. xs = [a, b, c, d]"
  by (auto simp: numeral_eq_Suc length_Suc_conv)

lemma STEP4_at:
  assumes "crc_at buf l s" "snd s + 4 \<le> length buf"
  shows "\<exists>s'. STEP4 buf s = Some s' \<and> crc_at buf l s' \<and> snd s' = snd s + 4"
proof -
  obtain r p where s: "s = (r, p)" by (cases s)
  have "length (take 4 (drop p buf)) = 4" using assms(2) by (simp add: s)
  then obtain b0 b1 b2 b3 where bs: "take 4 (drop p buf) = [b0, b1, b2, b3]"
    using length_4 by blast
  have "STEP4 buf s = Some (foldl crc_byte r [b0, b1, b2, b3], p + 4)"
    unfolding crc_four_bytes crc_four_tables
    using assms(2) by (simp add: s STEP4_def LE_LOAD32_def DecodeFixed32_def bs Let_def take_bit_8
        unat_byte unat_drop_24 del: le_nat.simps)
  moreover have "take (p + 4) buf = take p buf @ [b0, b1, b2, b3]"
    using assms(2) by (simp add: take_add bs)
  ultimately show ?thesis
    using assms by (simp add: s crc_at_def)
qed

lemma bytes_to_at:
  "crc_at buf l s \<Longrightarrow> snd s \<le> x \<Longrightarrow> x \<le> length buf \<Longrightarrow>
     \<exists>s'. bytes_to buf x s = Some s' \<and> crc_at buf l s' \<and> snd s' = x"
proof (induction buf x s rule: bytes_to.induct)
  case (1 buf x s)
  show ?case
  proof (cases "snd s = x")
    case True
    then show ?thesis using 1 by (subst bytes_to.simps) simp
  next
    case False
    with 1 obtain s' where "STEP1 buf s = Some s'" "crc_at buf l s'" "snd s' = Suc (snd s)"
      using STEP1_at [of buf l s] by auto
    with 1 False show ?thesis by (subst bytes_to.simps) simp
  qed
qed

lemma STEP4x4_at:
  assumes "crc_at buf l s" "snd s + 16 \<le> length buf"
  shows "\<exists>s'. STEP4x4 buf s = Some s' \<and> crc_at buf l s' \<and> snd s' = snd s + 16"
proof -
  obtain s1 where 1: "STEP4 buf s = Some s1" "crc_at buf l s1" "snd s1 = snd s + 4"
    using STEP4_at [of buf l s] assms by auto
  obtain s2 where 2: "STEP4 buf s1 = Some s2" "crc_at buf l s2" "snd s2 = snd s + 8"
    using STEP4_at [of buf l s1] assms 1 by auto
  obtain s3 where 3: "STEP4 buf s2 = Some s3" "crc_at buf l s3" "snd s3 = snd s + 12"
    using STEP4_at [of buf l s2] assms 2 by auto
  obtain s4 where 4: "STEP4 buf s3 = Some s4" "crc_at buf l s4" "snd s4 = snd s + 16"
    using STEP4_at [of buf l s3] assms 3 by auto
  show ?thesis
    using 1 2 3 4 by (simp add: STEP4x4_def)
qed

lemma words16_at:
  "crc_at buf l s \<Longrightarrow> snd s \<le> e \<Longrightarrow> e \<le> length buf \<Longrightarrow>
     \<exists>s'. words16 buf e s = Some s' \<and> crc_at buf l s' \<and> snd s' \<le> e"
proof (induction buf e s rule: words16.induct)
  case (1 buf e s)
  show ?case
  proof (cases "int e - int (snd s) \<ge> 16")
    case True
    with 1 obtain s' where "STEP4x4 buf s = Some s'" "crc_at buf l s'" "snd s' = snd s + 16"
      using STEP4x4_at [of buf l s] by auto
    with 1 True show ?thesis by (subst words16.simps) simp
  next
    case False
    then show ?thesis using 1 by (subst words16.simps) simp
  qed
qed

lemma words4_at:
  "crc_at buf l s \<Longrightarrow> snd s \<le> e \<Longrightarrow> e \<le> length buf \<Longrightarrow>
     \<exists>s'. words4 buf e s = Some s' \<and> crc_at buf l s' \<and> snd s' \<le> e"
proof (induction buf e s rule: words4.induct)
  case (1 buf e s)
  show ?case
  proof (cases "int e - int (snd s) \<ge> 4")
    case True
    with 1 obtain s' where "STEP4 buf s = Some s'" "crc_at buf l s'" "snd s' = snd s + 4"
      using STEP4_at [of buf l s] by auto
    with 1 True show ?thesis by (subst words4.simps) simp
  next
    case False
    then show ?thesis using 1 by (subst words4.simps) simp
  qed
qed

text \<open>The boundary is the first multiple of four that is not below the address.\<close>

lemma boundary_ge:
  assumes "0 \<le> p" "p + 3 < 2 ^ 64"
  shows "p \<le> push_bit 2 (drop_bit 2 (u64 (p + 3)))"
  using assms by (simp add: push_bit_eq_mult drop_bit_eq_div)

lemma crc_ref_append: "crc_ref crc (xs @ ys) = crc_ref (crc_ref crc xs) ys"
  by (simp add: crc_ref_def xor.assoc)

text \<open>The check value published for this checksum.\<close>

lemma check_value: "crc_ref 0 ''123456789'' = 0xe3069283"
  by (simp add: crc_ref_def crc_byte_table byte_word_def table0_def)

text \<open>The two rotations of \<open>mask\<close> and \<open>unmask\<close> undo each other.\<close>

lemma rotate_17_15:
  "drop_bit 17 (drop_bit 15 r OR push_bit 17 r) OR push_bit 15 (drop_bit 15 r OR push_bit 17 r) = r"
  for r :: "32 word"
proof (rule bit_word_eqI)
  show "bit (drop_bit 17 (drop_bit 15 r OR push_bit 17 r) OR
      push_bit 15 (drop_bit 15 r OR push_bit 17 r)) n = bit r n" if "n < LENGTH(32)" for n
    using that by (cases "n < 15") (auto simp: bit_simps)
qed

lemma rotate_15_17:
  "drop_bit 15 (drop_bit 17 r OR push_bit 15 r) OR push_bit 17 (drop_bit 17 r OR push_bit 15 r) = r"
  for r :: "32 word"
proof (rule bit_word_eqI)
  show "bit (drop_bit 15 (drop_bit 17 r OR push_bit 15 r) OR
      push_bit 17 (drop_bit 17 r OR push_bit 15 r)) n = bit r n" if "n < LENGTH(32)" for n
    using that by (cases "n < 17") (auto simp: bit_simps)
qed

section \<open>Properties\<close>

text \<open>
  C7: for a buffer of at least \<open>size\<close> bytes at any address \<open>extend\<close> returns, without reading outside the
  buffer, what the bitwise cyclic redundancy check gives for its first \<open>size\<close> bytes, wherever
  the four-byte boundaries lie.
\<close>

theorem extend_is_crc:
  assumes "0 \<le> pval" "pval + 3 < 2 ^ 64" "sz \<le> length buf"
  shows "extend crc pval buf sz = Some (crc_ref crc (take sz buf))"
proof -
  define l where "l = crc XOR 0xffffffff"
  define x where "x = push_bit 2 (drop_bit 2 (u64 (pval + 3)))"
  have x: "pval \<le> x" unfolding x_def using assms by (intro boundary_ge)
  have l0: "crc_at buf l (l, 0)" by (simp add: crc_at_def)
  obtain s1 where 1: "(if x \<le> pval + int sz then (if x < pval then None
      else bytes_to buf (nat (x - pval)) (l, 0)) else Some (l, 0)) = Some s1"
    "crc_at buf l s1" "snd s1 \<le> sz"
  proof (cases "x \<le> pval + int sz")
    case True
    then have n: "nat (x - pval) \<le> sz" by simp
    then have "nat (x - pval) \<le> length buf" using assms(3) by simp
    then show thesis
      using bytes_to_at [OF l0, of "nat (x - pval)"] x n True that by auto
  next
    case False
    then show thesis using that l0 by simp
  qed
  obtain s2 where 2: "words16 buf sz s1 = Some s2" "crc_at buf l s2" "snd s2 \<le> sz"
    using words16_at [OF 1(2,3) assms(3)] by auto
  obtain s3 where 3: "words4 buf sz s2 = Some s3" "crc_at buf l s3" "snd s3 \<le> sz"
    using words4_at [OF 2(2,3) assms(3)] by auto
  obtain s4 where 4: "bytes_to buf sz s3 = Some s4" "crc_at buf l s4" "snd s4 = sz"
    using bytes_to_at [OF 3(2,3) assms(3)] by auto
  show ?thesis
    using 4 by (simp add: extend_def Let_def 1(1) 2(1) 3(1) crc_ref_def crc_at_def
        flip: l_def x_def)
qed

theorem extend_is_crc_witness:
  "extend 0 5 ''123456789'' 9 = Some 0xe3069283"
  using extend_is_crc [of 5 9 "''123456789''" 0] by (simp add: check_value)

text \<open>
  \<open>unmask\<close> inverts \<open>mask\<close> and \<open>mask\<close> inverts \<open>unmask\<close>, for all 32-bit values.
\<close>

lemma mask_roundtrip: "crc_unmask (crc_mask c) = c \<and> crc_mask (crc_unmask c) = c"
  by (simp only: crc_unmask_def crc_mask_def Let_def add_diff_cancel_right' diff_add_cancel
      rotate_17_15 rotate_15_17 simp_thms)

end
