(* ===== verification/Num_Utils.thy ===== *)
theory Num_Utils
  imports Sds_Text Complex_Main
begin

text \<open>
  The number conversions of \<^verbatim>\<open>src/src/util/utils.cpp\<close>. A C string argument is the list of its
  bytes without the terminator; \<open>string2ll\<close> gets the \<open>slen\<close> bytes it may read. A product of signed
  integers that overflows has the value the compiled program gives it, its low bits.
  The result of a conversion that can fail carries the value of \<open>*err\<close> or is an option.
\<close>

section \<open>Amounts with a unit\<close>

text \<open>
  \<open>strtoll(s, NULL, 10)\<close>: leading white space, a sign, then the longest run of digits; a value
  out of range is replaced by the nearest bound. \<open>atoi\<close> keeps the low 32 bits of it.
\<close>

definition c_strtoll :: "string \<Rightarrow> int" where
  "c_strtoll s =
     (let s = dropWhile c_isspace s;
          neg = (s \<noteq> [] \<and> hd s = CHR ''-'');
          s = (if s \<noteq> [] \<and> (hd s = CHR ''-'' \<or> hd s = CHR ''+'') then tl s else s);
          v = int (dec_val (takeWhile c_isdigit s));
          v = (if neg then - v else v)
      in max (- (2 ^ 63)) (min (2 ^ 63 - 1) v))"

definition c_atoi :: "string \<Rightarrow> int" where
  "c_atoi s = s32 (c_strtoll s)"

(* src/src/util/utils.cpp:24-37, timetoll *)
definition time_unit :: "string \<Rightarrow> int \<times> bool" where
  "time_unit u =
     (if u = [] \<or> strcaseeq u ''us'' then (1, False)
      else if strcaseeq u ''ms'' then (1000, False)
      else if strcaseeq u ''s'' then (s32 (1000 * 1000), False)
      else if strcaseeq u ''m'' then (s32 (60 * 1000 * 1000), False)
      else if strcaseeq u ''h'' then (s32 (60 * 60 * 1000 * 1000), False)
      else (1, True))"

(* src/src/util/utils.cpp:13-47, timetoll *)
definition timetoll :: "string \<Rightarrow> int \<times> bool" where
  "timetoll p =
     (let u = dropWhile c_isdigit p;
          (mul, err) = time_unit u;
          digits = length p - length u
      in if digits \<ge> 128 then (2 ^ 63 - 1, True)
         else (s64 (c_strtoll (take digits p) * mul), err))"

(* src/src/util/utils.cpp:67-84, memtoll *)
definition mem_unit :: "string \<Rightarrow> int \<times> bool" where
  "mem_unit u =
     (if u = [] \<or> strcaseeq u ''b'' then (1, False)
      else if strcaseeq u ''k'' then (1000, False)
      else if strcaseeq u ''kb'' then (1024, False)
      else if strcaseeq u ''m'' then (1000 * 1000, False)
      else if strcaseeq u ''mb'' then (1024 * 1024, False)
      else if strcaseeq u ''g'' then (1000 * 1000 * 1000, False)
      else if strcaseeq u ''gb'' then (1024 * 1024 * 1024, False)
      else (1, True))"

(* src/src/util/utils.cpp:49-94, memtoll *)
definition memtoll :: "string \<Rightarrow> int \<times> bool" where
  "memtoll p =
     (let u = (if p \<noteq> [] \<and> hd p = CHR ''-'' then tl p else p);
          u = dropWhile c_isdigit u;
          (mul, err) = mem_unit u;
          digits = length p - length u
      in if digits \<ge> 128 then (2 ^ 63 - 1, True)
         else (s64 (c_strtoll (take digits p) * mul), err))"

section \<open>Printing and reading integers\<close>

text \<open>\<open>buf\<close> is the uninitialised local array of 32 bytes.\<close>

(* src/src/util/utils.cpp:96-118, ll2string *)
definition ll2string :: "string \<Rightarrow> string \<Rightarrow> nat \<Rightarrow> int \<Rightarrow> (string \<times> nat) option" where
  "ll2string buf s len val =
     (if len = 0 then Some (s, 0)
      else do {
        (buf, p) \<leftarrow> ll_text buf val;
        let l = nat (32 - p);
        let l = (if l + 1 > len then len - 1 else l);
        bs \<leftarrow> load_at buf (nat p) l;
        s \<leftarrow> store_at s 0 bs;
        s \<leftarrow> poke s l NUL;
        Some (s, l) })"

text \<open>The loop of \<open>string2ll\<close>: \<open>None\<close> is its return of 0, otherwise \<open>v\<close> and the bytes left.\<close>

abbreviation ULLONG_MAX :: int where "ULLONG_MAX \<equiv> 2 ^ 64 - 1"

(* src/src/util/utils.cpp:158-168, string2ll *)
fun digits_loop :: "int \<Rightarrow> string \<Rightarrow> (int \<times> string) option" where
  "digits_loop v [] = Some (v, [])"
| "digits_loop v (c # p) =
     (if c_isdigit c then
        if v > ULLONG_MAX div 10 then None
        else let v = v * 10; d = int (ord c) - 48 in
          if v > ULLONG_MAX - d then None else digits_loop (v + d) p
      else Some (v, c # p))"

(* src/src/util/utils.cpp:120-184, string2ll *)
definition string2ll :: "string \<Rightarrow> int option" where
  "string2ll s =
     (if s = [] then None
      else if s = ''0'' then Some 0
      else
        let negative = (hd s = CHR ''-'');
            p = (if negative then tl s else s)
        in case p of
             [] \<Rightarrow> None
           | c # p \<Rightarrow>
               if 49 \<le> ord c \<and> ord c \<le> 57 then do {
                 (v, rest) \<leftarrow> digits_loop (int (ord c) - 48) p;
                 if rest \<noteq> [] then None
                 else if negative then
                   if v > 2 ^ 63 - 1 + 1 then None else Some (s64 (u64 (- v)))
                 else if v > 2 ^ 63 - 1 then None else Some (s64 v) }
               else if c = CHR ''0'' \<and> length s = 1 then Some 0
               else None)"

text \<open>A \<open>long\<close> has 64 bits.\<close>

(* src/src/util/utils.cpp:186-200, string2l *)
definition string2l :: "string \<Rightarrow> int option" where
  "string2l s = do {
     llval \<leftarrow> string2ll s;
     if llval < - (2 ^ 63) \<or> llval > 2 ^ 63 - 1 then None else Some llval }"

section \<open>Floating point numbers\<close>

text \<open>
  A \<open>double\<close> by the cases the code tells apart; the sign of a zero or an infinity is a flag
  that is set for the negative one. \<open>g17\<close> is the output of the library for \<open>"%.17g"\<close>.
\<close>

datatype double = NaN | Infinite bool | Zero bool | Finite real

definition trunc_ll :: "real \<Rightarrow> int" where
  "trunc_ll r = (if r < 0 then ceiling r else floor r)"

definition c_snprintf :: "string \<Rightarrow> nat \<Rightarrow> string \<Rightarrow> (string \<times> nat) option" where
  "c_snprintf buf len out =
     (if len = 0 then Some (buf, length out)
      else do { buf \<leftarrow> store_at buf 0 (take (len - 1) out @ [NUL]); Some (buf, length out) })"

(* src/src/util/utils.cpp:202-239, d2string *)
definition d2string :: "(real \<Rightarrow> string) \<Rightarrow> string \<Rightarrow> string \<Rightarrow> nat \<Rightarrow> double \<Rightarrow> (string \<times> nat) option" where
  "d2string g17 tmp buf len val =
     (case val of
        NaN \<Rightarrow> c_snprintf buf len ''nan''
      | Infinite neg \<Rightarrow> if neg then c_snprintf buf len ''-inf'' else c_snprintf buf len ''inf''
      | Zero neg \<Rightarrow> if neg then c_snprintf buf len ''-0'' else c_snprintf buf len ''0''
      | Finite r \<Rightarrow>
          if -4503599627370495 < r \<and> r < 4503599627370496 \<and> r = of_int (trunc_ll r)
          then ll2string tmp buf len (trunc_ll r)
          else c_snprintf buf len (g17 r))"

section \<open>Random identifiers and time\<close>

text \<open>
  \<open>urandom\<close> is \<open>None\<close> when the device cannot be opened and \<open>Some None\<close> when the read fails; \<open>p\<close>
  holds what the buffer then contains. \<open>usec\<close>, \<open>sec\<close>, \<open>pid\<close> are the values of the system calls and
  \<open>rnd j\<close> the \<open>j\<close>-th result of \<open>rand\<close>. Closing a stream that was not opened is an invalid access.
\<close>

(* src/src/util/utils.cpp:261-275, getRandomHexChars *)
definition put_if_fits :: "string \<Rightarrow> string \<times> nat \<times> nat \<Rightarrow> (string \<times> nat \<times> nat) option" where
  "put_if_fits bs = (\<lambda>(p, x, l).
     if l \<ge> length bs then do { p \<leftarrow> store_at p x bs; Some (p, x + length bs, l - length bs) }
     else Some (p, x, l))"

(* src/src/util/utils.cpp:250-280, getRandomHexChars *)
definition random_fill :: "string \<Rightarrow> nat \<Rightarrow> string option option \<Rightarrow> nat \<Rightarrow> nat \<Rightarrow> nat \<Rightarrow> (nat \<Rightarrow> nat) \<Rightarrow> string option" where
  "random_fill p len urandom usec sec pid rnd =
     (case urandom of
        Some (Some bytes) \<Rightarrow> if len = 0 then Some p else store_at p 0 (take len bytes)
      | _ \<Rightarrow> do {
          s \<leftarrow> put_if_fits (le_bytes 8 usec) (p, 0, len);
          s \<leftarrow> put_if_fits (le_bytes 8 sec) s;
          (p, x, l) \<leftarrow> put_if_fits (le_bytes 4 pid) s;
          if len \<le> length p then
            Some (map (\<lambda>j. char_of (ord (p ! j) XOR (rnd j mod 256))) [0..<len] @ drop len p)
          else None })"

(* src/src/util/utils.cpp:241-285, getRandomHexChars *)
definition getRandomHexChars :: "string \<Rightarrow> nat \<Rightarrow> string option option \<Rightarrow> nat \<Rightarrow> nat \<Rightarrow> nat \<Rightarrow> (nat \<Rightarrow> nat) \<Rightarrow> string option" where
  "getRandomHexChars p len urandom usec sec pid rnd = do {
     p \<leftarrow> random_fill p len urandom usec sec pid rnd;
     bs \<leftarrow> load_at p 0 len;
     p \<leftarrow> store_at p 0 (map (\<lambda>c. ''0123456789abcdef'' ! (ord c mod 16)) bs);
     if urandom = None then None else Some p }"

(* src/src/util/utils.cpp:287-296, ustime *)
definition ustime :: "int \<Rightarrow> int \<Rightarrow> int" where
  "ustime tv_sec tv_usec = s64 (s64 (tv_sec * 1000000) + tv_usec)"

text \<open>Division of the source rounds towards zero.\<close>

(* src/src/util/utils.cpp:298-301, mstime *)
definition mstime :: "int \<Rightarrow> int \<Rightarrow> int" where
  "mstime tv_sec tv_usec =
     (let t = ustime tv_sec tv_usec in if t < 0 then - (- t div 1000) else t div 1000)"

section \<open>Decimal strings\<close>

text \<open>The value of further digits after \<open>v\<close>.\<close>

definition num :: "int \<Rightarrow> string \<Rightarrow> int" where
  "num v ds = foldl (\<lambda>a c. a * 10 + (int (ord c) - 48)) v ds"

lemma num_Nil [simp]: "num v [] = v"
  by (simp add: num_def)

lemma num_Cons [simp]: "num v (c # ds) = num (v * 10 + (int (ord c) - 48)) ds"
  by (simp add: num_def)

lemma num_ge: "\<forall>c \<in> set ds. c_isdigit c \<Longrightarrow> 0 \<le> v \<Longrightarrow> v \<le> num v ds"
proof (induction ds arbitrary: v)
  case Nil
  then show ?case by simp
next
  case (Cons c ds)
  then have "v * 10 + (int (ord c) - 48) \<le> num (v * 10 + (int (ord c) - 48)) ds"
    by (intro Cons.IH) (auto simp: c_isdigit_def)
  moreover have "v \<le> v * 10 + (int (ord c) - 48)"
    using Cons.prems by (auto simp: c_isdigit_def)
  ultimately show ?case by simp
qed

lemma digits_loop_eq:
  "0 \<le> v \<Longrightarrow> v \<le> ULLONG_MAX \<Longrightarrow> digits_loop v p =
     (if num v (takeWhile c_isdigit p) \<le> ULLONG_MAX
      then Some (num v (takeWhile c_isdigit p), dropWhile c_isdigit p) else None)"
proof (induction v p rule: digits_loop.induct)
  case (1 v)
  then show ?case by simp
next
  case (2 v c p)
  show ?case
  proof (cases "c_isdigit c")
    case True
    let ?w = "v * 10 + (int (ord c) - 48)"
    have d: "0 \<le> int (ord c) - 48" using True by (simp add: c_isdigit_def)
    have "?w \<le> num ?w (takeWhile c_isdigit p)"
      using "2.prems" d by (intro num_ge) (auto dest: set_takeWhileD)
    then show ?thesis
      using 2 True d by (cases "?w \<le> ULLONG_MAX") (auto simp: Let_def)
  next
    case False
    then show ?thesis using "2.prems" by simp
  qed
qed

lemma num_dec_val: "num (int n) ds = int (foldl (\<lambda>a c. a * 10 + (ord c - 48)) n ds)"
  if "\<forall>c \<in> set ds. c_isdigit c"
  using that
proof (induction ds arbitrary: n)
  case Nil
  then show ?case by simp
next
  case (Cons c ds)
  then have "int n * 10 + (int (ord c) - 48) = int (n * 10 + (ord c - 48))"
    by (auto simp: c_isdigit_def)
  then have "num (int n) (c # ds) = num (int (n * 10 + (ord c - 48))) ds"
    by (simp only: num_Cons)
  then show ?case
    using Cons.IH [of "n * 10 + (ord c - 48)"] Cons.prems by (simp only: foldl.simps) simp
qed

lemma dec_val_num:
  assumes "\<forall>c \<in> set (c # ds). c_isdigit c"
  shows "num (int (ord c) - 48) ds = int (dec_val (c # ds))"
proof -
  have "int (ord c) - 48 = int (ord c - 48)" using assms by (auto simp: c_isdigit_def)
  then have "num (int (ord c) - 48) ds = num (int (ord c - 48)) ds" by (rule arg_cong)
  then show ?thesis
    using num_dec_val [of ds "ord c - 48"] assms by (simp only: dec_val_def) simp
qed

lemma digit_ord: "c_isdigit c \<Longrightarrow> digit (ord c - 48) = c"
  by (simp add: digit_def c_isdigit_def)

text \<open>Digits without a leading zero are the decimal representation of their value.\<close>

lemma dec_val_pos: "\<forall>c \<in> set ds. c_isdigit c \<Longrightarrow> ds \<noteq> [] \<Longrightarrow> hd ds \<noteq> CHR ''0'' \<Longrightarrow> 0 < dec_val ds"
proof (induction ds rule: rev_induct)
  case Nil
  then show ?case by simp
next
  case (snoc c ds)
  have "c = CHR ''0''" if "ord c = 48"
  proof -
    have "ord c = ord (CHR ''0'')" using that by simp
    then show ?thesis by (simp only: of_char_eq_iff)
  qed
  then show ?case
    using snoc by (cases "ds = []") (auto simp: dec_val_snoc dec_val_def c_isdigit_def le_less)
qed

lemma dec_str_canonical:
  "\<forall>c \<in> set ds. c_isdigit c \<Longrightarrow> ds \<noteq> [] \<Longrightarrow> hd ds \<noteq> CHR ''0'' \<Longrightarrow> dec_str (dec_val ds) = ds"
proof (induction ds rule: rev_induct)
  case Nil
  then show ?case by simp
next
  case (snoc c ds)
  have c: "c_isdigit c" "ord c - 48 < 10" using snoc.prems by (auto simp: c_isdigit_def)
  show ?case
  proof (cases "ds = []")
    case True
    then show ?thesis using c by (simp add: dec_val_def dec_str_small digit_ord)
  next
    case False
    then have "0 < dec_val ds" using snoc.prems by (intro dec_val_pos) auto
    then have "\<not> dec_val ds * 10 + (ord c - 48) < 10" by simp
    then have "dec_str (dec_val (ds @ [c])) = dec_str (dec_val ds) @ [c]"
      unfolding dec_val_snoc using c by (subst dec_str_step) (simp_all add: digit_ord)
    then show ?thesis
      using snoc False by simp
  qed
qed

lemma dec_str_shape:
  assumes "0 < n"
  obtains c ds where "dec_str n = c # ds" "49 \<le> ord c" "ord c \<le> 57" "\<forall>d \<in> set (c # ds). c_isdigit d"
proof -
  have "\<exists>c ds. dec_str n = c # ds \<and> 49 \<le> ord c \<and> ord c \<le> 57"
    using assms
  proof (induction n rule: dec_str.induct)
    case (1 n)
    show ?case
    proof (cases "n < 10")
      case True
      then show ?thesis using 1 by (auto simp: dec_str_small)
    next
      case False
      then have "\<exists>c ds. dec_str (n div 10) = c # ds \<and> 49 \<le> ord c \<and> ord c \<le> 57"
        by (intro 1) auto
      then show ?thesis using False by (auto simp: dec_str_step [of n])
    qed
  qed
  then obtain c ds where "dec_str n = c # ds" "49 \<le> ord c" "ord c \<le> 57" by blast
  moreover from this have "\<forall>d \<in> set (c # ds). c_isdigit d" using dec_str_digits by metis
  ultimately show thesis by (rule that)
qed

lemma takeWhile_digits:
  "\<forall>c \<in> set p. c_isdigit c \<Longrightarrow> takeWhile c_isdigit p = p \<and> dropWhile c_isdigit p = []"
  by simp

lemma minus_not_digit [simp]: "\<not> c_isdigit (CHR ''-'')"
  by (simp add: c_isdigit_def)

text \<open>What the loop makes of a first digit \<open>c\<close> and the bytes \<open>p\<close> behind it.\<close>

definition magnitude :: "char \<Rightarrow> string \<Rightarrow> int option" where
  "magnitude c p = do { (v, rest) \<leftarrow> digits_loop (int (ord c) - 48) p; if rest \<noteq> [] then None else Some v }"

lemma magnitude_eq:
  assumes "49 \<le> ord c" "ord c \<le> 57"
  shows "magnitude c p =
     (if (\<forall>d \<in> set p. c_isdigit d) \<and> int (dec_val (c # p)) \<le> ULLONG_MAX
      then Some (int (dec_val (c # p))) else None)"
proof -
  have c: "c_isdigit c" using assms by (simp add: c_isdigit_def)
  have l: "digits_loop (int (ord c) - 48) p =
     (if num (int (ord c) - 48) (takeWhile c_isdigit p) \<le> ULLONG_MAX
      then Some (num (int (ord c) - 48) (takeWhile c_isdigit p), dropWhile c_isdigit p) else None)"
    using assms by (intro digits_loop_eq) auto
  show ?thesis
  proof (cases "\<forall>d \<in> set p. c_isdigit d")
    case True
    then have tw: "takeWhile c_isdigit p = p" "dropWhile c_isdigit p = []" by simp_all
    show ?thesis
      using l [unfolded tw] dec_val_num [of c p] c True by (simp add: magnitude_def)
  next
    case False
    then have "dropWhile c_isdigit p \<noteq> []" by simp
    then show ?thesis
      using l False by (auto simp: magnitude_def)
  qed
qed

lemma string2ll_pos:
  assumes "hd s \<noteq> CHR ''-''" "s = c # p" "49 \<le> ord c" "ord c \<le> 57"
  shows "string2ll s = (case magnitude c p of None \<Rightarrow> None
     | Some v \<Rightarrow> if v > 2 ^ 63 - 1 then None else Some (s64 v))"
  using assms by (auto simp: string2ll_def magnitude_def Let_def split: Option.bind_splits)

lemma string2ll_neg:
  assumes "s = CHR ''-'' # c # p" "49 \<le> ord c" "ord c \<le> 57"
  shows "string2ll s = (case magnitude c p of None \<Rightarrow> None
     | Some v \<Rightarrow> if v > 2 ^ 63 then None else Some (s64 (u64 (- v))))"
  using assms by (auto simp: string2ll_def magnitude_def Let_def split: Option.bind_splits)

lemma s64_u64_neg: "0 \<le> v \<Longrightarrow> v \<le> 2 ^ 63 \<Longrightarrow> s64 (u64 (- v)) = - v"
  by (simp add: s64_def u64_def signed_take_bit_take_bit signed_take_bit_int_eq_self)

lemma dec_int_0: "dec_int 0 = ''0''"
  by code_simp

lemma string2ll_dec_int:
  assumes "- (2 ^ 63) \<le> v" "v < 2 ^ 63"
  shows "string2ll (dec_int v) = Some v"
proof (cases "v = 0")
  case True
  then show ?thesis by (simp add: dec_int_0 string2ll_def)
next
  case False
  then obtain c ds where n: "dec_str (nat (abs v)) = c # ds" "49 \<le> ord c" "ord c \<le> 57"
    "\<forall>d \<in> set (c # ds). c_isdigit d"
    using dec_str_shape [of "nat (abs v)"] by auto
  have val: "int (dec_val (c # ds)) = abs v"
    using dec_val_dec_str [of "nat (abs v)"] n(1) by simp
  have mag: "magnitude c ds = Some (abs v)"
    using magnitude_eq [OF n(2,3), of ds] n(4) val assms by auto
  show ?thesis
  proof (cases "v < 0")
    case True
    then have "dec_int v = CHR ''-'' # c # ds" using n(1) by (simp add: dec_int_def)
    then show ?thesis
      using string2ll_neg [OF _ n(2,3), of "dec_int v" ds] mag True assms s64_u64_neg [of "- v"] by simp
  next
    case nonneg: False
    have "c \<noteq> CHR ''-''" using n(2) by auto
    moreover have "dec_int v = c # ds" using n(1) nonneg by (simp add: dec_int_def)
    ultimately show ?thesis
      using string2ll_pos [OF _ _ n(2,3), of "dec_int v" ds] mag nonneg assms by simp
  qed
qed

lemma dec_int_of_digits:
  assumes "49 \<le> ord c" "\<forall>d \<in> set (c # ds). c_isdigit d"
  shows "dec_str (dec_val (c # ds)) = c # ds" "0 < dec_val (c # ds)"
proof -
  have "c \<noteq> CHR ''0''" using assms(1) by auto
  then show "dec_str (dec_val (c # ds)) = c # ds" "0 < dec_val (c # ds)"
    using assms(2) dec_str_canonical [of "c # ds"] dec_val_pos [of "c # ds"] by simp_all
qed

lemma string2ll_cases:
  assumes "string2ll s = Some v"
  obtains "s = ''0''" "v = 0"
  | c ds where "s = c # ds" "49 \<le> ord c" "ord c \<le> 57" "c \<noteq> CHR ''-''" "magnitude c ds = Some v" "v < 2 ^ 63"
  | c ds m where "s = CHR ''-'' # c # ds" "49 \<le> ord c" "ord c \<le> 57" "magnitude c ds = Some m" "m \<le> 2 ^ 63"
      "v = s64 (u64 (- m))"
proof -
  consider "s = ''0''" | c ds where "s = c # ds" "49 \<le> ord c" "ord c \<le> 57" "c \<noteq> CHR ''-''"
    | c ds where "s = CHR ''-'' # c # ds" "49 \<le> ord c" "ord c \<le> 57"
    using assms by (cases s; cases "tl s") (auto simp: string2ll_def Let_def split: if_splits)
  then show thesis
  proof cases
    case 1
    then show thesis using that(1) assms by (simp add: string2ll_def)
  next
    case (2 c ds)
    then obtain m where m: "magnitude c ds = Some m" "m \<le> 2 ^ 63 - 1" "v = s64 m"
      using assms string2ll_pos [of s c ds] by (auto split: option.splits if_splits)
    have "0 \<le> m" using magnitude_eq [OF 2(2,3), of ds] m(1) by (auto split: if_splits)
    then have "v = m" using m by simp
    then show thesis using that(2) 2 m by simp
  next
    case (3 c ds)
    then obtain m where "magnitude c ds = Some m" "m \<le> 2 ^ 63" "v = s64 (u64 (- m))"
      using assms string2ll_neg [of s c ds] by (auto split: option.splits if_splits)
    then show thesis using that(3) 3 by simp
  qed
qed

lemma string2ll_canonical:
  assumes "string2ll s = Some v"
  shows "- (2 ^ 63) \<le> v \<and> v < 2 ^ 63 \<and> s = dec_int v"
  using assms
proof (cases rule: string2ll_cases)
  case 1
  then show ?thesis by (simp add: dec_int_0)
next
  case (2 c ds)
  then have d: "\<forall>d \<in> set (c # ds). c_isdigit d" "v = int (dec_val (c # ds))"
    using magnitude_eq [OF 2(2,3), of ds] by (auto simp: c_isdigit_def split: if_splits)
  then show ?thesis
    using 2 dec_int_of_digits [OF 2(2) d(1)] by (simp add: dec_int_def)
next
  case (3 c ds m)
  then have d: "\<forall>d \<in> set (c # ds). c_isdigit d" "m = int (dec_val (c # ds))"
    using magnitude_eq [OF 3(2,3), of ds] by (auto simp: c_isdigit_def split: if_splits)
  moreover have "v = - m" using 3 d(2) s64_u64_neg by simp
  ultimately show ?thesis
    using 3 dec_int_of_digits [OF 3(2) d(1)] by (simp add: dec_int_def)
qed

lemma ll2string_text:
  assumes "- (2 ^ 63) \<le> v" "v < 2 ^ 63" "length buf = 32" "0 < len" "len \<le> length s"
  defines "n \<equiv> min (length (dec_int v)) (len - 1)"
  shows "ll2string buf s len v = Some (take n (dec_int v) @ NUL # drop (Suc n) s, n)"
proof -
  let ?k = "length (dec_int v)"
  have k: "?k \<le> 20" using assms(1,2) by (rule length_dec_int)
  obtain b where b: "ll_text buf v = Some (b, 32 - int ?k)" "length b = 32" "drop (32 - ?k) b = dec_int v"
    using ll_text_ok [OF assms(1-3)] by auto
  have ns: "n < length s" using assms(4,5) by (auto simp: n_def)
  have "nat (32 - (32 - int ?k)) = ?k" "nat (32 - int ?k) = 32 - ?k" using k by auto
  moreover have "(if len < Suc ?k then len - Suc 0 else ?k) = n" using assms(4) by (auto simp: n_def)
  moreover have "load_at b (32 - ?k) n = Some (take n (dec_int v))"
    using b k by (auto simp: load_at_def n_def)
  moreover have "poke (blit s 0 (take n (dec_int v))) n NUL = Some (take n (dec_int v) @ NUL # drop (Suc n) s)"
    using ns by (simp add: blit_def poke_def n_def upd_conv_take_nth_drop min_def Cons_nth_drop_Suc
        flip: n_def) (auto simp: n_def)
  ultimately show ?thesis
    using b(1) ns assms(4) by (cases "len < Suc ?k") (simp_all add: ll2string_def Let_def)
qed

section \<open>Lemmas on amounts with a unit\<close>

lemma takeWhile_dec_str [simp]:
  "u = [] \<or> \<not> c_isdigit (hd u) \<Longrightarrow> takeWhile c_isdigit (dec_str n @ u) = dec_str n"
  using dec_str_digits by (cases u) (auto simp: takeWhile_append)

lemma dropWhile_dec_str [simp]:
  "u = [] \<or> \<not> c_isdigit (hd u) \<Longrightarrow> dropWhile c_isdigit (dec_str n @ u) = u"
  using dec_str_digits by (cases u) (auto simp: dropWhile_append)

lemma strtoll_dec_str:
  assumes "int n < 2 ^ 63"
  shows "c_strtoll (dec_str n) = int n"
proof -
  obtain c ds where d: "dec_str n = c # ds" by (cases "dec_str n") auto
  then have c: "c_isdigit c" using dec_str_digits [of c n] by simp
  then have "\<not> c_isspace c" "c \<noteq> CHR ''-''" "c \<noteq> CHR ''+''"
    by (auto simp: c_isdigit_def c_isspace_def)
  then have "dropWhile c_isspace (dec_str n) = dec_str n" "hd (dec_str n) \<noteq> CHR ''-''" "hd (dec_str n) \<noteq> CHR ''+''"
    using d by simp_all
  then show ?thesis
    using assms dec_str_digits [of _ n] by (simp add: c_strtoll_def Let_def takeWhile_eq_all_conv [THEN iffD2])
qed

lemma length_dec_str_small: "int n < 2 ^ 63 \<Longrightarrow> length (dec_str n) < 128"
  using length_dec_str [of n 18] by simp

text \<open>An amount followed by a unit is the product with the factor of that unit.\<close>

lemma timetoll_unit:
  assumes "int n < 2 ^ 63" "u = [] \<or> \<not> c_isdigit (hd u)"
  shows "timetoll (dec_str n @ u) = (s64 (int n * fst (time_unit u)), snd (time_unit u))"
  using assms strtoll_dec_str [of n] length_dec_str_small [of n]
  by (simp add: timetoll_def Let_def split: prod.split)

lemma memtoll_unit:
  assumes "int n < 2 ^ 63" "u = [] \<or> \<not> c_isdigit (hd u)"
  shows "memtoll (dec_str n @ u) = (s64 (int n * fst (mem_unit u)), snd (mem_unit u))"
proof -
  obtain c ds where d: "dec_str n = c # ds" by (cases "dec_str n") auto
  then have "c \<noteq> CHR ''-''" using dec_str_digits [of c n] by auto
  then have "hd (dec_str n @ u) \<noteq> CHR ''-''" using d by simp
  then show ?thesis
    using assms strtoll_dec_str [of n] length_dec_str_small [of n]
    by (simp add: memtoll_def Let_def split: prod.split)
qed

lemma time_units:
  "time_unit [] = (1, False)" "time_unit ''us'' = (1, False)" "time_unit ''ms'' = (1000, False)"
  "time_unit ''s'' = (1000000, False)" "time_unit ''m'' = (60000000, False)"
  "time_unit ''h'' = (-694967296, False)"
  by code_simp+

section \<open>Random identifiers\<close>

lemma hex_nth: "''0123456789abcdef'' ! (n mod 16) \<in> set ''0123456789abcdef''"
  by (rule nth_mem) simp

lemma getRandomHexChars_hex:
  assumes "getRandomHexChars p len urandom usec sec pid rnd = Some p'"
  shows "len \<le> length p' \<and> set (take len p') \<subseteq> set ''0123456789abcdef''"
proof -
  obtain q bs where q: "load_at q 0 len = Some bs"
    "store_at q 0 (map (\<lambda>c. ''0123456789abcdef'' ! (ord c mod 16)) bs) = Some p'"
    using assms by (auto simp: getRandomHexChars_def split: Option.bind_splits if_splits)
  then have "length bs = len" "len \<le> length q" by (auto simp: load_at_def split: if_splits)
  then have "take len p' = map (\<lambda>c. ''0123456789abcdef'' ! (ord c mod 16)) bs" "len \<le> length p'"
    using q(2) by (auto simp: store_at_def blit_def split: if_splits)
  then show ?thesis using hex_nth by auto
qed

section \<open>Properties\<close>

text \<open>
  C11: \<open>string2ll\<close> accepts a string with the value \<open>v\<close> exactly if it is the decimal representation
  of \<open>v\<close>, with no leading zeros, plus sign or blanks, and \<open>v\<close> fits into 64 signed bits.
\<close>

theorem string2ll_iff:
  "string2ll s = Some v \<longleftrightarrow> - (2 ^ 63) \<le> v \<and> v < 2 ^ 63 \<and> s = dec_int v"
  using string2ll_canonical string2ll_dec_int by blast

text \<open>
  C12: \<open>ll2string\<close> writes the decimal representation of any 64-bit number, or what fits of it, a
  terminator behind it and nothing else; when there is room for 21 bytes \<open>string2ll\<close> reads the
  number back.
\<close>

theorem ll2string_reads_back:
  assumes "- (2 ^ 63) \<le> v" "v < 2 ^ 63" "length buf = 32" "0 < len" "len \<le> length s"
  shows "\<exists>n s'. ll2string buf s len v = Some (s', n) \<and> n = min (length (dec_int v)) (len - 1) \<and>
    take n s' = take n (dec_int v) \<and> s' ! n = NUL \<and> drop (Suc n) s' = drop (Suc n) s \<and>
    (21 \<le> len \<longrightarrow> string2ll (take n s') = Some v)"
proof -
  define n where "n = min (length (dec_int v)) (len - 1)"
  have "n \<le> length (dec_int v)" by (simp add: n_def)
  moreover have "take n (dec_int v) = dec_int v" if "21 \<le> len"
    using that length_dec_int [OF assms(1,2)] by (simp add: n_def)
  moreover have "ll2string buf s len v = Some (take n (dec_int v) @ NUL # drop (Suc n) s, n)"
    unfolding n_def using assms by (rule ll2string_text)
  ultimately show ?thesis
    using string2ll_dec_int [OF assms(1,2)]
    by (intro exI [of _ n] exI [of _ "take n (dec_int v) @ NUL # drop (Suc n) s"] conjI)
      (simp_all add: nth_append n_def)
qed

theorem ll2string_reads_back_witness:
  "\<exists>n s'. ll2string (replicate 32 NUL) (replicate 24 NUL) 24 (- (2 ^ 63)) = Some (s', n) \<and>
     string2ll (take n s') = Some (- (2 ^ 63))"
  using ll2string_reads_back [of "- (2 ^ 63)" "replicate 32 NUL" 24 "replicate 24 NUL"] by auto

text \<open>
  An amount of hours is converted to a negative number of microseconds, with no error
  reported: the factor \<open>60 * 60 * 1000 * 1000\<close> does not fit into the \<open>int\<close> it is computed in.
\<close>

lemma hours_are_negative:
  assumes "0 < n" "int n \<le> 10 ^ 10"
  shows "timetoll (dec_str n @ ''h'') = (- 694967296 * int n, False)"
proof -
  have "c_isdigit (CHR ''h'') = False" by (simp add: c_isdigit_def)
  then show ?thesis
    using timetoll_unit [of n "''h''"] assms by (simp add: time_units)
qed

text \<open>
  The unit of the example in the comment of \<open>memtoll\<close> is not known to it: \<open>"<n>Gi"\<close> is reported
  as an error and converted to \<open>n\<close> bytes, \<open>"<n>Gb"\<close> to \<open>n\<close> times two to the power of 30.
\<close>

lemma memtoll_gi_unknown:
  assumes "int n < 2 ^ 33"
  shows "memtoll (dec_str n @ ''Gi'') = (int n, True) \<and>
         memtoll (dec_str n @ ''Gb'') = (int n * 2 ^ 30, False)"
proof -
  have "mem_unit ''Gi'' = (1, True)" "mem_unit ''Gb'' = (2 ^ 30, False)" by code_simp+
  moreover have "c_isdigit (CHR ''G'') = False" by (simp add: c_isdigit_def)
  ultimately show ?thesis
    using memtoll_unit [of n "''Gi''"] memtoll_unit [of n "''Gb''"] assms by simp
qed

end
