(* ===== verification/Config_Lexer.thy ===== *)
theory Config_Lexer
  imports Zf_Prelude
begin

text \<open>
  The scanner of configuration files, \<^verbatim>\<open>src/deps/new-config/lexer.l\<close>, from which \<^verbatim>\<open>lexer.c\<close> is
  generated. A rule of the scanner specification is a branch of \<open>lex_rule\<close>: the longest match wins,
  among equally long ones the first rule of the file. The buffer of the scanner is the rest of the
  file. The text of a key, which the code copies into a small or a large buffer, is a string here,
  so is the text of a value. Characters the default rule of the generator echoes to the
  standard output are skipped.
\<close>

section \<open>Escapes in quoted values\<close>

definition is_hex :: "char \<Rightarrow> bool" where
  "is_hex c \<longleftrightarrow> (48 \<le> ord c \<and> ord c \<le> 57) \<or> (97 \<le> ord c \<and> ord c \<le> 102) \<or> (65 \<le> ord c \<and> ord c \<le> 70)"

definition is_oct :: "char \<Rightarrow> bool" where
  "is_oct c \<longleftrightarrow> 48 \<le> ord c \<and> ord c \<le> 55"

(* src/deps/new-config/lexer.l:51-56, ___hval *)
definition hval :: "char \<Rightarrow> nat" where
  "hval x = (if ord x \<le> 57 then ord x - 48 else if ord x \<ge> 97 then ord x - 97 + 10 else ord x - 65 + 10)"

(* src/deps/new-config/lexer.l:72-72, ___oval *)
definition oval :: "char \<Rightarrow> nat" where
  "oval x = ord x - 48"

text \<open>The letters after a backslash that stand for a control character, a quote or a backslash.\<close>

(* src/deps/new-config/lexer.l:21-41, parse_quote *)
definition simple_escape :: "char \<Rightarrow> char option" where
  "simple_escape c = map_of
     [(CHR ''n'', CHR 0x0A), (CHR ''r'', CHR 0x0D), (CHR ''t'', CHR 0x09), (CHR ''v'', CHR 0x0B),
      (CHR ''a'', CHR 0x07), (CHR ''b'', CHR 0x08), (CHR ''f'', CHR 0x0C), (CHR 0x27, CHR 0x27),
      (CHR 0x22, CHR 0x22), (CHR 0x5C, CHR 0x5C)] c"

text \<open>The byte written for the escape at index \<open>i\<close>, behind the backslash, and the index of its last character.\<close>

(* src/deps/new-config/lexer.l:21-86, parse_quote *)
definition escape_at :: "string \<Rightarrow> nat \<Rightarrow> nat \<Rightarrow> char \<times> nat" where
  "escape_at buf len i =
     (let c = buf ! i in
      case simple_escape c of
        Some d \<Rightarrow> (d, i)
      | None \<Rightarrow>
          if c = CHR ''x'' then
            if i + 2 < len \<and> is_hex (buf ! (i + 1)) \<and> is_hex (buf ! (i + 2))
            then (char_of (hval (buf ! (i + 1)) * 16 + hval (buf ! (i + 2))), i + 2)
            else (c, i)
          else if c \<in> set ''012'' then
            if i + 2 < len \<and> is_oct (buf ! (i + 1)) \<and> is_oct (buf ! (i + 2))
            then (char_of (oval c * 64 + oval (buf ! (i + 1)) * 8 + oval c), i + 2)
            else if c = CHR ''0'' then (NUL, i)
            else (c, i)
          else (c, i))"

text \<open>
  The loop works in place: \<open>cur\<close> is behind \<open>i\<close> or equal to it. A backslash at the very end writes
  nothing. The result is the buffer and the new length; the terminator is stored behind it.
\<close>

lemma escape_at_ge: "i \<le> snd (escape_at buf len i)"
  by (auto simp: escape_at_def Let_def split: option.split)

(* src/deps/new-config/lexer.l:17-93, parse_quote *)
function pq_loop :: "string \<Rightarrow> nat \<Rightarrow> nat \<Rightarrow> nat \<Rightarrow> (string \<times> nat) option" where
  "pq_loop buf len cur i =
     (if i < len then
        do { c \<leftarrow> peek buf i;
             if c = CHR 0x5C then
               if i + 1 < len
               then let (d, j) = escape_at buf len (i + 1) in
                    if len \<le> length buf
                    then do { buf \<leftarrow> poke buf cur d; pq_loop buf len (cur + 1) (j + 1) }
                    else None
               else pq_loop buf len (cur + 1) (i + 1)
             else do { buf \<leftarrow> poke buf cur c; pq_loop buf len (cur + 1) (i + 1) } }
      else do { buf \<leftarrow> poke buf cur NUL; Some (buf, cur) })"
  by pat_completeness auto
termination
proof (relation "measure (\<lambda>(_, len, _, i). len - i)", goal_cases)
  case (2 buf len cur i c x d j)
  then have "i + 1 \<le> j" using escape_at_ge [of "i + 1" buf len] by (metis snd_conv)
  then show ?case using 2 by auto
qed auto

declare pq_loop.simps [simp del]

(* src/deps/new-config/lexer.l:14-94, parse_quote *)
definition parse_quote :: "string \<Rightarrow> nat \<Rightarrow> (string \<times> nat) option" where
  "parse_quote buf len = pq_loop buf len 0 0"

section \<open>The scanner\<close>

(* src/deps/new-config/lexer.l:100-105, yylex *)
datatype start_state = INITIAL | VALUE | AFTER_KEY | QUOTED_VALUE | COMMENT | GROUP | GROUP_FINISH

(* src/deps/new-config/config_lexer.h:16-16, lexer_output_t *)
datatype token_type = TOKEN_TYPE_GROUP | TOKEN_TYPE_ITEM

(* src/deps/new-config/config_lexer.h:15-24, lexer_output_t *)
record lexer_output =
  lo_type :: token_type
  lo_is_array :: bool
  lo_level :: int
  lo_key :: string
  lo_value :: "string option"
  lo_lineno :: int

text \<open>The user data of the scanner, its start condition, line number and the rest of the file.\<close>

(* src/deps/new-config/lexer.l:4-12, yyuser_data_t *)
record lexer =
  lx_group_indent :: int
  lx_is_array :: bool
  lx_state :: start_state
  lx_lineno :: int
  lx_in :: string

(* src/deps/new-config/lexer.l:107-107, key *)
definition key_char :: "char \<Rightarrow> bool" where
  "key_char c \<longleftrightarrow> (97 \<le> ord c \<and> ord c \<le> 122) \<or> (65 \<le> ord c \<and> ord c \<le> 90) \<or> c_isdigit c \<or> c = CHR ''_''"

abbreviation NL :: char where "NL \<equiv> CHR 0x0A"
abbreviation TAB :: char where "TAB \<equiv> CHR 0x09"
abbreviation CR :: char where "CR \<equiv> CHR 0x0D"
abbreviation DQ :: char where "DQ \<equiv> CHR 0x22"
abbreviation BSL :: char where "BSL \<equiv> CHR 0x5C"

text \<open>The longest prefix that matches \<open>quoted_value\<close>, with its length.\<close>

(* src/deps/new-config/lexer.l:109-109, quoted_value *)
fun quoted_len :: "string \<Rightarrow> nat" where
  "quoted_len [] = 0"
| "quoted_len [c] = (if c = DQ \<or> c = NL \<or> c = BSL then 0 else 1)"
| "quoted_len (c # d # cs) =
     (if c = BSL then 2 + quoted_len cs
      else if c = DQ \<or> c = NL then 0
      else 1 + quoted_len (d # cs))"

text \<open>Removing a match of \<open>n\<close> characters counts its line ends.\<close>

definition matched :: "nat \<Rightarrow> lexer \<Rightarrow> lexer" where
  "matched n l = l\<lparr>lx_lineno := lx_lineno l + int (count_list (take n (lx_in l)) NL), lx_in := drop n (lx_in l)\<rparr>"

text \<open>
  The rule that matches and its action: the value it returns, if it returns, the scanner
  and the output record.
\<close>

(* src/deps/new-config/lexer.l:114-138, yylex *)
definition initial_rule :: "lexer \<Rightarrow> lexer_output \<Rightarrow> char \<Rightarrow> int option \<times> lexer \<times> lexer_output" where
  "initial_rule l out c =
     (if c = CHR ''['' then (None, (matched 1 l)\<lparr>lx_is_array := False, lx_group_indent := 0, lx_state := GROUP\<rparr>, out)
      else if c = CHR ''@'' then (None, (matched 1 l)\<lparr>lx_is_array := True\<rparr>, out)
      else if c = CHR ''#'' then (None, (matched 1 l)\<lparr>lx_state := COMMENT\<rparr>, out)
      else if key_char c then
        (let k = takeWhile key_char (lx_in l) in
         (None, (matched (length k) l)\<lparr>lx_state := AFTER_KEY\<rparr>, out\<lparr>lo_key := k, lo_is_array := lx_is_array l\<rparr>))
      else if c = CHR '' '' \<or> c = TAB \<or> c = CR \<or> c = NL then (None, matched 1 l, out)
      else (Some (-1), matched 1 l, out\<lparr>lo_lineno := lx_lineno (matched 1 l)\<rparr>))"

(* src/deps/new-config/lexer.l:140-142, yylex *)
definition after_key_rule :: "lexer \<Rightarrow> lexer_output \<Rightarrow> char \<Rightarrow> int option \<times> lexer \<times> lexer_output" where
  "after_key_rule l out c =
     (let l' = matched 1 l in
      if c = CHR '' '' \<or> c = TAB then (None, l', out)
      else if c = CHR '':'' then (None, l'\<lparr>lx_is_array := False, lx_state := VALUE\<rparr>, out)
      else if c = NL then (Some (-1), l'\<lparr>lx_state := INITIAL\<rparr>, out\<lparr>lo_lineno := lx_lineno l'\<rparr>)
      else (Some (-1), l', out\<lparr>lo_lineno := lx_lineno l'\<rparr>))"

(* src/deps/new-config/lexer.l:144-158, yylex *)
definition group_rule :: "lexer \<Rightarrow> lexer_output \<Rightarrow> char \<Rightarrow> int option \<times> lexer \<times> lexer_output" where
  "group_rule l out c =
     (if c = CHR '']'' then (None, (matched 1 l)\<lparr>lx_is_array := False, lx_state := INITIAL\<rparr>, out)
      else if lx_state l = GROUP_FINISH then (None, matched 1 l, out)
      else if c = CHR ''.'' then (None, (matched 1 l)\<lparr>lx_group_indent := lx_group_indent l + 1\<rparr>, out)
      else if c = CHR ''@'' then (None, (matched 1 l)\<lparr>lx_is_array := True\<rparr>, out)
      else if key_char c then
        (let k = takeWhile key_char (lx_in l); l' = matched (length k) l;
             out = out\<lparr>lo_key := k, lo_type := TOKEN_TYPE_GROUP, lo_level := lx_group_indent l,
                       lo_is_array := lx_is_array l, lo_lineno := lx_lineno l'\<rparr>
         in (Some 1, (if lo_is_array out then l'\<lparr>lx_state := GROUP_FINISH\<rparr> else l'), out))
      else (Some (-1), matched 1 l, out\<lparr>lo_lineno := lx_lineno (matched 1 l)\<rparr>))"

(* src/deps/new-config/lexer.l:163-181, yylex *)
definition value_rule :: "lexer \<Rightarrow> lexer_output \<Rightarrow> char \<Rightarrow> int option \<times> lexer \<times> lexer_output" where
  "value_rule l out c =
     (if c = DQ then (None, (matched 1 l)\<lparr>lx_state := QUOTED_VALUE\<rparr>, out)
      else if c = NL then
        (Some 2, (matched 1 l)\<lparr>lx_state := INITIAL\<rparr>,
         out\<lparr>lo_value := None, lo_type := TOKEN_TYPE_ITEM, lo_lineno := lx_lineno (matched 1 l)\<rparr>)
      else if c = CHR ''#'' then (None, (matched 1 l)\<lparr>lx_state := COMMENT\<rparr>, out)
      else if c = CHR '' '' \<or> c = TAB then (None, matched 1 l, out)
      else
        (let v = takeWhile (\<lambda>d. d \<noteq> CHR ''#'' \<and> d \<noteq> NL) (lx_in l); l' = matched (length v) l in
         (Some 2, l'\<lparr>lx_state := COMMENT\<rparr>,
          out\<lparr>lo_value := Some v, lo_type := TOKEN_TYPE_ITEM, lo_lineno := lx_lineno l'\<rparr>)))"

text \<open>An empty match loses against the rule for any character.\<close>

(* src/deps/new-config/lexer.l:183-191, yylex *)
definition quoted_rule :: "lexer \<Rightarrow> lexer_output \<Rightarrow> (int option \<times> lexer \<times> lexer_output) option" where
  "quoted_rule l out =
     (let n = quoted_len (lx_in l) in
      if n = 0 then Some (Some (-1), matched 1 l, out\<lparr>lo_lineno := lx_lineno (matched 1 l)\<rparr>)
      else do {
        let l' = matched n l;
        (buf, len) \<leftarrow> parse_quote (take n (lx_in l) @ [NUL]) n;
        Some (Some 2, l'\<lparr>lx_state := COMMENT\<rparr>,
          out\<lparr>lo_value := Some (take len buf), lo_type := TOKEN_TYPE_ITEM, lo_lineno := lx_lineno l'\<rparr>) })"

(* src/deps/new-config/lexer.l:112-199, yylex *)
definition lex_rule :: "lexer \<Rightarrow> lexer_output \<Rightarrow> char \<Rightarrow> (int option \<times> lexer \<times> lexer_output) option" where
  "lex_rule l out c =
     (case lx_state l of
        INITIAL \<Rightarrow> Some (initial_rule l out c)
      | AFTER_KEY \<Rightarrow> Some (after_key_rule l out c)
      | GROUP \<Rightarrow> Some (group_rule l out c)
      | GROUP_FINISH \<Rightarrow> Some (group_rule l out c)
      | COMMENT \<Rightarrow> Some (None, (if c = NL then (matched 1 l)\<lparr>lx_state := INITIAL\<rparr> else matched 1 l), out)
      | VALUE \<Rightarrow> Some (value_rule l out c)
      | QUOTED_VALUE \<Rightarrow> quoted_rule l out)"

lemma lx_in_matched [simp]: "lx_in (matched n l) = drop n (lx_in l)"
  by (simp add: matched_def)

lemma lex_rule_progress:
  assumes "lex_rule l out c = Some (r, l', out')" "lx_in l = c # cs"
  shows "length (lx_in l') < length (lx_in l)"
proof -
  have k: "key_char c \<Longrightarrow> 0 < length (takeWhile key_char (lx_in l))" using assms(2) by simp
  show ?thesis
    using assms k
    by (cases "lx_state l")
      (auto simp: lex_rule_def initial_rule_def after_key_rule_def group_rule_def value_rule_def quoted_rule_def
        Let_def split: if_splits Option.bind_splits)
qed

text \<open>One call of the scanner: rules are applied until one returns or the file ends.\<close>

(* src/deps/new-config/lexer.l:112-199, yylex *)
function yylex :: "lexer \<Rightarrow> lexer_output \<Rightarrow> (int \<times> lexer \<times> lexer_output) option" where
  "yylex l out =
     (case lx_in l of
        [] \<Rightarrow> Some (0, l, out)
      | c # cs \<Rightarrow>
          (case lex_rule l out c of
             None \<Rightarrow> None
           | Some (Some r, l', out') \<Rightarrow> Some (r, l', out')
           | Some (None, l', out') \<Rightarrow> yylex l' out'))"
  by pat_completeness auto
termination
  by (relation "measure (\<lambda>(l, _). length (lx_in l))") (auto dest: lex_rule_progress)

declare yylex.simps [simp del]

text \<open>A new scanner; \<open>None\<close> as the content of a file that cannot be opened.\<close>

(* src/deps/new-config/lexer.l:206-234, lexer_init *)
definition lexer_init :: lexer where
  "lexer_init = \<lparr>lx_group_indent = 0, lx_is_array = False, lx_state = INITIAL, lx_lineno = 1, lx_in = []\<rparr>"

(* src/deps/new-config/lexer.l:236-245, lexer_setfile *)
definition lexer_setfile :: "lexer \<Rightarrow> string option \<Rightarrow> int \<times> lexer" where
  "lexer_setfile l content = (case content of None \<Rightarrow> (-1, l) | Some s \<Rightarrow> (0, l\<lparr>lx_in := s\<rparr>))"

(* src/deps/new-config/lexer.l:254-257, lexer_next *)
definition lexer_next :: "lexer \<Rightarrow> lexer_output \<Rightarrow> (int \<times> lexer \<times> lexer_output) option" where
  "lexer_next l out = yylex l out"

section \<open>The scanner returns\<close>

lemma escape_at_less:
  "i < len \<Longrightarrow> snd (escape_at buf len i) < len"
  by (auto simp: escape_at_def Let_def split: option.split)

lemma pq_loop_ok:
  "len < length buf \<Longrightarrow> cur \<le> i \<Longrightarrow> i \<le> len \<Longrightarrow>
     \<exists>buf' n. pq_loop buf len cur i = Some (buf', n) \<and> cur \<le> n \<and> n \<le> len \<and> length buf' = length buf"
proof (induction buf len cur i rule: pq_loop.induct)
  case (1 buf len cur i)
  show ?case
  proof (cases "i < len")
    case False
    then show ?thesis using "1.prems" by (subst pq_loop.simps) auto
  next
    case True
    consider (esc) "buf ! i = BSL" "i + 1 < len" | (last) "buf ! i = BSL" "\<not> i + 1 < len" | (plain) "buf ! i \<noteq> BSL"
      by blast
    then show ?thesis
    proof cases
      case esc
      obtain d j where dj: "escape_at buf len (i + 1) = (d, j)" by (cases "escape_at buf len (i + 1)")
      have j: "i + 1 \<le> j" "j < len"
        using escape_at_ge [of "i + 1" buf len] escape_at_less [OF esc(2), of buf] dj by auto
      have "\<exists>buf' n. pq_loop (buf[cur := d]) len (cur + 1) (j + 1) = Some (buf', n) \<and> cur + 1 \<le> n \<and> n \<le> len \<and>
          length buf' = length (buf[cur := d])"
        using "1.prems" True esc dj j by (intro "1.IH"(1)) auto
      then show ?thesis using "1.prems" True esc dj by (subst pq_loop.simps) auto
    next
      case last
      have "\<exists>buf' n. pq_loop buf len (cur + 1) (i + 1) = Some (buf', n) \<and> cur + 1 \<le> n \<and> n \<le> len \<and>
          length buf' = length buf"
        using "1.prems" True last by (intro "1.IH"(2)) auto
      then show ?thesis using "1.prems" True last by (subst pq_loop.simps) auto
    next
      case plain
      have "\<exists>buf' n. pq_loop (buf[cur := buf ! i]) len (cur + 1) (i + 1) = Some (buf', n) \<and> cur + 1 \<le> n \<and>
          n \<le> len \<and> length buf' = length (buf[cur := buf ! i])"
        using "1.prems" True plain by (intro "1.IH"(3)) auto
      then show ?thesis using "1.prems" True plain by (subst pq_loop.simps) auto
    qed
  qed
qed

lemma quoted_len_le: "quoted_len s \<le> length s"
  by (induction s rule: quoted_len.induct) auto

lemma quoted_rule_ok: "quoted_rule l out \<noteq> None"
proof -
  let ?n = "quoted_len (lx_in l)"
  have "\<exists>buf' n. parse_quote (take ?n (lx_in l) @ [NUL]) ?n = Some (buf', n)"
    using pq_loop_ok [of ?n "take ?n (lx_in l) @ [NUL]" 0 0] quoted_len_le [of "lx_in l"]
    by (auto simp: parse_quote_def)
  then show ?thesis by (auto simp: quoted_rule_def Let_def)
qed

lemma lex_rule_ok: "lex_rule l out c \<noteq> None"
  using quoted_rule_ok [of l out] by (cases "lx_state l") (simp_all add: lex_rule_def)

text \<open>Tokens the parser relies on: a level that is not negative, a key that is not empty.\<close>

definition token_ok :: "int \<Rightarrow> lexer_output \<Rightarrow> bool" where
  "token_ok r out \<longleftrightarrow> r = -1 \<or> r = 0 \<or>
     (lo_type out = TOKEN_TYPE_GROUP \<longrightarrow> 0 \<le> lo_level out) \<and> lo_key out \<noteq> []"

definition lexer_ok :: "lexer \<Rightarrow> lexer_output \<Rightarrow> bool" where
  "lexer_ok l out \<longleftrightarrow> 0 \<le> lx_group_indent l \<and>
     (lx_state l \<in> {AFTER_KEY, VALUE, QUOTED_VALUE} \<longrightarrow> lo_key out \<noteq> [])"

lemma matched_sel [simp]:
  "lx_group_indent (matched n l) = lx_group_indent l" "lx_is_array (matched n l) = lx_is_array l"
  "lx_state (matched n l) = lx_state l"
  by (simp_all add: matched_def)

lemma lex_rule_inv:
  assumes "lex_rule l out c = Some (r, l', out')" "lx_in l = c # cs" "lexer_ok l out"
  shows "lexer_ok l' out' \<and> (\<forall>v. r = Some v \<longrightarrow> token_ok v out' \<and> v \<noteq> 0)"
proof -
  have k: "takeWhile key_char (lx_in l) \<noteq> []" if "key_char c" using that assms(2) by simp
  show ?thesis
    using assms k
    by (cases "lx_state l")
      (auto simp: lex_rule_def initial_rule_def after_key_rule_def group_rule_def value_rule_def quoted_rule_def
        lexer_ok_def token_ok_def Let_def split: if_splits Option.bind_splits)
qed

lemma yylex_ok:
  "lexer_ok l out \<Longrightarrow> \<exists>r l' out'. yylex l out = Some (r, l', out') \<and> lexer_ok l' out' \<and> token_ok r out' \<and>
     length (lx_in l') \<le> length (lx_in l) \<and> (r \<noteq> 0 \<longrightarrow> length (lx_in l') < length (lx_in l))"
proof (induction l out rule: yylex.induct)
  case (1 l out)
  show ?case
  proof (cases "lx_in l")
    case Nil
    then show ?thesis using 1 by (subst yylex.simps) (simp add: token_ok_def)
  next
    case (Cons c cs)
    obtain r l' out' where r: "lex_rule l out c = Some (r, l', out')"
      using lex_rule_ok [of l out c] by (cases "lex_rule l out c") auto
    have p: "length (lx_in l') < length (lx_in l)" using r Cons by (rule lex_rule_progress)
    have i: "lexer_ok l' out' \<and> (\<forall>v. r = Some v \<longrightarrow> token_ok v out' \<and> v \<noteq> 0)"
      using r Cons "1.prems" by (rule lex_rule_inv)
    show ?thesis
    proof (cases r)
      case None
      then have "\<exists>r l'' out''. yylex l' out' = Some (r, l'', out'') \<and> lexer_ok l'' out'' \<and> token_ok r out'' \<and>
          length (lx_in l'') \<le> length (lx_in l') \<and> (r \<noteq> 0 \<longrightarrow> length (lx_in l'') < length (lx_in l'))"
        using 1 Cons r i by auto
      then show ?thesis using None Cons r p by (subst yylex.simps) auto
    next
      case (Some v)
      then show ?thesis using Cons r p i by (subst yylex.simps) auto
    qed
  qed
qed

section \<open>Lines of the form key, colon, value\<close>

definition is_key :: "string \<Rightarrow> bool" where
  "is_key k \<longleftrightarrow> k \<noteq> [] \<and> list_all key_char k"

definition is_value :: "string \<Rightarrow> bool" where
  "is_value v \<longleftrightarrow> v \<noteq> [] \<and> hd v \<notin> {DQ, CHR '' '', TAB} \<and> CHR ''#'' \<notin> set v \<and> NL \<notin> set v"

definition conf_line :: "string \<times> string \<Rightarrow> string" where
  "conf_line kv = fst kv @ '': '' @ snd kv @ [NL]"

lemma key_not_special:
  "key_char c \<Longrightarrow> c \<notin> {CHR ''['', CHR ''@'', CHR ''#'', CHR '' '', CHR '':'', TAB, CR, NL}"
  by (auto simp: key_char_def c_isdigit_def)

lemma takeWhile_key: "is_key k \<Longrightarrow> takeWhile key_char (k @ CHR '':'' # t) = k"
  using key_not_special [of "CHR '':''"] by (auto simp: is_key_def list_all_iff takeWhile_append2)

lemma no_NL_in_key: "is_key k \<Longrightarrow> count_list k NL = 0"
  using key_not_special by (auto simp: is_key_def list_all_iff count_list_0_iff)

lemma yylex_step:
  "lx_in l = c # cs \<Longrightarrow> lex_rule l out c = Some (None, l', out') \<Longrightarrow> yylex l out = yylex l' out'"
  by (subst yylex.simps) simp

lemma yylex_key:
  assumes "lx_state l = INITIAL" "lx_in l = k @ CHR '':'' # t" "is_key k"
  shows "yylex l out = yylex (l\<lparr>lx_state := AFTER_KEY, lx_in := CHR '':'' # t\<rparr>)
    (out\<lparr>lo_key := k, lo_is_array := lx_is_array l\<rparr>)"
proof -
  obtain c cs where k: "k = c # cs" using assms(3) by (cases k) (auto simp: is_key_def)
  then have c: "key_char c" using assms(3) by (simp add: is_key_def)
  have "matched (length k) l = l\<lparr>lx_in := CHR '':'' # t\<rparr>"
    using assms no_NL_in_key [of k] by (simp add: matched_def)
  then have "lex_rule l out c = Some (None, l\<lparr>lx_state := AFTER_KEY, lx_in := CHR '':'' # t\<rparr>,
      out\<lparr>lo_key := k, lo_is_array := lx_is_array l\<rparr>)"
    using c key_not_special [OF c] takeWhile_key [OF assms(3), of t] assms
    by (simp add: lex_rule_def initial_rule_def)
  then show ?thesis using yylex_step assms(2) k by simp
qed

lemma yylex_colon:
  assumes "lx_state l = AFTER_KEY" "lx_in l = '': '' @ t"
  shows "yylex l out = yylex (l\<lparr>lx_is_array := False, lx_state := VALUE, lx_in := t\<rparr>) out"
proof -
  let ?l = "l\<lparr>lx_is_array := False, lx_state := VALUE, lx_in := CHR '' '' # t\<rparr>"
  have "yylex l out = yylex ?l out"
    using assms by (intro yylex_step) (auto simp: lex_rule_def after_key_rule_def matched_def)
  also have "\<dots> = yylex (l\<lparr>lx_is_array := False, lx_state := VALUE, lx_in := t\<rparr>) out"
    by (rule yylex_step) (auto simp: lex_rule_def value_rule_def matched_def)
  finally show ?thesis .
qed

lemma takeWhile_value:
  "is_value v \<Longrightarrow> takeWhile (\<lambda>d. d \<noteq> CHR ''#'' \<and> d \<noteq> NL) (v @ NL # t) = v"
proof -
  assume "is_value v"
  then have "\<forall>d \<in> set v. d \<noteq> CHR ''#'' \<and> d \<noteq> NL" by (auto simp: is_value_def)
  then show ?thesis by (simp add: takeWhile_append2)
qed

lemma yylex_value:
  assumes "lx_state l = VALUE" "lx_in l = v @ NL # t" "is_value v"
  shows "yylex l out = Some (2, l\<lparr>lx_state := COMMENT, lx_in := NL # t\<rparr>,
    out\<lparr>lo_value := Some v, lo_type := TOKEN_TYPE_ITEM, lo_lineno := lx_lineno l\<rparr>)"
proof -
  obtain c cs where v: "v = c # cs" using assms(3) by (cases v) (auto simp: is_value_def)
  have m: "matched (length v) l = l\<lparr>lx_in := NL # t\<rparr>"
    using assms by (simp add: matched_def is_value_def count_list_0_iff)
  have "c \<notin> {DQ, CHR '' '', TAB, CHR ''#'', NL}" using assms(3) v by (auto simp: is_value_def)
  then have "lex_rule l out c = Some (Some 2, l\<lparr>lx_state := COMMENT, lx_in := NL # t\<rparr>,
      out\<lparr>lo_value := Some v, lo_type := TOKEN_TYPE_ITEM, lo_lineno := lx_lineno l\<rparr>)"
    unfolding lex_rule_def value_rule_def Let_def assms(1,2) takeWhile_value [OF assms(3)] m by simp
  then show ?thesis using assms v by (subst yylex.simps) simp
qed

text \<open>A line is one item; the scanner is then in front of the line end, which the next call skips.\<close>

lemma yylex_line:
  assumes "lx_state l = INITIAL" "\<not> lx_is_array l" "lx_in l = conf_line (k, v) @ t" "is_key k" "is_value v"
  shows "yylex l out = Some (2, l\<lparr>lx_is_array := False, lx_state := COMMENT, lx_in := NL # t\<rparr>,
    out\<lparr>lo_key := k, lo_is_array := False, lo_value := Some v, lo_type := TOKEN_TYPE_ITEM, lo_lineno := lx_lineno l\<rparr>)"
proof -
  have "yylex l out = yylex (l\<lparr>lx_state := AFTER_KEY, lx_in := '': '' @ v @ NL # t\<rparr>) (out\<lparr>lo_key := k, lo_is_array := False\<rparr>)"
    using assms yylex_key [of l k "CHR '' '' # v @ NL # t" out] by (simp add: conf_line_def)
  also have "\<dots> = yylex (l\<lparr>lx_is_array := False, lx_state := VALUE, lx_in := v @ NL # t\<rparr>) (out\<lparr>lo_key := k, lo_is_array := False\<rparr>)"
    by (subst yylex_colon) simp_all
  finally show ?thesis
    using assms(5) by (subst (asm) yylex_value) simp_all
qed

lemma yylex_line_end:
  assumes "lx_state l = COMMENT" "lx_in l = NL # t"
  shows "yylex l out = yylex (l\<lparr>lx_state := INITIAL, lx_lineno := lx_lineno l + 1, lx_in := t\<rparr>) out"
  using assms by (intro yylex_step) (auto simp: lex_rule_def matched_def)

section \<open>Properties\<close>

lemma digit_012: "a \<le> 2 \<Longrightarrow> digit a \<in> set ''012''"
proof -
  assume "a \<le> 2"
  then consider "a = 0" | "a = 1" | "a = 2" by linarith
  then show ?thesis by cases (simp_all add: digit_def, code_simp+)
qed

lemma escape_octal:
  assumes "a \<le> 2" "b \<le> 7" "c \<le> 7"
  shows "escape_at [BSL, digit a, digit b, digit c, NUL] 4 1 = (char_of (64 * a + 8 * b + a), 3)"
proof -
  have "digit a \<in> set ''012''" using assms(1) by (rule digit_012)
  then have "simple_escape (digit a) = None" "digit a \<noteq> CHR ''x''" by (auto simp: simple_escape_def)
  moreover have "is_oct (digit b)" "is_oct (digit c)" "oval (digit a) = a" "oval (digit b) = b"
    using assms by (simp_all add: is_oct_def oval_def)
  ultimately show ?thesis
    using digit_012 [OF assms(1)] by (simp add: escape_at_def Let_def numeral_3_eq_3 algebra_simps)
qed

text \<open>
  The escape of three octal digits is decoded with the first digit in the place of the last: it
  gives the byte it denotes only if the two are equal.
\<close>

lemma octal_escape_wrong:
  assumes "a \<le> 2" "b \<le> 7" "c \<le> 7"
  shows "map_option (\<lambda>(buf, n). take n buf) (parse_quote [BSL, digit a, digit b, digit c, NUL] 4)
           = Some [char_of (64 * a + 8 * b + a)] \<and>
         (char_of (64 * a + 8 * b + a) = (char_of (64 * a + 8 * b + c) :: char) \<longleftrightarrow> a = c)"
proof
  let ?d = "char_of (64 * a + 8 * b + a)"
  have "pq_loop [BSL, digit a, digit b, digit c, NUL] 4 0 0 = pq_loop [?d, digit a, digit b, digit c, NUL] 4 1 4"
    using escape_octal [OF assms] by (subst pq_loop.simps) (simp add: Let_def)
  also have "\<dots> = Some ([?d, NUL, digit b, digit c, NUL], 1)"
    by (subst pq_loop.simps) simp
  finally show "map_option (\<lambda>(buf, n). take n buf) (parse_quote [BSL, digit a, digit b, digit c, NUL] 4) = Some [?d]"
    by (simp add: parse_quote_def)
  have "64 * a + 8 * b + a < 256" "64 * a + 8 * b + c < 256" using assms by simp_all
  moreover have "(?d = char_of (64 * a + 8 * b + c)) = (ord ?d = ord (char_of (64 * a + 8 * b + c)))"
    by (simp only: of_char_eq_iff)
  ultimately show "(?d = char_of (64 * a + 8 * b + c)) = (a = c)" by simp
qed

end
