(* ===== verification/Config_Tree.thy ===== *)
theory Config_Tree
  imports Config_Lexer Num_Utils
begin

text \<open>
  The tree of groups, arrays and items that \<^verbatim>\<open>src/deps/new-config/config.c\<close> builds from a file.
  Nodes live in a store indexed by the order of their allocation; a freed node is \<open>None\<close> there, and
  an access to it gives \<open>None\<close>, like one through a null pointer. Which allocations succeed is
  an argument: \<open>ce_node n\<close> for the node with number \<open>n\<close>, \<open>ce_buf n\<close> for the buffer of its key and
  value, whose result the code does not test. Messages are represented by their kind and
  arguments; an error comes with the store at that point.
\<close>

section \<open>Nodes\<close>

(* src/deps/new-config/config.h:17-21, config_node_type_t *)
datatype config_type = CONFIG_TYPE_GROUP | CONFIG_TYPE_ARRAY | CONFIG_TYPE_ITEM

text \<open>The type of a node is \<open>None\<close> until it is set; a key or value is \<open>None\<close> for the null pointer.\<close>

(* src/deps/new-config/config.h:24-38, _config_node_t *)
record cnode =
  cn_type :: "config_type option"
  cn_parent :: "nat option"
  cn_prev_sibling :: "nat option"
  cn_next_sibling :: "nat option"
  cn_first_child :: "nat option"
  cn_last_child :: "nat option"
  cn_key :: "string option"
  cn_value :: "string option"
  cn_lineno :: int
  cn_length :: int
  cn_index :: int

type_synonym cstore = "cnode option list"

record cenv =
  ce_node :: "nat \<Rightarrow> bool"
  ce_buf :: "nat \<Rightarrow> bool"

definition cn_get :: "cstore \<Rightarrow> nat option \<Rightarrow> cnode option" where
  "cn_get h p = do { i \<leftarrow> p; if i < length h then h ! i else None }"

definition cn_upd :: "cstore \<Rightarrow> nat option \<Rightarrow> (cnode \<Rightarrow> cnode) \<Rightarrow> cstore option" where
  "cn_upd h p f = do { i \<leftarrow> p; n \<leftarrow> cn_get h p; Some (h[i := Some (f n)]) }"

definition cnode_zero :: cnode where
  "cnode_zero = \<lparr>cn_type = None, cn_parent = None, cn_prev_sibling = None, cn_next_sibling = None,
     cn_first_child = None, cn_last_child = None, cn_key = None, cn_value = None,
     cn_lineno = 0, cn_length = 0, cn_index = 0\<rparr>"

text \<open>The new node, or \<open>None\<close> for the null pointer.\<close>

(* src/deps/new-config/config.c:51-53, new_config_node *)
definition new_config_node :: "cenv \<Rightarrow> cstore \<Rightarrow> nat option \<times> cstore" where
  "new_config_node e h = (if ce_node e (length h) then (Some (length h), h @ [Some cnode_zero]) else (None, h))"

(* src/deps/new-config/config.c:55-68, add_child *)
definition add_child :: "cstore \<Rightarrow> nat option \<Rightarrow> nat option \<Rightarrow> cstore option" where
  "add_child h parent child = do {
     h \<leftarrow> cn_upd h child (\<lambda>c. c\<lparr>cn_parent := parent\<rparr>);
     p \<leftarrow> cn_get h parent;
     h \<leftarrow> (if cn_first_child p = None then do {
             h \<leftarrow> cn_upd h parent (\<lambda>p. p\<lparr>cn_last_child := child, cn_first_child := child\<rparr>);
             cn_upd h child (\<lambda>c. c\<lparr>cn_next_sibling := None, cn_prev_sibling := None\<rparr>) }
           else do {
             h \<leftarrow> cn_upd h child (\<lambda>c. c\<lparr>cn_prev_sibling := cn_last_child p, cn_next_sibling := None\<rparr>);
             h \<leftarrow> cn_upd h (cn_last_child p) (\<lambda>s. s\<lparr>cn_next_sibling := child\<rparr>);
             cn_upd h parent (\<lambda>p. p\<lparr>cn_last_child := child\<rparr>) });
     p \<leftarrow> cn_get h parent;
     h \<leftarrow> cn_upd h child (\<lambda>c. c\<lparr>cn_index := cn_length p\<rparr>);
     cn_upd h parent (\<lambda>p. p\<lparr>cn_length := cn_length p + 1\<rparr>) }"

text \<open>The bytes of a key that a comparison of \<open>key_len\<close> bytes reads.\<close>

definition key_of :: "cnode \<Rightarrow> string" where
  "key_of n = (case cn_key n of None \<Rightarrow> [] | Some k \<Rightarrow> k)"

text \<open>The loop over the siblings; the result is the node or the null pointer.\<close>

(* src/deps/new-config/config.c:74-79, find_child *)
partial_function (option) find_sibling :: "cstore \<Rightarrow> string \<Rightarrow> nat option \<Rightarrow> nat option option" where
  "find_sibling h key cur =
     (if cur = None then Some None
      else do {
        n \<leftarrow> cn_get h cur;
        if length key = length (key_of n) \<and> key = key_of n then Some cur else find_sibling h key (cn_next_sibling n) })"

(* src/deps/new-config/config.c:70-80, find_child *)
definition find_child :: "cstore \<Rightarrow> nat option \<Rightarrow> string \<Rightarrow> nat option option" where
  "find_child h parent key =
     (if parent = None then Some None
      else do { p \<leftarrow> cn_get h parent; find_sibling h key (cn_first_child p) })"

text \<open>\<open>n\<close> is the number of the node in the order of allocation.\<close>

(* src/deps/new-config/config.c:115-137, copy_output_node *)
definition copy_output_node :: "cenv \<Rightarrow> cstore \<Rightarrow> nat \<Rightarrow> lexer_output \<Rightarrow> string \<Rightarrow> cstore option" where
  "copy_output_node e h n out key =
     (if \<not> ce_buf e n then None
      else cn_upd h (Some n) (\<lambda>c. c\<lparr>
        cn_key := Some key,
        cn_value := (if cn_type c = Some CONFIG_TYPE_ITEM
                     then Some (case lo_value out of None \<Rightarrow> [] | Some v \<Rightarrow> v) else cn_value c),
        cn_lineno := lo_lineno out\<rparr>))"

text \<open>
  Nodes are freed in breadth-first order: the children of a node are linked behind the last
  node that is waiting.
\<close>

(* src/deps/new-config/config.c:139-152, config_node_destroy *)
partial_function (option) destroy_loop :: "cstore \<Rightarrow> nat option \<Rightarrow> nat option \<Rightarrow> cstore option" where
  "destroy_loop h lst node =
     (case node of
        None \<Rightarrow> Some h
      | Some i \<Rightarrow> do {
          n \<leftarrow> cn_get h node;
          (h, lst) \<leftarrow> (if cn_first_child n \<noteq> None
             then do { h \<leftarrow> cn_upd h lst (\<lambda>s. s\<lparr>cn_next_sibling := cn_first_child n\<rparr>); Some (h, cn_last_child n) }
             else Some (h, lst));
          n \<leftarrow> cn_get h node;
          destroy_loop (h[i := None]) lst (cn_next_sibling n) })"

(* src/deps/new-config/config.c:139-152, config_node_destroy *)
definition config_node_destroy :: "cstore \<Rightarrow> nat option \<Rightarrow> cstore option" where
  "config_node_destroy h node = destroy_loop h node node"

section \<open>The parser\<close>

datatype config_error = ENoMem | EOpen | ESyntax int | EDefined int string int | EGroupLevel int

text \<open>The local variables that survive a turn of the loop.\<close>

record cparse =
  cp_store :: cstore
  cp_cur :: "nat option"
  cp_stack_top :: "nat option"
  cp_top_level :: int

text \<open>A new node below \<open>parent\<close> with a copy of the token, as the code makes it in four places.\<close>

(* src/deps/new-config/config.c:214-222, config_parse_file *)
definition make_node :: "cenv \<Rightarrow> config_type \<Rightarrow> lexer_output \<Rightarrow> string \<Rightarrow> nat option \<Rightarrow> cstore \<Rightarrow>
    (config_error \<times> cstore + nat option \<times> cstore) option" where
  "make_node e t out key parent h =
     (case new_config_node e h of
        (None, h) \<Rightarrow> Some (Inl (ENoMem, h))
      | (Some i, h) \<Rightarrow> do {
          h \<leftarrow> cn_upd h (Some i) (\<lambda>c. c\<lparr>cn_type := Some t\<rparr>);
          h \<leftarrow> copy_output_node e h i out key;
          h \<leftarrow> add_child h parent (Some i);
          Some (Inr (Some i, h)) })"

text \<open>The line on which a key was defined first.\<close>

definition defined_at :: "cstore \<Rightarrow> lexer_output \<Rightarrow> nat option \<Rightarrow> (config_error \<times> cstore + 'a) option" where
  "defined_at h out tmp = do { t \<leftarrow> cn_get h tmp; Some (Inl (EDefined (lo_lineno out) (lo_key out) (cn_lineno t), h)) }"

(* src/deps/new-config/config.c:187-222, config_parse_file *)
definition parse_item :: "cenv \<Rightarrow> lexer_output \<Rightarrow> cparse \<Rightarrow> (config_error \<times> cstore + cparse) option" where
  "parse_item e out s = do {
     tmp \<leftarrow> find_child (cp_store s) (cp_cur s) (lo_key out);
     r \<leftarrow> (if lo_is_array out then
             if tmp = None then
               do { r \<leftarrow> make_node e CONFIG_TYPE_ARRAY out (lo_key out) (cp_cur s) (cp_store s);
                    case r of Inl err \<Rightarrow> Some (Inl err) | Inr (a, h) \<Rightarrow> Some (Inr (a, [], h)) }
             else do {
               t \<leftarrow> cn_get (cp_store s) tmp;
               if cn_type t \<noteq> Some CONFIG_TYPE_ARRAY then defined_at (cp_store s) out tmp
               else Some (Inr (tmp, [], cp_store s)) }
           else if tmp \<noteq> None then defined_at (cp_store s) out tmp
           else Some (Inr (cp_cur s, lo_key out, cp_store s)));
     case r of
       Inl err \<Rightarrow> Some (Inl err)
     | Inr (parent, key, h) \<Rightarrow> do {
         r \<leftarrow> make_node e CONFIG_TYPE_ITEM out key parent h;
         case r of Inl err \<Rightarrow> Some (Inl err) | Inr (_, h) \<Rightarrow> Some (Inr (s\<lparr>cp_store := h\<rparr>)) } }"

text \<open>The group above a node; an array in between is skipped.\<close>

(* src/deps/new-config/config.c:232-235, config_parse_file *)
definition group_above :: "cstore \<Rightarrow> nat option \<Rightarrow> nat option option" where
  "group_above h cur = do {
     n \<leftarrow> cn_get h cur;
     p \<leftarrow> cn_get h (cn_parent n);
     if cn_type p = Some CONFIG_TYPE_ARRAY then Some (cn_parent p) else Some (cn_parent n) }"

(* src/deps/new-config/config.c:231-237, config_parse_file *)
fun climb :: "cstore \<Rightarrow> nat \<Rightarrow> nat option \<Rightarrow> nat option option" where
  "climb h 0 cur = Some cur"
| "climb h (Suc k) cur = do { cur \<leftarrow> group_above h cur; climb h k cur }"

text \<open>What happens when the group of the token is not the current one.\<close>

(* src/deps/new-config/config.c:251-285, config_parse_file *)
definition other_group :: "cenv \<Rightarrow> lexer_output \<Rightarrow> nat option \<Rightarrow> cparse \<Rightarrow> (config_error \<times> cstore + cparse) option" where
  "other_group e out cur s = do {
     tmp \<leftarrow> find_child (cp_store s) cur (lo_key out);
     r \<leftarrow> (if lo_is_array out then
             if tmp = None then
               do { r \<leftarrow> make_node e CONFIG_TYPE_ARRAY out (lo_key out) cur (cp_store s);
                    case r of Inl err \<Rightarrow> Some (Inl err) | Inr (a, h) \<Rightarrow> Some (Inr (a, [], h)) }
             else Some (Inr (tmp, [], cp_store s))
           else Some (Inr (cur, lo_key out, cp_store s)));
     case r of
       Inl err \<Rightarrow> Some (Inl err)
     | Inr (parent, key, h) \<Rightarrow>
         if lo_is_array out \<or> tmp = None then do {
           r \<leftarrow> make_node e CONFIG_TYPE_GROUP out key parent h;
           case r of
             Inl err \<Rightarrow> Some (Inl err)
           | Inr (g, h) \<Rightarrow> Some (Inr (s\<lparr>cp_store := h, cp_top_level := lo_level out, cp_stack_top := g, cp_cur := g\<rparr>)) }
         else do {
           t \<leftarrow> cn_get h tmp;
           if cn_type t \<noteq> Some CONFIG_TYPE_GROUP then defined_at h out tmp
           else Some (Inr (s\<lparr>cp_store := h, cp_cur := cur\<rparr>)) } }"

(* src/deps/new-config/config.c:223-287, config_parse_file *)
definition parse_group :: "cenv \<Rightarrow> lexer_output \<Rightarrow> cparse \<Rightarrow> (config_error \<times> cstore + cparse) option" where
  "parse_group e out s =
     (if lo_level out > cp_top_level s + 1 then Some (Inl (EGroupLevel (lo_lineno out), cp_store s))
      else do {
        cur \<leftarrow> climb (cp_store s) (nat (cp_top_level s - lo_level out)) (cp_stack_top s);
        let cur_level = min (cp_top_level s) (lo_level out);
        same \<leftarrow> (if cur_level \<noteq> lo_level out \<or> lo_is_array out then Some False
                 else do { n \<leftarrow> cn_get (cp_store s) cur;
                           Some (key_of n = lo_key out) });
        if same then Some (Inr (s\<lparr>cp_cur := cur\<rparr>))
        else do {
          cur \<leftarrow> (if cur_level = lo_level out then group_above (cp_store s) cur else Some cur);
          other_group e out cur s } })"

(* src/deps/new-config/config.c:187-287, config_parse_file *)
definition parse_token :: "cenv \<Rightarrow> lexer_output \<Rightarrow> cparse \<Rightarrow> (config_error \<times> cstore + cparse) option" where
  "parse_token e out s = (case lo_type out of TOKEN_TYPE_ITEM \<Rightarrow> parse_item e out s | TOKEN_TYPE_GROUP \<Rightarrow> parse_group e out s)"

text \<open>
  The loop over the tokens. The scanner's invariant is part of its guard, so that the loop is a
  total function; it holds from the start.
\<close>

lemma lexer_next_shorter:
  assumes "lexer_ok l out" "lexer_next l out = Some (r, l', out')" "r \<noteq> 0"
  shows "length (lx_in l') < length (lx_in l)"
  using yylex_ok [OF assms(1)] assms(2,3) by (auto simp: lexer_next_def)

(* src/deps/new-config/config.c:182-288, config_parse_file *)
function parse_loop :: "cenv \<Rightarrow> lexer \<Rightarrow> lexer_output \<Rightarrow> cparse \<Rightarrow> (config_error \<times> cstore + cparse) option" where
  "parse_loop e l out s =
     (if \<not> lexer_ok l out then None
      else case lexer_next l out of
        None \<Rightarrow> None
      | Some (r, l', out') \<Rightarrow>
          if r = 0 then Some (Inr s)
          else if r = -1 then Some (Inl (ESyntax (lo_lineno out'), cp_store s))
          else (case parse_token e out' s of
                  None \<Rightarrow> None
                | Some (Inl err) \<Rightarrow> Some (Inl err)
                | Some (Inr s') \<Rightarrow> parse_loop e l' out' s'))"
  by pat_completeness auto
termination
  by (relation "measure (\<lambda>(_, l, _, _). length (lx_in l))") (auto dest: lexer_next_shorter)

declare parse_loop.simps [simp del]

text \<open>
  The whole parse: the root, the loop, and on an error the release of every node. The result of a
  failed \<open>lexer_init\<close> is the argument \<open>lxok\<close>; \<open>out0\<close> is the uninitialised token record.
\<close>

(* src/deps/new-config/config.c:154-296, config_parse_file *)
definition config_parse_file :: "cenv \<Rightarrow> bool \<Rightarrow> lexer_output \<Rightarrow> string option \<Rightarrow> (config_error \<times> cstore + nat \<times> cstore) option" where
  "config_parse_file e lxok out0 content =
     (case new_config_node e [] of
        (None, h) \<Rightarrow> Some (Inl (ENoMem, h))
      | (Some rt, h) \<Rightarrow> do {
          h \<leftarrow> cn_upd h (Some rt) (\<lambda>c. c\<lparr>cn_type := Some CONFIG_TYPE_GROUP\<rparr>);
          if \<not> lxok then Some (Inl (ENoMem, h[rt := None]))
          else
            let (ret, l) = lexer_setfile lexer_init content in
            if ret \<noteq> 0 then do { h \<leftarrow> config_node_destroy h (Some rt); Some (Inl (EOpen, h)) }
            else do {
              r \<leftarrow> parse_loop e l out0 \<lparr>cp_store = h, cp_cur = Some rt, cp_stack_top = Some rt, cp_top_level = -1\<rparr>;
              case r of
                Inr s \<Rightarrow> Some (Inr (rt, cp_store s))
              | Inl (err, h) \<Rightarrow> do { h \<leftarrow> config_node_destroy h (Some rt); Some (Inl (err, h)) } } })"

section \<open>The interface\<close>

text \<open>A configuration: its tree, with the root, and the message of the last error.\<close>

(* src/deps/new-config/config.c:17-20, _config_t *)
record config =
  cf_root :: "nat option"
  cf_errmsg :: "config_error option"
  cf_store :: cstore

(* src/deps/new-config/config.c:298-303, config_init *)
definition config_init :: config where
  "config_init = \<lparr>cf_root = None, cf_errmsg = None, cf_store = []\<rparr>"

text \<open>The nodes that are left after the configuration is destroyed.\<close>

(* src/deps/new-config/config.c:305-312, config_destroy *)
definition config_destroy :: "config \<Rightarrow> cstore option" where
  "config_destroy c = (if cf_root c \<noteq> None then config_node_destroy (cf_store c) (cf_root c) else Some (cf_store c))"

text \<open>
  A tree read before is destroyed; its root stays in the structure when the new file cannot be
  read, so that the next call or \<open>config_destroy\<close> uses freed nodes.
\<close>

(* src/deps/new-config/config.c:314-326, config_read_file *)
definition config_read_file :: "cenv \<Rightarrow> bool \<Rightarrow> lexer_output \<Rightarrow> string option \<Rightarrow> config \<Rightarrow> (int \<times> config) option" where
  "config_read_file e lxok out0 content c = do {
     h \<leftarrow> (if cf_root c \<noteq> None then config_node_destroy (cf_store c) (cf_root c) else Some (cf_store c));
     r \<leftarrow> config_parse_file e lxok out0 content;
     case r of
       Inr (rt, h') \<Rightarrow> Some (0, c\<lparr>cf_root := Some rt, cf_store := h'\<rparr>)
     | Inl (err, h') \<Rightarrow> Some (-1, c\<lparr>cf_errmsg := Some err, cf_store := h\<rparr>) }"

(* src/deps/new-config/config.c:328-330, config_error *)
definition config_errmsg :: "config \<Rightarrow> config_error option" where
  "config_errmsg c = cf_errmsg c"

(* src/deps/new-config/config.c:332-334, config_root *)
definition config_root :: "config \<Rightarrow> nat option" where
  "config_root c = cf_root c"

(* src/deps/new-config/config.c:359-361, config_node_key *)
definition config_node_key :: "cstore \<Rightarrow> nat option \<Rightarrow> string option option" where
  "config_node_key h p = do { n \<leftarrow> cn_get h p; Some (cn_key n) }"

(* src/deps/new-config/config.c:367-369, config_node_value *)
definition config_node_value :: "cstore \<Rightarrow> nat option \<Rightarrow> string option option" where
  "config_node_value h p = do { n \<leftarrow> cn_get h p; Some (cn_value n) }"

(* src/deps/new-config/config.c:391-393, config_node_first_child *)
definition config_node_first_child :: "cstore \<Rightarrow> nat option \<Rightarrow> nat option option" where
  "config_node_first_child h p = do { n \<leftarrow> cn_get h p; Some (cn_first_child n) }"

(* src/deps/new-config/config.c:395-397, config_next *)
definition config_next :: "cstore \<Rightarrow> nat option \<Rightarrow> nat option option" where
  "config_next h p = do { n \<leftarrow> cn_get h p; Some (cn_next_sibling n) }"

text \<open>\<open>strtok_r(path, "/", &r)\<close>, called until it returns nothing: the parts between the slashes that are not empty.\<close>

definition path_keys :: "string \<Rightarrow> string list" where
  "path_keys path = filter (\<lambda>k. k \<noteq> [])
     (foldr (\<lambda>c ks. if c = CHR ''/'' then [] # ks else (c # hd ks) # tl ks) path [[]])"

text \<open>\<open>index\<close> steps along the siblings.\<close>

(* src/deps/new-config/config.c:347-347, config_lookup *)
fun nth_sibling :: "cstore \<Rightarrow> nat \<Rightarrow> nat option \<Rightarrow> nat option option" where
  "nth_sibling h 0 node = Some node"
| "nth_sibling h (Suc k) node =
     (if node = None then Some None else do { n \<leftarrow> cn_get h node; nth_sibling h k (cn_next_sibling n) })"

(* src/deps/new-config/config.c:343-354, config_lookup *)
fun lookup_loop :: "cstore \<Rightarrow> nat option \<Rightarrow> string list \<Rightarrow> nat option option" where
  "lookup_loop h node [] = Some node"
| "lookup_loop h node (key # keys) =
     (if node = None then Some None
      else do {
        n \<leftarrow> cn_get h node;
        node \<leftarrow> (case cn_type n of
             Some CONFIG_TYPE_ARRAY \<Rightarrow> nth_sibling h (nat (c_atoi key)) (cn_first_child n)
           | Some CONFIG_TYPE_GROUP \<Rightarrow> find_child h node key
           | _ \<Rightarrow> Some None);
        lookup_loop h node keys })"

(* src/deps/new-config/config.c:336-357, config_lookup *)
definition config_lookup :: "config \<Rightarrow> string \<Rightarrow> nat option option" where
  "config_lookup c path = lookup_loop (cf_store c) (cf_root c) (path_keys path)"

(* src/deps/new-config/config.c:399-401, config_node_get_string *)
definition config_node_get_string :: "cstore \<Rightarrow> nat option \<Rightarrow> string option option" where
  "config_node_get_string h p = do { n \<leftarrow> cn_get h p; Some (cn_value n) }"

text \<open>\<open>atol\<close> and \<open>strcasecmp\<close> of a null pointer are invalid; groups and arrays have no value.\<close>

(* src/deps/new-config/config.c:411-419, config_node_get_bool *)
definition config_node_get_bool :: "cstore \<Rightarrow> nat option \<Rightarrow> bool option" where
  "config_node_get_bool h p = do {
     n \<leftarrow> cn_get h p;
     v \<leftarrow> cn_value n;
     let v = cstr v;
     Some (c_strtoll v \<noteq> 0 \<or> strcaseeq v ''y'' \<or> strcaseeq v ''yes'' \<or> strcaseeq v ''true'' \<or> strcaseeq v ''t'') }"

(* src/deps/new-config/config.c:421-427, config_lookup_string *)
definition config_lookup_string :: "config \<Rightarrow> string \<Rightarrow> (int \<times> string option) option" where
  "config_lookup_string c path = do {
     node \<leftarrow> config_lookup c path;
     if node = None then Some (-1, None)
     else do { v \<leftarrow> config_node_get_string (cf_store c) node; Some (0, v) } }"

(* src/deps/new-config/config.c:445-451, config_lookup_bool *)
definition config_lookup_bool :: "config \<Rightarrow> string \<Rightarrow> (int \<times> bool option) option" where
  "config_lookup_bool c path = do {
     node \<leftarrow> config_lookup c path;
     if node = None then Some (-1, None)
     else do { v \<leftarrow> config_node_get_bool (cf_store c) node; Some (0, Some v) } }"

section \<open>Well-formed trees\<close>

definition node :: "cstore \<Rightarrow> nat \<Rightarrow> cnode" where
  "node h i = the (h ! i)"

definition alive :: "cstore \<Rightarrow> nat \<Rightarrow> bool" where
  "alive h i \<longleftrightarrow> i < length h \<and> h ! i \<noteq> None"

text \<open>The siblings \<open>xs\<close> are linked in this order, and nothing follows the last one.\<close>

fun sib_chain :: "cstore \<Rightarrow> nat list \<Rightarrow> bool" where
  "sib_chain h [] = True"
| "sib_chain h [x] = (cn_next_sibling (node h x) = None)"
| "sib_chain h (x # y # ys) = (cn_next_sibling (node h x) = Some y \<and> sib_chain h (y # ys))"

definition first_of :: "nat list \<Rightarrow> nat option" where
  "first_of xs = (if xs = [] then None else Some (hd xs))"

definition last_of :: "nat list \<Rightarrow> nat option" where
  "last_of xs = (if xs = [] then None else Some (last xs))"

text \<open>\<open>xs\<close> are the children of node \<open>i\<close>.\<close>

definition family :: "cstore \<Rightarrow> nat \<Rightarrow> nat list \<Rightarrow> bool" where
  "family h i xs \<longleftrightarrow> cn_first_child (node h i) = first_of xs \<and> cn_last_child (node h i) = last_of xs \<and>
     sib_chain h xs \<and> distinct xs"

text \<open>
  A tree with its root at 0 and the lists of children \<open>kids\<close>. Nodes are allocated after
  their parent, so there are no cycles.
\<close>

definition tree_ok :: "cstore \<Rightarrow> (nat \<Rightarrow> nat list) \<Rightarrow> bool" where
  "tree_ok h kids \<longleftrightarrow> 0 < length h \<and> (\<forall>i < length h. alive h i \<and> family h i (kids i)) \<and>
     (\<forall>i < length h. \<forall>c \<in> set (kids i). i < c \<and> c < length h \<and> cn_parent (node h c) = Some i) \<and>
     (\<forall>c < length h. 0 < c \<longrightarrow> (\<exists>p < length h. c \<in> set (kids p))) \<and>
     cn_next_sibling (node h 0) = None"

lemma cn_get_alive [simp]: "alive h i \<Longrightarrow> cn_get h (Some i) = Some (node h i)"
  by (auto simp: cn_get_def alive_def node_def)

lemma cn_get_None [simp]: "cn_get h None = None"
  by (simp add: cn_get_def)

lemma cn_upd_alive [simp]: "alive h i \<Longrightarrow> cn_upd h (Some i) f = Some (h[i := Some (f (node h i))])"
  by (simp add: cn_upd_def)

lemma node_upd: "i < length h \<Longrightarrow> node (h[i := Some n]) j = (if i = j then n else node h j)"
  by (simp add: node_def nth_upd)

lemma alive_upd [simp]: "alive (h[i := Some n]) j \<longleftrightarrow> (if i = j then j < length h else alive h j)"
  by (auto simp: alive_def nth_upd)

lemma alive_free [simp]: "alive (h[i := None]) j \<longleftrightarrow> i \<noteq> j \<and> alive h j"
  by (auto simp: alive_def nth_upd)

lemma node_free: "i \<noteq> j \<Longrightarrow> node (h[i := None]) j = node h j"
  by (simp add: node_def nth_upd)

lemma alive_append [simp]: "alive (h @ [Some n]) j \<longleftrightarrow> j = length h \<or> alive h j"
  by (auto simp: alive_def nth_append)

lemma node_append: "node (h @ [Some n]) j = (if j = length h then n else if j < length h then node h j else node (h @ [Some n]) j)"
  by (simp add: node_def nth_append)

lemma aliveD: "alive h i \<Longrightarrow> i < length h"
  by (simp add: alive_def)

text \<open>A chain of siblings depends on the links of its own members.\<close>

lemma sib_chain_cong:
  "(\<And>x. x \<in> set xs \<Longrightarrow> cn_next_sibling (node h' x) = cn_next_sibling (node h x)) \<Longrightarrow> sib_chain h' xs = sib_chain h xs"
  by (induction xs rule: sib_chain.induct) auto

lemma sib_chain_append:
  "xs \<noteq> [] \<Longrightarrow> ys \<noteq> [] \<Longrightarrow> sib_chain h ys \<Longrightarrow> cn_next_sibling (node h (last xs)) = Some (hd ys) \<Longrightarrow>
   (\<And>i. Suc i < length xs \<Longrightarrow> cn_next_sibling (node h (xs ! i)) = Some (xs ! Suc i)) \<Longrightarrow> sib_chain h (xs @ ys)"
proof (induction xs)
  case Nil
  then show ?case by simp
next
  case (Cons x xs)
  show ?case
  proof (cases xs)
    case Nil
    then show ?thesis using Cons.prems by (cases ys) auto
  next
    case (Cons z zs)
    have "sib_chain h (xs @ ys)"
    proof (rule Cons.IH)
      show "cn_next_sibling (node h (xs ! i)) = Some (xs ! Suc i)" if "Suc i < length xs" for i
        using Cons.prems(5) [of "Suc i"] that by simp
    qed (use Cons.prems Cons in auto)
    moreover have "cn_next_sibling (node h x) = Some z"
      using Cons.prems(5) [of 0] Cons by simp
    ultimately show ?thesis using Cons by simp
  qed
qed

lemma sib_chain_next: "sib_chain h xs \<Longrightarrow> Suc i < length xs \<Longrightarrow> cn_next_sibling (node h (xs ! i)) = Some (xs ! Suc i)"
proof (induction xs arbitrary: i rule: sib_chain.induct)
  case (3 h x y ys)
  then show ?case by (cases i) auto
qed auto

lemma sib_chain_last: "sib_chain h xs \<Longrightarrow> xs \<noteq> [] \<Longrightarrow> cn_next_sibling (node h (last xs)) = None"
  by (induction xs rule: sib_chain.induct) auto

text \<open>Linking a second sib_chain behind the last member of a first one.\<close>

lemma sib_chain_link:
  assumes "sib_chain h xs" "sib_chain h ys" "xs \<noteq> []" "ys \<noteq> []" "distinct xs" "set xs \<inter> set ys = {}" "last xs < length h"
  shows "sib_chain (h[last xs := Some ((node h (last xs))\<lparr>cn_next_sibling := Some (hd ys)\<rparr>)]) (xs @ ys)"
    (is "sib_chain ?h (xs @ ys)")
proof (rule sib_chain_append [OF assms(3,4)])
  have "last xs \<notin> set ys" using assms(3,6) last_in_set by blast
  then show "sib_chain ?h ys"
    using assms(2) by (subst sib_chain_cong [of _ _ h]) (auto simp: node_upd [OF assms(7)])
  show "cn_next_sibling (node ?h (last xs)) = Some (hd ys)"
    by (simp add: node_upd [OF assms(7)])
  show "cn_next_sibling (node ?h (xs ! i)) = Some (xs ! Suc i)" if i: "Suc i < length xs" for i
  proof -
    have "xs ! i \<noteq> last xs"
      using assms(3,5) i by (simp add: last_conv_nth nth_eq_iff_index_eq)
    then show ?thesis using sib_chain_next [OF assms(1) i] by (auto simp: node_upd [OF assms(7)])
  qed
qed

lemma sib_chain_tl: "sib_chain h (x # xs) \<Longrightarrow> sib_chain h xs \<and> cn_next_sibling (node h x) = first_of xs"
  by (cases xs) (auto simp: first_of_def)

section \<open>Every node is freed\<close>

text \<open>
  The state of \<open>config_node_destroy\<close>: the nodes \<open>q\<close> are waiting, in this order; the children of every
  node that is left are linked and not waiting; every node that is left is waiting or
  is a child of one that is left.
\<close>

definition kids_left :: "(nat \<Rightarrow> nat list) \<Rightarrow> cstore \<Rightarrow> nat list \<Rightarrow> nat \<Rightarrow> bool" where
  "kids_left kids h q i \<longleftrightarrow> family h i (kids i) \<and> (\<forall>c \<in> set (kids i). i < c \<and> alive h c \<and> c \<notin> set q)"

definition waiting :: "(nat \<Rightarrow> nat list) \<Rightarrow> cstore \<Rightarrow> nat list \<Rightarrow> bool" where
  "waiting kids h q \<longleftrightarrow> distinct q \<and> sib_chain h q \<and> (\<forall>i \<in> set q. alive h i) \<and>
     (\<forall>i. alive h i \<longrightarrow> kids_left kids h q i) \<and>
     (\<forall>i j. alive h i \<and> alive h j \<and> i \<noteq> j \<longrightarrow> set (kids i) \<inter> set (kids j) = {}) \<and>
     (\<forall>c. alive h c \<longrightarrow> c \<in> set q \<or> (\<exists>p. alive h p \<and> c \<in> set (kids p)))"

lemma waitingD:
  assumes "waiting kids h q"
  shows "distinct q" "sib_chain h q" "i \<in> set q \<Longrightarrow> alive h i" "alive h i \<Longrightarrow> kids_left kids h q i"
    "alive h i \<Longrightarrow> alive h j \<Longrightarrow> i \<noteq> j \<Longrightarrow> set (kids i) \<inter> set (kids j) = {}"
    "alive h c \<Longrightarrow> c \<in> set q \<or> (\<exists>p. alive h p \<and> c \<in> set (kids p))"
  using assms unfolding waiting_def by blast+

lemma kids_leftD:
  assumes "kids_left kids h q i"
  shows "family h i (kids i)" "c \<in> set (kids i) \<Longrightarrow> i < c" "c \<in> set (kids i) \<Longrightarrow> alive h c"
    "c \<in> set (kids i) \<Longrightarrow> c \<notin> set q"
  using assms unfolding kids_left_def by blast+

lemma waiting_empty:
  assumes "waiting kids h []"
  shows "\<not> alive h i"
proof (induction i rule: less_induct)
  case (less i)
  show ?case
  proof
    assume "alive h i"
    then obtain p where p: "alive h p" "i \<in> set (kids p)" using waitingD(6) [OF assms, of i] by auto
    then have "p < i" using kids_leftD(2) waitingD(4) [OF assms] by blast
    then show False using less p by blast
  qed
qed

text \<open>The store after one turn of the loop.\<close>

definition after_turn :: "(nat \<Rightarrow> nat list) \<Rightarrow> cstore \<Rightarrow> nat \<Rightarrow> nat \<Rightarrow> cstore" where
  "after_turn kids h n l =
     (if kids n = [] then h
      else h[l := Some ((node h l)\<lparr>cn_next_sibling := Some (hd (kids n))\<rparr>)])[n := None]"

lemma sib_chain_free: "n \<notin> set xs \<Longrightarrow> sib_chain (h[n := None]) xs = sib_chain h xs"
  by (rule sib_chain_cong) (metis node_free)

lemma waiting_chain:
  assumes w: "waiting kids h (n # q)"
  shows "sib_chain (after_turn kids h n (last (n # q))) (q @ kids n)"
proof -
  have n: "alive h n" by (rule waitingD(3) [OF w]) simp
  note k = kids_leftD [OF waitingD(4) [OF w n]]
  have kn: "n \<notin> set (kids n)" using k(2) by blast
  have nk: "n \<notin> set (q @ kids n)" using waitingD(1) [OF w] kn by simp
  have kc: "sib_chain h (kids n)" "distinct (kids n)" using k(1) by (simp_all add: family_def)
  have qc: "sib_chain h q" using sib_chain_tl [OF waitingD(2) [OF w]] by simp
  consider "kids n = []" | "kids n \<noteq> []" "q = []" | "kids n \<noteq> []" "q \<noteq> []" by blast
  then show ?thesis
  proof cases
    case 1
    then show ?thesis using qc nk by (simp add: after_turn_def sib_chain_free)
  next
    case 2
    have "sib_chain (h[n := Some ((node h n)\<lparr>cn_next_sibling := Some (hd (kids n))\<rparr>)]) (kids n) = sib_chain h (kids n)"
      using aliveD [OF n] kn by (intro sib_chain_cong) (auto simp: node_upd)
    then show ?thesis using 2 kc kn by (simp add: after_turn_def sib_chain_free)
  next
    case 3
    have "last q \<in> set (n # q)" using 3 by simp
    then have l: "last q < length h" using waitingD(3) [OF w] aliveD by blast
    have "set q \<inter> set (kids n) = {}" using k(4) by auto
    then have "sib_chain (h[last q := Some ((node h (last q))\<lparr>cn_next_sibling := Some (hd (kids n))\<rparr>)]) (q @ kids n)"
      using 3 qc kc l waitingD(1) [OF w] by (intro sib_chain_link) auto
    then show ?thesis using 3 nk by (simp add: after_turn_def sib_chain_free)
  qed
qed

lemma after_turn_alive:
  "alive h l \<Longrightarrow> alive (after_turn kids h n l) i \<longleftrightarrow> alive h i \<and> i \<noteq> n"
  by (auto simp: after_turn_def aliveD)

lemma after_turn_node:
  assumes "alive h l" "i \<noteq> n"
  shows "cn_first_child (node (after_turn kids h n l) i) = cn_first_child (node h i)"
    "cn_last_child (node (after_turn kids h n l) i) = cn_last_child (node h i)"
    "i \<noteq> l \<Longrightarrow> cn_next_sibling (node (after_turn kids h n l) i) = cn_next_sibling (node h i)"
  using assms(2) by (auto simp: after_turn_def node_free node_upd [OF aliveD [OF assms(1)]])

lemma waiting_step:
  assumes w: "waiting kids h (n # q)"
  shows "waiting kids (after_turn kids h n (last (n # q))) (q @ kids n)"
proof -
  define l where "l = last (n # q)"
  let ?h = "after_turn kids h n l"
  have l: "l \<in> set (n # q)" unfolding l_def by (rule last_in_set) simp
  then have la: "alive h l" by (rule waitingD(3) [OF w])
  have al: "alive ?h i \<longleftrightarrow> alive h i \<and> i \<noteq> n" for i using la by (rule after_turn_alive)
  have n: "alive h n" by (rule waitingD(3) [OF w]) simp
  note kl = waitingD(4) [OF w] and dj = waitingD(5) [OF w]
  have "distinct (q @ kids n)"
    using waitingD(1) [OF w] kids_leftD(1,4) [OF kl [OF n]] by (auto simp: family_def)
  moreover have "alive ?h i" if "i \<in> set (q @ kids n)" for i
  proof -
    have "i \<noteq> n" using that waitingD(1) [OF w] kids_leftD(2) [OF kl [OF n], of n] by auto
    then show ?thesis using that waitingD(3) [OF w, of i] kids_leftD(3) [OF kl [OF n], of i] by (auto simp: al)
  qed
  moreover have "kids_left kids ?h (q @ kids n) i" if "alive ?h i" for i
  proof -
    have i: "alive h i" "i \<noteq> n" using that by (simp_all add: al)
    note ki = kids_leftD [OF kl [OF i(1)]]
    have nl: "c \<noteq> n \<and> c \<noteq> l" if "c \<in> set (kids i)" for c using ki(4) [OF that] l by auto
    then have "sib_chain ?h (kids i) = sib_chain h (kids i)"
      by (intro sib_chain_cong after_turn_node(3) [OF la]) auto
    then have "family ?h i (kids i)"
      using ki(1) after_turn_node(1,2) [OF la i(2)] by (simp add: family_def)
    moreover have "c \<notin> set (kids n)" if "c \<in> set (kids i)" for c using dj [OF i(1) n i(2)] that by blast
    ultimately show ?thesis
      using ki nl unfolding kids_left_def by (auto simp: al)
  qed
  moreover have "c \<in> set (q @ kids n) \<or> (\<exists>p. alive ?h p \<and> c \<in> set (kids p))" if "alive ?h c" for c
  proof -
    have c: "alive h c" "c \<noteq> n" using that by (simp_all add: al)
    then consider "c \<in> set q" | p where "alive h p" "c \<in> set (kids p)" using waitingD(6) [OF w, of c] by auto
    then show ?thesis by cases (auto simp: al)
  qed
  moreover have "set (kids i) \<inter> set (kids j) = {}" if "alive ?h i" "alive ?h j" "i \<noteq> j" for i j
    using that dj [of i j] by (simp add: al)
  ultimately show ?thesis
    using waiting_chain [OF w] unfolding waiting_def l_def by blast
qed

lemma destroy_turn:
  assumes w: "waiting kids h (n # q)"
  shows "destroy_loop h (Some (last (n # q))) (Some n) =
    destroy_loop (after_turn kids h n (last (n # q)))
      (if kids n = [] then Some (last (n # q)) else Some (last (kids n))) (first_of (q @ kids n))"
proof -
  define l where "l = last (n # q)"
  have "l \<in> set (n # q)" unfolding l_def by (rule last_in_set) simp
  then have l: "alive h l" by (rule waitingD(3) [OF w])
  have n: "alive h n" by (rule waitingD(3) [OF w]) simp
  have f: "cn_first_child (node h n) = first_of (kids n)" "cn_last_child (node h n) = last_of (kids n)"
    using kids_leftD(1) [OF waitingD(4) [OF w n]] by (simp_all add: family_def)
  have nx: "cn_next_sibling (node h n) = first_of q" using sib_chain_tl [OF waitingD(2) [OF w]] by simp
  show ?thesis
  proof (cases "kids n = []")
    case True
    then show ?thesis
      using n f nx by (subst destroy_loop.simps) (simp add: after_turn_def first_of_def)
  next
    case False
    let ?h = "h[l := Some ((node h l)\<lparr>cn_next_sibling := Some (hd (kids n))\<rparr>)]"
    have "cn_get ?h (Some n) = Some (node ?h n)" using n l by (simp add: aliveD)
    moreover have "cn_next_sibling (node ?h n) = first_of (q @ kids n)"
    proof (cases "q = []")
      case True
      then show ?thesis using False l by (simp add: node_upd aliveD l_def first_of_def)
    next
      case q: False
      then have "l \<noteq> n" using waitingD(1) [OF w] last_in_set [OF q] by (auto simp: l_def)
      then show ?thesis using q nx l by (simp add: node_upd aliveD first_of_def)
    qed
    ultimately show ?thesis
      using False n l f unfolding l_def [symmetric]
      by (subst destroy_loop.simps) (simp add: after_turn_def first_of_def last_of_def)
  qed
qed

lemma destroy_loop_frees:
  "waiting kids h q \<Longrightarrow> (q \<noteq> [] \<longrightarrow> lst = Some (last q)) \<Longrightarrow>
     \<exists>h'. destroy_loop h lst (first_of q) = Some h' \<and> length h' = length h \<and> (\<forall>i. \<not> alive h' i)"
proof (induction "card {i. alive h i}" arbitrary: h q lst rule: less_induct)
  case less
  note w = less.prems(1)
  show ?case
  proof (cases q)
    case Nil
    then show ?thesis
      using waiting_empty [of kids h] w by (subst destroy_loop.simps) (simp add: first_of_def)
  next
    case (Cons n q')
    let ?h = "after_turn kids h n (last (n # q'))"
    let ?l = "if kids n = [] then Some (last (n # q')) else Some (last (kids n))"
    have w': "waiting kids h (n # q')" using w Cons by simp
    have n: "alive h n" by (rule waitingD(3) [OF w']) simp
    have "last (n # q') \<in> set (n # q')" by (rule last_in_set) simp
    then have "alive h (last (n # q'))" by (rule waitingD(3) [OF w'])
    then have "{i. alive ?h i} = {i. alive h i} - {n}" by (auto simp: after_turn_alive)
    moreover have "finite {i. alive h i}" by (rule finite_subset [of _ "{..<length h}"]) (auto dest: aliveD)
    ultimately have "card {i. alive ?h i} < card {i. alive h i}" using n by (intro psubset_card_mono) auto
    moreover have "q' @ kids n \<noteq> [] \<longrightarrow> ?l = Some (last (q' @ kids n))" by (cases "kids n = []") auto
    ultimately have "\<exists>h'. destroy_loop ?h ?l (first_of (q' @ kids n)) = Some h' \<and> length h' = length ?h \<and>
        (\<forall>i. \<not> alive h' i)"
      using waiting_step [OF w'] by (intro less.hyps)
    moreover have "length ?h = length h" by (simp add: after_turn_def)
    moreover have "lst = Some (last (n # q'))" "first_of q = Some n"
      using less.prems(2) Cons by (simp_all add: first_of_def)
    ultimately show ?thesis
      using destroy_turn [OF w'] by (simp only:)
  qed
qed

lemma tree_okD:
  assumes "tree_ok h kids"
  shows "0 < length h" "i < length h \<Longrightarrow> alive h i" "i < length h \<Longrightarrow> family h i (kids i)"
    "i < length h \<Longrightarrow> c \<in> set (kids i) \<Longrightarrow> i < c" "i < length h \<Longrightarrow> c \<in> set (kids i) \<Longrightarrow> c < length h"
    "i < length h \<Longrightarrow> c \<in> set (kids i) \<Longrightarrow> cn_parent (node h c) = Some i"
    "c < length h \<Longrightarrow> 0 < c \<Longrightarrow> \<exists>p < length h. c \<in> set (kids p)"
    "cn_next_sibling (node h 0) = None"
  using assms unfolding tree_ok_def by blast+

lemma tree_waiting:
  assumes t: "tree_ok h kids"
  shows "waiting kids h [0]"
proof -
  note d = tree_okD [OF t]
  have "kids_left kids h [0] i" if "alive h i" for i
  proof -
    have i: "i < length h" using that by (rule aliveD)
    have "i < c \<and> alive h c \<and> c \<notin> set [0]" if "c \<in> set (kids i)" for c
      using d(4) [OF i that] d(2) [OF d(5) [OF i that]] by simp
    then show ?thesis using d(3) [OF i] unfolding kids_left_def by blast
  qed
  moreover have "set (kids i) \<inter> set (kids j) = {}" if "alive h i" "alive h j" "i \<noteq> j" for i j
  proof (rule ccontr)
    assume "set (kids i) \<inter> set (kids j) \<noteq> {}"
    then obtain c where "c \<in> set (kids i)" "c \<in> set (kids j)" by blast
    then have "cn_parent (node h c) = Some i" "cn_parent (node h c) = Some j"
      using d(6) aliveD that by blast+
    then show False using that(3) by simp
  qed
  moreover have "c \<in> set [0] \<or> (\<exists>p. alive h p \<and> c \<in> set (kids p))" if ca: "alive h c" for c
  proof (cases "c = 0")
    case False
    then obtain p where "p < length h" "c \<in> set (kids p)" using d(7) [OF aliveD [OF ca]] by auto
    then show ?thesis using d(2) by blast
  qed simp
  ultimately show ?thesis
    using d(1) d(2) [of 0] d(8) unfolding waiting_def by (intro conjI) simp_all
qed

lemma tree_destroyed:
  assumes "tree_ok h kids"
  shows "\<exists>h'. config_node_destroy h (Some 0) = Some h' \<and> length h' = length h \<and> (\<forall>i. \<not> alive h' i)"
  using destroy_loop_frees [OF tree_waiting [OF assms], of "Some 0"]
  by (simp add: config_node_destroy_def first_of_def)

section \<open>Growing a tree\<close>

lemma find_sibling_chain:
  "sib_chain h xs \<Longrightarrow> \<forall>x \<in> set xs. alive h x \<Longrightarrow>
     find_sibling h key (first_of xs) = Some (find (\<lambda>i. key_of (node h i) = key) xs)"
proof (induction xs)
  case Nil
  then show ?case by (subst find_sibling.simps) (simp add: first_of_def)
next
  case (Cons x xs)
  then have "find_sibling h key (first_of xs) = Some (find (\<lambda>i. key_of (node h i) = key) xs)"
    using sib_chain_tl [of h x xs] by simp
  then show ?case
    using Cons.prems sib_chain_tl [of h x xs] by (subst find_sibling.simps) (simp add: first_of_def)
qed

lemma find_child_tree:
  assumes "tree_ok h kids" "p < length h"
  shows "find_child h (Some p) key = Some (find (\<lambda>i. key_of (node h i) = key) (kids p))"
proof -
  have "\<forall>x \<in> set (kids p). alive h x" using tree_okD(2,5) [OF assms(1)] assms(2) by blast
  then show ?thesis
    using tree_okD(2,3) [OF assms] find_sibling_chain [of h "kids p" key] by (simp add: find_child_def family_def)
qed

text \<open>The nodes of \<open>h\<close> are still there in \<open>h'\<close>, with other links at most.\<close>

definition keeps :: "cstore \<Rightarrow> cstore \<Rightarrow> bool" where
  "keeps h h' \<longleftrightarrow> length h \<le> length h' \<and> (\<forall>i < length h. alive h i \<longrightarrow> alive h' i \<and>
     cn_type (node h' i) = cn_type (node h i) \<and> cn_parent (node h' i) = cn_parent (node h i) \<and>
     cn_key (node h' i) = cn_key (node h i) \<and> cn_value (node h' i) = cn_value (node h i))"

text \<open>
  The nodes after node \<open>n\<close> with number \<open>N\<close> was linked below \<open>p\<close>, whose children so far are \<open>xs\<close>.
\<close>

definition linked :: "nat \<Rightarrow> (nat \<Rightarrow> cnode) \<Rightarrow> nat \<Rightarrow> nat list \<Rightarrow> cnode \<Rightarrow> nat \<Rightarrow> cnode" where
  "linked N f p xs n i =
     (if i = N then n\<lparr>cn_parent := Some p, cn_prev_sibling := last_of xs, cn_next_sibling := None,
          cn_index := cn_length (f p)\<rparr>
      else if i = p then (f p)\<lparr>cn_first_child := (if xs = [] then Some N else cn_first_child (f p)),
          cn_last_child := Some N, cn_length := cn_length (f p) + 1\<rparr>
      else if xs \<noteq> [] \<and> i = last xs then (f i)\<lparr>cn_next_sibling := Some N\<rparr>
      else f i)"

text \<open>A store in which every node is there, by the function from numbers to nodes.\<close>

definition store :: "nat \<Rightarrow> (nat \<Rightarrow> cnode) \<Rightarrow> cstore" where
  "store N f = map (\<lambda>i. Some (f i)) [0..<N]"

lemma length_store [simp]: "length (store N f) = N"
  by (simp add: store_def)

lemma nth_store: "i < N \<Longrightarrow> store N f ! i = Some (f i)"
  by (simp add: store_def)

lemma node_store [simp]: "i < N \<Longrightarrow> node (store N f) i = f i"
  by (simp add: node_def nth_store)

lemma alive_store [simp]: "alive (store N f) i \<longleftrightarrow> i < N"
  by (auto simp: alive_def nth_store)

lemma store_upd [simp]: "i < N \<Longrightarrow> (store N f)[i := Some n] = store N (f(i := n))"
  by (rule nth_equalityI) (auto simp: nth_store nth_list_update)

lemma store_eq: "(\<And>i. i < length h \<Longrightarrow> alive h i) \<Longrightarrow> h = store (length h) (node h)"
  by (rule nth_equalityI) (auto simp: nth_store node_def alive_def)

lemma store_append: "store N f @ [Some n] = store (Suc N) (f(N := n))"
  by (rule nth_equalityI) (auto simp: nth_append nth_store less_Suc_eq)

lemma add_child_linked:
  assumes "p < N" "cn_first_child (f p) = first_of xs" "cn_last_child (f p) = last_of xs"
    "\<forall>c \<in> set xs. p < c \<and> c < N"
  shows "add_child (store (Suc N) (f(N := n))) (Some p) (Some N) = Some (store (Suc N) (linked N f p xs n))"
proof (cases "xs = []")
  case True
  then show ?thesis
    using assms by (simp add: add_child_def first_of_def last_of_def)
      (rule arg_cong [of _ _ "store (Suc N)"], auto simp: fun_eq_iff linked_def last_of_def)
next
  case False
  then have "p < last xs \<and> last xs < N" using assms(4) last_in_set by blast
  then have "last xs < Suc N" "last xs \<noteq> N" "last xs \<noteq> p" by simp_all
  then show ?thesis
    using assms(1-3) False by (simp add: add_child_def first_of_def last_of_def)
      (rule arg_cong [of _ _ "store (Suc N)"], auto simp: fun_eq_iff linked_def last_of_def)
qed

lemma linked_sel:
  "i \<noteq> N \<Longrightarrow> cn_type (linked N f p xs n i) = cn_type (f i)" "i \<noteq> N \<Longrightarrow> cn_parent (linked N f p xs n i) = cn_parent (f i)"
  "i \<noteq> N \<Longrightarrow> cn_key (linked N f p xs n i) = cn_key (f i)" "i \<noteq> N \<Longrightarrow> cn_value (linked N f p xs n i) = cn_value (f i)"
  "i \<noteq> N \<Longrightarrow> i \<noteq> p \<Longrightarrow> cn_first_child (linked N f p xs n i) = cn_first_child (f i)"
  "i \<noteq> N \<Longrightarrow> i \<noteq> p \<Longrightarrow> cn_last_child (linked N f p xs n i) = cn_last_child (f i)"
  "i \<noteq> N \<Longrightarrow> xs = [] \<or> i \<noteq> last xs \<Longrightarrow> cn_next_sibling (linked N f p xs n i) = cn_next_sibling (f i)"
  by (auto simp: linked_def)

lemma sib_chain_store_cong:
  assumes "\<forall>x \<in> set xs. x < N \<and> x < M \<and> cn_next_sibling (g x) = cn_next_sibling (f x)"
  shows "sib_chain (store M g) xs = sib_chain (store N f) xs"
  using assms by (intro sib_chain_cong) auto

lemma linked_chain:
  assumes "sib_chain (store N f) xs" "distinct xs" "\<forall>c \<in> set xs. p < c \<and> c < N"
  shows "sib_chain (store (Suc N) (linked N f p xs n)) (xs @ [N])"
proof (cases "xs = []")
  case True
  then show ?thesis by (simp add: linked_def)
next
  case False
  then have l: "last xs < N" "last xs \<noteq> p" using assms(3) last_in_set by auto
  show ?thesis
  proof (rule sib_chain_append [OF False])
    show "cn_next_sibling (node (store (Suc N) (linked N f p xs n)) (xs ! i)) = Some (xs ! Suc i)"
      if i: "Suc i < length xs" for i
    proof -
      have "xs ! i \<noteq> last xs" using assms(2) False i by (simp add: last_conv_nth nth_eq_iff_index_eq)
      moreover have "xs ! i < N" using assms(3) i by simp
      ultimately show ?thesis using sib_chain_next [OF assms(1) i] by (simp add: linked_sel)
    qed
  qed (use l False in \<open>auto simp: linked_def\<close>)
qed

lemma linked_tree:
  assumes t: "tree_ok (store N f) kids" "p < N"
    and n: "cn_first_child n = None" "cn_last_child n = None"
  shows "tree_ok (store (Suc N) (linked N f p (kids p) n)) (kids(p := kids p @ [N], N := []))"
proof -
  let ?g = "linked N f p (kids p) n" and ?k = "kids(p := kids p @ [N], N := [])"
  let ?h = "store (Suc N) ?g"
  note d = tree_okD [OF t(1), simplified]
  have d4: "\<forall>c \<in> set (kids i). i < c \<and> c < N" if "i < N" for i using d(4,5) [OF that] by blast
  have fam: "family ?h i (?k i)" if "i < Suc N" for i
  proof -
    consider "i = N" | "i = p" "i < N" | "i < N" "i \<noteq> p" using \<open>i < Suc N\<close> by linarith
    then show ?thesis
    proof cases
      case 1
      then show ?thesis using n by (simp add: family_def first_of_def last_of_def linked_def)
    next
      case 2
      then have "family (store N f) p (kids p)" using d(3) by simp
      then have "sib_chain ?h (kids p @ [N])" "distinct (kids p @ [N])"
        "cn_first_child (f p) = first_of (kids p)"
        using linked_chain d4 [OF t(2)] t(2) by (auto simp: family_def)
      then show ?thesis using 2 by (auto simp: family_def linked_def first_of_def last_of_def)
    next
      case 3
      then have f: "family (store N f) i (kids i)" using d(3) by simp
      have "c \<noteq> last (kids p)" if "c \<in> set (kids i)" "kids p \<noteq> []" for c
        using d(6) [OF 3(1) that(1)] d(6) [OF t(2), of c] last_in_set [OF that(2)] 3(2) by auto
      then have "cn_next_sibling (?g c) = cn_next_sibling (f c)" if "c \<in> set (kids i)" for c
        using d4 [OF 3(1)] that by (intro linked_sel(7)) auto
      then have "sib_chain ?h (kids i) = sib_chain (store N f) (kids i)"
        using d4 [OF 3(1)] by (intro sib_chain_store_cong) (simp add: less_SucI)
      then show ?thesis using f 3 by (simp add: family_def linked_sel)
    qed
  qed
  have kid: "i < c \<and> c < Suc N \<and> cn_parent (node ?h c) = Some i" if ic: "i < Suc N" "c \<in> set (?k i)" for i c
  proof -
    consider "i = p" "c = N" | "i < N" "c \<in> set (kids i)" using ic t(2) by (auto split: if_splits)
    then show ?thesis
    proof cases
      case 1
      then show ?thesis using t(2) by (simp add: linked_def)
    next
      case 2
      then show ?thesis using d(4,5,6) [of i c] by (simp add: linked_sel)
    qed
  qed
  have par: "\<exists>q < Suc N. c \<in> set (?k q)" if c: "c < Suc N" "0 < c" for c
  proof (cases "c = N")
    case True
    then show ?thesis using t(2) by (intro exI [of _ p]) auto
  next
    case False
    then obtain q where q: "q < N" "c \<in> set (kids q)" using d(7) [of c] c by auto
    then show ?thesis by (intro exI [of _ q]) auto
  qed
  have "kids p = [] \<or> 0 \<noteq> last (kids p)"
    using d4 [OF t(2)] last_in_set by (metis not_less0)
  then have "cn_next_sibling (node ?h 0) = None" using d(1,8) t(2) by (simp add: linked_sel)
  then show ?thesis
    unfolding tree_ok_def length_store alive_store using fam kid par zero_less_Suc by blast
qed

text \<open>What \<open>make_node\<close> adds: the last node, as the last child of \<open>p\<close>.\<close>

definition grown :: "cstore \<Rightarrow> (nat \<Rightarrow> nat list) \<Rightarrow> nat \<Rightarrow> config_type \<Rightarrow> string \<Rightarrow> string option \<Rightarrow> cstore \<Rightarrow> bool" where
  "grown h kids p t key val h' \<longleftrightarrow> length h' = Suc (length h) \<and>
     tree_ok h' (kids(p := kids p @ [length h], length h := [])) \<and> keeps h h' \<and>
     cn_type (node h' (length h)) = Some t \<and> cn_parent (node h' (length h)) = Some p \<and>
     cn_key (node h' (length h)) = Some key \<and> cn_value (node h' (length h)) = val"

lemma make_node_grown:
  assumes t: "tree_ok h kids" "p < length h" and e: "ce_node e (length h)" "ce_buf e (length h)"
  shows "\<exists>h'. make_node e t out key (Some p) h = Some (Inr (Some (length h), h')) \<and>
    grown h kids p t key (if t = CONFIG_TYPE_ITEM then Some (case lo_value out of None \<Rightarrow> [] | Some v \<Rightarrow> v) else None) h'"
proof -
  let ?N = "length h"
  define f where "f = node h"
  have h: "h = store ?N f" unfolding f_def using tree_okD(2) [OF t(1)] by (rule store_eq)
  define n where "n = cnode_zero\<lparr>cn_type := Some t, cn_key := Some key,
    cn_value := (if t = CONFIG_TYPE_ITEM then Some (case lo_value out of None \<Rightarrow> [] | Some v \<Rightarrow> v) else None),
    cn_lineno := lo_lineno out\<rparr>"
  have "h @ [Some cnode_zero] = store (Suc ?N) (f(?N := cnode_zero))" using store_append h by metis
  then have m: "make_node e t out key (Some p) h =
      do { h \<leftarrow> add_child (store (Suc ?N) (f(?N := n))) (Some p) (Some ?N); Some (Inr (Some ?N, h)) }"
    using e by (simp add: make_node_def new_config_node_def copy_output_node_def n_def cnode_zero_def)
  have fam: "cn_first_child (f p) = first_of (kids p)" "cn_last_child (f p) = last_of (kids p)"
    using tree_okD(3) [OF t] by (simp_all add: family_def f_def)
  let ?h = "store (Suc ?N) (linked ?N f p (kids p) n)"
  have "\<forall>c \<in> set (kids p). p < c \<and> c < ?N" using tree_okD(4,5) [OF t] by blast
  then have "make_node e t out key (Some p) h = Some (Inr (Some ?N, ?h))"
    using m add_child_linked [of p ?N f "kids p" n] t(2) fam by simp
  moreover have "tree_ok ?h (kids(p := kids p @ [?N], ?N := []))"
    using t h by (intro linked_tree) (auto simp: n_def cnode_zero_def)
  moreover have "keeps h ?h" by (simp add: keeps_def linked_sel f_def)
  ultimately show ?thesis
    by (simp add: grown_def) (simp add: linked_def n_def)
qed

lemma make_node_fails:
  "\<not> ce_node e (length h) \<Longrightarrow> make_node e t out key p h = Some (Inl (ENoMem, h))"
  by (simp add: make_node_def new_config_node_def)

section \<open>The parser keeps the tree\<close>

text \<open>An array is below a node that is not an array.\<close>

definition arrays_ok :: "cstore \<Rightarrow> bool" where
  "arrays_ok h \<longleftrightarrow> (\<forall>i < length h. cn_type (node h i) = Some CONFIG_TYPE_ARRAY \<longrightarrow>
     (\<exists>p < length h. cn_parent (node h i) = Some p \<and> cn_type (node h p) \<noteq> Some CONFIG_TYPE_ARRAY))"

definition plain :: "cstore \<Rightarrow> nat \<Rightarrow> bool" where
  "plain h i \<longleftrightarrow> alive h i \<and> cn_type (node h i) \<noteq> Some CONFIG_TYPE_ARRAY"

text \<open>There are \<open>k\<close> groups above node \<open>i\<close>.\<close>

definition climbable :: "cstore \<Rightarrow> nat \<Rightarrow> nat \<Rightarrow> bool" where
  "climbable h k i \<longleftrightarrow> climb h k (Some i) \<noteq> None"

lemma keepsD:
  assumes "keeps h h'" "alive h i"
  shows "alive h' i" "cn_type (node h' i) = cn_type (node h i)" "cn_parent (node h' i) = cn_parent (node h i)"
    "cn_key (node h' i) = cn_key (node h i)" "cn_value (node h' i) = cn_value (node h i)"
  using assms aliveD [OF assms(2)] unfolding keeps_def by blast+

lemma keeps_refl: "keeps h h"
  by (simp add: keeps_def)

lemma keeps_trans: "keeps h h' \<Longrightarrow> keeps h' h'' \<Longrightarrow> keeps h h''"
proof -
  assume k: "keeps h h'" "keeps h' h''"
  have "length h \<le> length h''" using k by (simp add: keeps_def)
  moreover have "alive h'' i \<and> cn_type (node h'' i) = cn_type (node h i) \<and> cn_parent (node h'' i) = cn_parent (node h i) \<and>
      cn_key (node h'' i) = cn_key (node h i) \<and> cn_value (node h'' i) = cn_value (node h i)" if "alive h i" for i
    using keepsD [OF k(1) that] keepsD [OF k(2) keepsD(1) [OF k(1) that]] by simp
  ultimately show ?thesis unfolding keeps_def by blast
qed

lemma cn_get_SomeD: "cn_get h p = Some n \<Longrightarrow> \<exists>i. p = Some i \<and> alive h i \<and> n = node h i"
  by (cases p) (auto simp: cn_get_def alive_def node_def split: if_splits)

lemma group_above_keeps:
  assumes "keeps h h'" "group_above h c = Some x"
  shows "group_above h' c = Some x"
proof -
  obtain n q where nq: "cn_get h c = Some n" "cn_get h (cn_parent n) = Some q"
    "x = (if cn_type q = Some CONFIG_TYPE_ARRAY then cn_parent q else cn_parent n)"
    using assms(2) by (auto simp: group_above_def split: Option.bind_splits if_splits)
  obtain i j where ij: "c = Some i" "alive h i" "n = node h i" "cn_parent n = Some j" "alive h j" "q = node h j"
    using cn_get_SomeD [OF nq(1)] cn_get_SomeD [OF nq(2)] by auto
  then show ?thesis
    using nq(3) keepsD [OF assms(1) ij(2)] keepsD [OF assms(1) ij(5)] by (simp add: group_above_def)
qed

lemma group_above_plain:
  assumes "arrays_ok h" "group_above h c = Some x" "\<forall>i < length h. alive h i"
  shows "\<exists>j. x = Some j \<and> plain h j"
proof -
  obtain n q where nq: "cn_get h c = Some n" "cn_get h (cn_parent n) = Some q"
    "x = (if cn_type q = Some CONFIG_TYPE_ARRAY then cn_parent q else cn_parent n)"
    using assms(2) by (auto simp: group_above_def split: Option.bind_splits if_splits)
  obtain j where j: "cn_parent n = Some j" "alive h j" "q = node h j" using cn_get_SomeD [OF nq(2)] by auto
  show ?thesis
  proof (cases "cn_type q = Some CONFIG_TYPE_ARRAY")
    case True
    then show ?thesis using assms(1,3) nq(3) j aliveD [OF j(2)] by (auto simp: arrays_ok_def plain_def)
  next
    case False
    then show ?thesis using nq(3) j by (simp add: plain_def)
  qed
qed

lemma climb_keeps: "keeps h h' \<Longrightarrow> climb h k c = Some x \<Longrightarrow> climb h' k c = Some x"
  by (induction k arbitrary: c) (auto split: Option.bind_splits dest: group_above_keeps)

lemma climb_plain:
  assumes "arrays_ok h" "\<forall>i < length h. alive h i"
  shows "plain h i \<Longrightarrow> climbable h (m + k) i \<Longrightarrow> \<exists>j. climb h m (Some i) = Some (Some j) \<and> plain h j \<and> climbable h k j"
proof (induction m arbitrary: i)
  case 0
  then show ?case by simp
next
  case (Suc m)
  then obtain x where x: "group_above h (Some i) = Some x" "climb h (m + k) x \<noteq> None"
    by (auto simp: climbable_def split: Option.bind_splits)
  then obtain j where j: "x = Some j" "plain h j" using group_above_plain [OF assms(1) _ assms(2)] by blast
  then have "\<exists>j'. climb h m (Some j) = Some (Some j') \<and> plain h j' \<and> climbable h k j'"
    using x(2) by (intro Suc.IH) (auto simp: climbable_def)
  then show ?case using x(1) j(1) by auto
qed

lemma climb_add: "climb h (m + k) c = climb h m c \<bind> climb h k"
proof (induction m arbitrary: c)
  case (Suc m)
  then show ?case by (cases "group_above h c") simp_all
qed simp

lemma climbable_le: "climbable h (m + k) i \<Longrightarrow> climbable h m i"
  by (cases "climb h m (Some i)") (auto simp: climbable_def climb_add)

lemma climbable_keeps: "keeps h h' \<Longrightarrow> climbable h k i \<Longrightarrow> climbable h' k i"
  by (auto simp: climbable_def dest: climb_keeps)

lemma plain_keeps: "keeps h h' \<Longrightarrow> plain h i \<Longrightarrow> plain h' i"
  by (simp add: plain_def keepsD)

lemma arrays_grown:
  assumes g: "grown h kids p t key val h'" and a: "arrays_ok h" "\<forall>i < length h. alive h i"
    and p: "p < length h" "t = CONFIG_TYPE_ARRAY \<Longrightarrow> plain h p"
  shows "arrays_ok h'"
  unfolding arrays_ok_def
proof (intro allI impI)
  fix i
  assume i: "i < length h'" "cn_type (node h' i) = Some CONFIG_TYPE_ARRAY"
  have k: "keeps h h'" and len: "length h' = Suc (length h)" using g by (simp_all add: grown_def)
  show "\<exists>q < length h'. cn_parent (node h' i) = Some q \<and> cn_type (node h' q) \<noteq> Some CONFIG_TYPE_ARRAY"
  proof (cases "i = length h")
    case True
    then have "t = CONFIG_TYPE_ARRAY" "cn_parent (node h' i) = Some p" using g i(2) by (simp_all add: grown_def)
    then show ?thesis using plain_keeps [OF k p(2)] p(1) len by (auto simp: plain_def)
  next
    case False
    then have il: "i < length h" using i(1) len by simp
    note ki = keepsD [OF k a(2) [rule_format, OF il]]
    then obtain q where q: "q < length h" "cn_parent (node h i) = Some q" "cn_type (node h q) \<noteq> Some CONFIG_TYPE_ARRAY"
      using a(1) il i(2) by (auto simp: arrays_ok_def)
    then show ?thesis using ki keepsD(2) [OF k a(2) [rule_format, OF q(1)]] len by auto
  qed
qed

text \<open>The invariant of the parser, and what a step may return.\<close>

definition parse_ok :: "cparse \<Rightarrow> bool" where
  "parse_ok s \<longleftrightarrow> (\<exists>kids. tree_ok (cp_store s) kids) \<and> arrays_ok (cp_store s) \<and>
     (\<exists>c. cp_cur s = Some c \<and> plain (cp_store s) c) \<and>
     (\<exists>t. cp_stack_top s = Some t \<and> plain (cp_store s) t \<and> climbable (cp_store s) (nat (cp_top_level s + 1)) t) \<and>
     -1 \<le> cp_top_level s"

definition store_ok :: "cstore \<Rightarrow> bool" where
  "store_ok h \<longleftrightarrow> (\<exists>kids. tree_ok h kids) \<and> arrays_ok h"

definition step_ok :: "(config_error \<times> cstore + cparse) option \<Rightarrow> bool" where
  "step_ok r \<longleftrightarrow> (\<exists>err h. r = Some (Inl (err, h)) \<and> store_ok h) \<or> (\<exists>s. r = Some (Inr s) \<and> parse_ok s)"

lemma step_ok_err [intro]: "store_ok h \<Longrightarrow> step_ok (Some (Inl (err, h)))"
  by (simp add: step_ok_def)

lemma step_ok_go [intro]: "parse_ok s \<Longrightarrow> step_ok (Some (Inr s))"
  by (simp add: step_ok_def)

lemma store_alive: "store_ok h \<Longrightarrow> i < length h \<Longrightarrow> alive h i"
  using tree_okD(2) by (auto simp: store_ok_def)

lemma parse_ok_store: "parse_ok s \<Longrightarrow> store_ok (cp_store s)"
  by (simp add: parse_ok_def store_ok_def)

lemma parse_ok_keeps:
  assumes "parse_ok s" "keeps (cp_store s) h" "store_ok h"
  shows "parse_ok (s\<lparr>cp_store := h\<rparr>)"
  using assms plain_keeps [OF assms(2)] climbable_keeps [OF assms(2)]
  by (auto simp: parse_ok_def store_ok_def)

text \<open>A new node below \<open>p\<close>: there is no memory, or the store grows.\<close>

lemma make_node_result:
  assumes s: "store_ok h" "p < length h" "t = CONFIG_TYPE_ARRAY \<Longrightarrow> plain h p" and e: "\<And>n. ce_buf e n"
  obtains "make_node e t out key (Some p) h = Some (Inl (ENoMem, h))"
  | h' where "make_node e t out key (Some p) h = Some (Inr (Some (length h), h'))" "store_ok h'" "keeps h h'"
      "length h' = Suc (length h)" "cn_type (node h' (length h)) = Some t" "cn_parent (node h' (length h)) = Some p"
proof -
  obtain kids where k: "tree_ok h kids" using s(1) by (auto simp: store_ok_def)
  show thesis
  proof (cases "ce_node e (length h)")
    case False
    then show thesis using make_node_fails that(1) by blast
  next
    case True
    then obtain h' val where h': "make_node e t out key (Some p) h = Some (Inr (Some (length h), h'))"
      "grown h kids p t key val h'"
      using make_node_grown [OF k s(2) True e] by blast
    moreover have "arrays_ok h'" using arrays_grown [OF h'(2) _ _ s(2,3)] s(1) store_alive by (auto simp: store_ok_def)
    ultimately show thesis using that(2) by (auto simp: grown_def store_ok_def)
  qed
qed

text \<open>A child that \<open>find_child\<close> finds.\<close>

lemma find_child_result:
  assumes "store_ok h" "c < length h"
  obtains "find_child h (Some c) key = Some None"
  | j where "find_child h (Some c) key = Some (Some j)" "j < length h" "cn_parent (node h j) = Some c"
proof -
  obtain kids where k: "tree_ok h kids" using assms(1) by (auto simp: store_ok_def)
  have f: "find_child h (Some c) key = Some (find (\<lambda>i. key_of (node h i) = key) (kids c))"
    using find_child_tree [OF k assms(2)] .
  show thesis
  proof (cases "find (\<lambda>i. key_of (node h i) = key) (kids c)")
    case None
    then show thesis using f that(1) by simp
  next
    case (Some j)
    then have "j \<in> set (kids c)" by (metis find_Some_iff nth_mem)
    then show thesis using f Some that(2) tree_okD(5,6) [OF k assms(2)] by simp
  qed
qed

lemma item_below:
  assumes s: "parse_ok s" "keeps (cp_store s) h" "store_ok h" "p < length h" and e: "\<And>n. ce_buf e n"
  shows "step_ok (do { r \<leftarrow> make_node e CONFIG_TYPE_ITEM out key (Some p) h;
    case r of Inl err \<Rightarrow> Some (Inl err) | Inr (_, h) \<Rightarrow> Some (Inr (s\<lparr>cp_store := h\<rparr>)) })"
proof (rule make_node_result [of h p CONFIG_TYPE_ITEM e out key])
  assume "make_node e CONFIG_TYPE_ITEM out key (Some p) h = Some (Inl (ENoMem, h))"
  then show ?thesis using s(3) by auto
next
  fix h'
  assume "make_node e CONFIG_TYPE_ITEM out key (Some p) h = Some (Inr (Some (length h), h'))" "store_ok h'" "keeps h h'"
  then show ?thesis using parse_ok_keeps [OF s(1) keeps_trans [OF s(2)], of h'] by auto
qed (use s e in auto)

lemma parse_item_ok:
  assumes s: "parse_ok s" and e: "\<And>n. ce_buf e n"
  shows "step_ok (parse_item e out s)"
proof -
  let ?h = "cp_store s"
  obtain c where c: "cp_cur s = Some c" "plain ?h c" using s by (auto simp: parse_ok_def)
  have cl: "c < length ?h" using c(2) by (simp add: plain_def aliveD)
  have so: "store_ok ?h" using s by (rule parse_ok_store)
  show ?thesis
  proof (rule find_child_result [OF so cl, of "lo_key out"])
    assume f: "find_child ?h (Some c) (lo_key out) = Some None"
    show ?thesis
    proof (cases "lo_is_array out")
      case False
      then show ?thesis
        using item_below [OF s keeps_refl so cl e] f c(1) by (simp add: parse_item_def)
    next
      case True
      show ?thesis
      proof (rule make_node_result [OF so cl _ e, of CONFIG_TYPE_ARRAY out "lo_key out"])
        assume "make_node e CONFIG_TYPE_ARRAY out (lo_key out) (Some c) ?h = Some (Inl (ENoMem, ?h))"
        then show ?thesis using f c(1) so True by (auto simp: parse_item_def)
      next
        fix h'
        assume "make_node e CONFIG_TYPE_ARRAY out (lo_key out) (Some c) ?h = Some (Inr (Some (length ?h), h'))"
          "store_ok h'" "keeps ?h h'" "length h' = Suc (length ?h)"
        then show ?thesis
          using item_below [OF s _ _ _ e, of h' "length ?h"] f c(1) True by (simp add: parse_item_def)
      qed (use c in auto)
    qed
  next
    fix j
    assume j: "find_child ?h (Some c) (lo_key out) = Some (Some j)" "j < length ?h"
    have "alive ?h j" using so j(2) by (rule store_alive)
    then show ?thesis
      using item_below [OF s keeps_refl so j(2) e] j c(1) so
      by (auto simp: parse_item_def defined_at_def)
  qed
qed

lemma group_below:
  assumes s: "parse_ok s" "keeps (cp_store s) h" "store_ok h" "p < length h" and e: "\<And>n. ce_buf e n"
    and up: "if cn_type (node h p) = Some CONFIG_TYPE_ARRAY
      then \<exists>c. cn_parent (node h p) = Some c \<and> climbable h (nat (lo_level out)) c
      else climbable h (nat (lo_level out)) p"
    and lvl: "0 \<le> lo_level out"
  shows "step_ok (do { r \<leftarrow> make_node e CONFIG_TYPE_GROUP out key (Some p) h;
    case r of Inl err \<Rightarrow> Some (Inl err)
    | Inr (g, h) \<Rightarrow> Some (Inr (s\<lparr>cp_store := h, cp_top_level := lo_level out, cp_stack_top := g, cp_cur := g\<rparr>)) })"
proof (rule make_node_result [of h p CONFIG_TYPE_GROUP e out key])
  assume "make_node e CONFIG_TYPE_GROUP out key (Some p) h = Some (Inl (ENoMem, h))"
  then show ?thesis using s(3) by auto
next
  fix h'
  assume m: "make_node e CONFIG_TYPE_GROUP out key (Some p) h = Some (Inr (Some (length h), h'))" "store_ok h'" "keeps h h'"
    "length h' = Suc (length h)" "cn_type (node h' (length h)) = Some CONFIG_TYPE_GROUP"
    "cn_parent (node h' (length h)) = Some p"
  have p: "alive h p" using s(3,4) by (rule store_alive)
  have n: "alive h' (length h)" using store_alive [OF m(2)] m(4) by simp
  then have g: "group_above h' (Some (length h)) =
      Some (if cn_type (node h p) = Some CONFIG_TYPE_ARRAY then cn_parent (node h p) else Some p)"
    using m(6) keepsD [OF m(3) p] by (simp add: group_above_def)
  have "climbable h' (Suc (nat (lo_level out))) (length h)"
    using up g climbable_keeps [OF m(3)] by (auto simp: climbable_def split: if_splits)
  moreover have "nat (lo_level out + 1) = Suc (nat (lo_level out))" using lvl by simp
  moreover have "plain h' (length h)" using n m(5) by (simp add: plain_def)
  ultimately have "parse_ok (s\<lparr>cp_store := h', cp_top_level := lo_level out,
      cp_stack_top := Some (length h), cp_cur := Some (length h)\<rparr>)"
    using m(2) lvl by (auto simp: parse_ok_def store_ok_def)
  then show ?thesis using m(1) by auto
qed (use s e in auto)

lemma climbable_child:
  assumes "alive h j" "cn_parent (node h j) = Some c" "plain h c" "climbable h k c"
  shows "climbable h k j"
proof (cases k)
  case 0
  then show ?thesis by (simp add: climbable_def)
next
  case (Suc l)
  have "group_above h (Some j) = Some (Some c)" using assms(1-3) by (simp add: group_above_def plain_def)
  moreover have "climbable h l c" using assms(4) climbable_le [of h l 1 c] Suc by simp
  ultimately show ?thesis using Suc by (simp add: climbable_def)
qed

lemma other_group_ok:
  assumes s: "parse_ok s" and e: "\<And>n. ce_buf e n" and lvl: "0 \<le> lo_level out"
    and c: "plain (cp_store s) c" "climbable (cp_store s) (nat (lo_level out)) c"
  shows "step_ok (other_group e out (Some c) s)"
proof -
  let ?h = "cp_store s"
  have so: "store_ok ?h" using s by (rule parse_ok_store)
  have cl: "c < length ?h" using c(1) by (simp add: plain_def aliveD)
  show ?thesis
  proof (rule find_child_result [OF so cl, of "lo_key out"])
    assume f: "find_child ?h (Some c) (lo_key out) = Some None"
    show ?thesis
    proof (cases "lo_is_array out")
      case False
      then show ?thesis
        using group_below [OF s keeps_refl so cl e _ lvl] f c by (simp add: other_group_def plain_def)
    next
      case True
      show ?thesis
      proof (rule make_node_result [OF so cl _ e, of CONFIG_TYPE_ARRAY out "lo_key out"])
        assume "make_node e CONFIG_TYPE_ARRAY out (lo_key out) (Some c) ?h = Some (Inl (ENoMem, ?h))"
        then show ?thesis using f so True by (auto simp: other_group_def)
      next
        fix h'
        assume "make_node e CONFIG_TYPE_ARRAY out (lo_key out) (Some c) ?h = Some (Inr (Some (length ?h), h'))"
          "store_ok h'" "keeps ?h h'" "length h' = Suc (length ?h)"
          "cn_type (node h' (length ?h)) = Some CONFIG_TYPE_ARRAY" "cn_parent (node h' (length ?h)) = Some c"
        then show ?thesis
          using group_below [OF s _ _ _ e _ lvl, of h' "length ?h"] climbable_keeps [of ?h h'] f c True
          by (simp add: other_group_def)
      qed (use c in auto)
    qed
  next
    fix j
    assume j: "find_child ?h (Some c) (lo_key out) = Some (Some j)" "j < length ?h" "cn_parent (node ?h j) = Some c"
    have ja: "alive ?h j" using so j(2) by (rule store_alive)
    show ?thesis
    proof (cases "lo_is_array out")
      case True
      then show ?thesis
        using group_below [OF s keeps_refl so j(2) e _ lvl] climbable_child [OF ja j(3) c] j c
        by (simp add: other_group_def)
    next
      case False
      have "parse_ok (s\<lparr>cp_cur := Some c\<rparr>)" using s c(1) by (auto simp: parse_ok_def)
      then show ?thesis
        using False j ja so by (auto simp: other_group_def defined_at_def)
    qed
  qed
qed

lemma parse_group_ok:
  assumes s: "parse_ok s" and e: "\<And>n. ce_buf e n" and lvl: "0 \<le> lo_level out"
  shows "step_ok (parse_group e out s)"
proof (cases "lo_level out > cp_top_level s + 1")
  case True
  then show ?thesis using parse_ok_store [OF s] by (auto simp: parse_group_def)
next
  case False
  let ?h = "cp_store s" and ?m = "nat (cp_top_level s - lo_level out)"
  have so: "store_ok ?h" using s by (rule parse_ok_store)
  then have a: "arrays_ok ?h" "\<forall>i < length ?h. alive ?h i" using store_alive by (auto simp: store_ok_def)
  obtain t where t: "cp_stack_top s = Some t" "plain ?h t" "climbable ?h (nat (cp_top_level s + 1)) t" "-1 \<le> cp_top_level s"
    using s by (auto simp: parse_ok_def)
  define k where "k = (if lo_level out \<le> cp_top_level s then Suc (nat (lo_level out)) else nat (lo_level out))"
  have "nat (cp_top_level s + 1) = ?m + k" using False lvl t(4) by (auto simp: k_def)
  then obtain j where j: "climb ?h ?m (Some t) = Some (Some j)" "plain ?h j" "climbable ?h k j"
    using climb_plain [OF a t(2), of ?m k] t(3) by auto
  have ja: "alive ?h j" using j(2) by (simp add: plain_def)
  show ?thesis
  proof (cases "lo_level out \<le> cp_top_level s")
    case above: True
    then have min: "min (cp_top_level s) (lo_level out) = lo_level out" by simp
    obtain j' where j': "group_above ?h (Some j) = Some (Some j')" "plain ?h j'" "climbable ?h (nat (lo_level out)) j'"
      using climb_plain [OF a j(2), of 1 "nat (lo_level out)"] j(3) above
      by (auto simp: k_def split: Option.bind_splits)
    have "parse_ok (s\<lparr>cp_cur := Some j\<rparr>)" using s j(2) by (auto simp: parse_ok_def)
    then show ?thesis
      using other_group_ok [OF s e lvl j'(2,3)] j(1) j'(1) t(1) False ja min
      by (auto simp: parse_group_def Let_def)
  next
    case new: False
    then have "min (cp_top_level s) (lo_level out) \<noteq> lo_level out" by simp
    then show ?thesis
      using other_group_ok [OF s e lvl j(2)] j(1,3) t(1) False new
      by (simp add: parse_group_def Let_def k_def)
  qed
qed

lemma parse_token_ok:
  assumes "parse_ok s" "\<And>n. ce_buf e n" "token_ok r out" "r \<noteq> -1" "r \<noteq> 0"
  shows "step_ok (parse_token e out s)"
  using assms parse_item_ok [of s e out] parse_group_ok [of s e out]
  by (cases "lo_type out") (auto simp: parse_token_def token_ok_def)

lemma parse_loop_ok:
  "(\<And>n. ce_buf e n) \<Longrightarrow> lexer_ok l out \<Longrightarrow> parse_ok s \<Longrightarrow> step_ok (parse_loop e l out s)"
proof (induction e l out s rule: parse_loop.induct)
  case (1 e l out s)
  obtain r l' out' where y: "lexer_next l out = Some (r, l', out')" "lexer_ok l' out'" "token_ok r out'"
    using yylex_ok [OF "1.prems"(2)] by (auto simp: lexer_next_def)
  consider "r = 0" | "r = -1" | "r \<noteq> 0" "r \<noteq> -1" by blast
  then show ?case
  proof cases
    case 1
    then show ?thesis using y(1) "1.prems" by (subst parse_loop.simps) auto
  next
    case 2
    then show ?thesis using y(1) "1.prems" parse_ok_store by (subst parse_loop.simps) auto
  next
    case 3
    have "step_ok (parse_token e out' s)" using "1.prems" y(3) 3 by (intro parse_token_ok) auto
    then consider err h where "parse_token e out' s = Some (Inl (err, h))" "store_ok h"
      | s' where "parse_token e out' s = Some (Inr s')" "parse_ok s'"
      by (auto simp: step_ok_def)
    then show ?thesis
    proof cases
      case 1
      then show ?thesis using y(1) "1.prems" 3 by (subst parse_loop.simps) auto
    next
      case (2 s')
      then have "step_ok (parse_loop e l' out' s')" using "1.prems" y 3 by (intro "1.IH") auto
      then show ?thesis using 2 y(1) "1.prems" 3 by (subst parse_loop.simps) simp
    qed
  qed
qed

lemma root_store:
  "tree_ok [Some (cnode_zero\<lparr>cn_type := Some CONFIG_TYPE_GROUP\<rparr>)] (\<lambda>_. [])" (is "tree_ok ?h _")
  "arrays_ok [Some (cnode_zero\<lparr>cn_type := Some CONFIG_TYPE_GROUP\<rparr>)]"
  by (simp_all add: tree_ok_def alive_def family_def node_def cnode_zero_def first_of_def last_of_def arrays_ok_def)

definition parse_start :: cparse where
  "parse_start = \<lparr>cp_store = [Some (cnode_zero\<lparr>cn_type := Some CONFIG_TYPE_GROUP\<rparr>)], cp_cur = Some 0,
     cp_stack_top = Some 0, cp_top_level = -1\<rparr>"

lemma parse_start_ok: "parse_ok parse_start"
  using root_store by (auto simp: parse_ok_def parse_start_def plain_def alive_def node_def climbable_def)

lemma config_parse_file_eq:
  assumes "ce_node e 0"
  shows "config_parse_file e True out0 (Some cs) =
    (case parse_loop e (lexer_init\<lparr>lx_in := cs\<rparr>) out0 parse_start of
       None \<Rightarrow> None
     | Some (Inr s) \<Rightarrow> Some (Inr (0, cp_store s))
     | Some (Inl (err, h)) \<Rightarrow> do { h \<leftarrow> config_node_destroy h (Some 0); Some (Inl (err, h)) })"
  using assms
  by (auto simp: config_parse_file_def new_config_node_def lexer_setfile_def cn_upd_def cn_get_def parse_start_def
      Let_def split: option.split sum.split)

text \<open>What a call returns: an error, with every node freed, or the root of a tree that can be freed.\<close>

definition parsed_ok :: "(config_error \<times> cstore + nat \<times> cstore) \<Rightarrow> bool" where
  "parsed_ok r \<longleftrightarrow> (case r of
       Inl (err, h) \<Rightarrow> \<forall>i. \<not> alive h i
     | Inr (rt, h) \<Rightarrow> rt = 0 \<and> (\<exists>kids. tree_ok h kids) \<and>
         (\<exists>h'. config_node_destroy h (Some rt) = Some h' \<and> (\<forall>i. \<not> alive h' i)))"

lemma store_destroyed:
  "store_ok h \<Longrightarrow> \<exists>h'. config_node_destroy h (Some 0) = Some h' \<and> (\<forall>i. \<not> alive h' i)"
  using tree_destroyed unfolding store_ok_def by blast

section \<open>Files of lines\<close>

text \<open>The lexer in front of \<open>cs\<close>, possibly before the line end of the line it has read.\<close>

definition at_line :: "lexer \<Rightarrow> string \<Rightarrow> bool" where
  "at_line l cs \<longleftrightarrow> \<not> lx_is_array l \<and> 0 \<le> lx_group_indent l \<and>
     (lx_state l = INITIAL \<and> lx_in l = cs \<or> lx_state l = COMMENT \<and> lx_in l = NL # cs)"

definition item_token :: "lexer_output \<Rightarrow> string \<times> string \<Rightarrow> bool" where
  "item_token out kv \<longleftrightarrow> lo_type out = TOKEN_TYPE_ITEM \<and> \<not> lo_is_array out \<and> lo_key out = fst kv \<and> lo_value out = Some (snd kv)"

lemma at_line_next:
  assumes l: "at_line l (conf_line kv @ t)" and kv: "is_key (fst kv)" "is_value (snd kv)"
  shows "\<exists>l' out'. lexer_next l out = Some (2, l', out') \<and> at_line l' t \<and> item_token out' kv"
proof -
  define l0 where "l0 = (if lx_state l = INITIAL then l
    else l\<lparr>lx_state := INITIAL, lx_lineno := lx_lineno l + 1, lx_in := conf_line kv @ t\<rparr>)"
  have "yylex l out = yylex l0 out"
    using l yylex_line_end [of l "conf_line kv @ t" out] by (auto simp: l0_def at_line_def)
  moreover have "lx_state l0 = INITIAL" "\<not> lx_is_array l0" "lx_in l0 = conf_line (fst kv, snd kv) @ t" "0 \<le> lx_group_indent l0"
    using l by (auto simp: l0_def at_line_def)
  ultimately show ?thesis
    using yylex_line [of l0 "fst kv" "snd kv" t out] kv
    by (auto simp: lexer_next_def at_line_def item_token_def)
qed

lemma at_line_end:
  assumes "at_line l []"
  shows "\<exists>l'. lexer_next l out = Some (0, l', out)"
proof (cases "lx_state l = INITIAL")
  case True
  then show ?thesis using assms by (subst lexer_next_def, subst yylex.simps) (auto simp: at_line_def)
next
  case False
  let ?l = "l\<lparr>lx_state := INITIAL, lx_lineno := lx_lineno l + 1, lx_in := []\<rparr>"
  have "yylex l out = yylex ?l out" using assms False by (intro yylex_line_end) (auto simp: at_line_def)
  moreover have "yylex ?l out = Some (0, ?l, out)" by (subst yylex.simps) simp
  ultimately show ?thesis by (auto simp: lexer_next_def)
qed

lemma at_line_ok: "at_line l cs \<Longrightarrow> lexer_ok l out"
  by (auto simp: at_line_def lexer_ok_def)

text \<open>A root with an item for every pair, in this order.\<close>

definition flat :: "cstore \<Rightarrow> (string \<times> string) list \<Rightarrow> bool" where
  "flat h kvs \<longleftrightarrow> (\<exists>kids. tree_ok h kids \<and> kids 0 = [1..<Suc (length kvs)]) \<and> length h = Suc (length kvs) \<and>
     (\<forall>i < length kvs. cn_key (node h (Suc i)) = Some (fst (kvs ! i)) \<and> cn_value (node h (Suc i)) = Some (snd (kvs ! i)))"

lemma flat_item:
  assumes f: "flat (cp_store s) kvs" "cp_cur s = Some 0" and o: "item_token out kv" "fst kv \<notin> fst ` set kvs"
    and e: "\<And>n. ce_node e n" "\<And>n. ce_buf e n"
  shows "\<exists>h. parse_token e out s = Some (Inr (s\<lparr>cp_store := h\<rparr>)) \<and> flat h (kvs @ [kv])"
proof -
  let ?h = "cp_store s"
  obtain kids where k: "tree_ok ?h kids" "kids 0 = [1..<Suc (length kvs)]" using f(1) by (auto simp: flat_def)
  have len: "length ?h = Suc (length kvs)" using f(1) by (simp add: flat_def)
  have nodes: "cn_key (node ?h (Suc i)) = Some (fst (kvs ! i))" "cn_value (node ?h (Suc i)) = Some (snd (kvs ! i))"
    if "i < length kvs" for i using f(1) that by (simp_all add: flat_def)
  have "key_of (node ?h i) \<noteq> lo_key out" if i: "i \<in> set (kids 0)" for i
  proof -
    have "1 \<le> i \<and> i < Suc (length kvs)" using i unfolding k(2) set_upt by simp
    then obtain j where j: "i = Suc j" "j < length kvs" by (cases i) auto
    have "fst (kvs ! j) \<noteq> fst kv" using o(2) nth_mem [OF j(2)] by (metis imageI)
    then show ?thesis using nodes(1) [OF j(2)] j(1) o(1) by (simp add: key_of_def item_token_def)
  qed
  then have "find (\<lambda>i. key_of (node ?h i) = lo_key out) (kids 0) = None" by (auto simp: find_None_iff)
  then have fc: "find_child ?h (Some 0) (lo_key out) = Some None"
    using find_child_tree [OF k(1), of 0 "lo_key out"] len by simp
  obtain h where h: "make_node e CONFIG_TYPE_ITEM out (fst kv) (Some 0) ?h = Some (Inr (Some (length ?h), h))"
    "grown ?h kids 0 CONFIG_TYPE_ITEM (fst kv) (Some (snd kv)) h"
    using make_node_grown [OF k(1) _ e, of 0 CONFIG_TYPE_ITEM out "fst kv"] len o(1) by (auto simp: item_token_def)
  have "parse_token e out s = Some (Inr (s\<lparr>cp_store := h\<rparr>))"
    using o(1) fc h(1) f(2) by (simp add: parse_token_def parse_item_def item_token_def)
  moreover have "flat h (kvs @ [kv])"
  proof -
    have kp: "keeps ?h h" using h(2) by (simp add: grown_def)
    have "cn_key (node h (Suc i)) = Some (fst ((kvs @ [kv]) ! i)) \<and> cn_value (node h (Suc i)) = Some (snd ((kvs @ [kv]) ! i))"
      if i: "i < length (kvs @ [kv])" for i
    proof (cases "i = length kvs")
      case True
      then show ?thesis using h(2) len by (simp add: grown_def)
    next
      case False
      then have il: "i < length kvs" using i by simp
      then have "alive ?h (Suc i)" using tree_okD(2) [OF k(1)] len by simp
      then show ?thesis using keepsD(4,5) [OF kp] nodes [OF il] il by (simp add: nth_append)
    qed
    moreover have "tree_ok h (kids(0 := kids 0 @ [length ?h], length ?h := []))" "length h = Suc (length ?h)"
      using h(2) by (simp_all add: grown_def)
    moreover have "(kids(0 := kids 0 @ [length ?h], length ?h := [])) 0 = [1..<Suc (length (kvs @ [kv]))]"
      using k(2) len by simp
    ultimately show ?thesis using len unfolding flat_def by auto
  qed
  ultimately show ?thesis by blast
qed

lemma parse_flat:
  assumes e: "\<And>n. ce_node e n" "\<And>n. ce_buf e n"
  shows "at_line l (concat (map conf_line kvs')) \<Longrightarrow> flat (cp_store s) kvs \<Longrightarrow> cp_cur s = Some 0 \<Longrightarrow>
    distinct (map fst (kvs @ kvs')) \<Longrightarrow> \<forall>kv \<in> set kvs'. is_key (fst kv) \<and> is_value (snd kv) \<Longrightarrow>
    \<exists>s'. parse_loop e l out s = Some (Inr s') \<and> flat (cp_store s') (kvs @ kvs')"
proof (induction kvs' arbitrary: l out s kvs)
  case Nil
  then obtain l' where "lexer_next l out = Some (0, l', out)" using at_line_end by auto
  then show ?case using Nil at_line_ok by (subst parse_loop.simps) auto
next
  case (Cons kv kvs')
  obtain l' out' where l': "lexer_next l out = Some (2, l', out')" "at_line l' (concat (map conf_line kvs'))" "item_token out' kv"
    using at_line_next [of l kv "concat (map conf_line kvs')" out] Cons.prems by auto
  obtain h where h: "parse_token e out' s = Some (Inr (s\<lparr>cp_store := h\<rparr>))" "flat h (kvs @ [kv])"
    using flat_item [OF Cons.prems(2,3) l'(3) _ e] Cons.prems(4) by auto
  have "\<exists>s'. parse_loop e l' out' (s\<lparr>cp_store := h\<rparr>) = Some (Inr s') \<and> flat (cp_store s') ((kvs @ [kv]) @ kvs')"
    using Cons.prems h(2) l'(2) by (intro Cons.IH) auto
  then show ?case
    using l'(1) h(1) at_line_ok [OF Cons.prems(1)] by (subst parse_loop.simps) simp
qed

lemma flat_start: "flat (cp_store parse_start) []"
  using root_store(1) by (auto simp: flat_def parse_start_def intro!: exI [of _ "\<lambda>_. []"])

lemma config_parse_lines:
  assumes e: "\<And>n. ce_node e n" "\<And>n. ce_buf e n"
    and kvs: "distinct (map fst kvs)" "\<forall>kv \<in> set kvs. is_key (fst kv) \<and> is_value (snd kv)"
  shows "\<exists>h. config_parse_file e True out0 (Some (concat (map conf_line kvs))) = Some (Inr (0, h)) \<and> flat h kvs"
proof -
  have "at_line (lexer_init\<lparr>lx_in := concat (map conf_line kvs)\<rparr>) (concat (map conf_line kvs))"
    by (simp add: at_line_def lexer_init_def)
  then have "\<exists>s'. parse_loop e (lexer_init\<lparr>lx_in := concat (map conf_line kvs)\<rparr>) out0 parse_start = Some (Inr s') \<and>
      flat (cp_store s') ([] @ kvs)"
    using flat_start kvs by (intro parse_flat e) (auto simp: parse_start_def)
  then show ?thesis using config_parse_file_eq [of e out0 "concat (map conf_line kvs)"] e(1) by auto
qed

section \<open>Properties\<close>


definition demo_cenv :: cenv where
  "demo_cenv = \<lparr>ce_node = (\<lambda>_. True), ce_buf = (\<lambda>_. True)\<rparr>"

definition demo_out :: lexer_output where
  "demo_out = \<lparr>lo_type = TOKEN_TYPE_GROUP, lo_is_array = False, lo_level = 0, lo_key = [], lo_value = None, lo_lineno = 0\<rparr>"



definition two_groups :: cparse where
  "two_groups =
     (let r = cnode_zero\<lparr>cn_type := Some CONFIG_TYPE_GROUP, cn_first_child := Some 1, cn_last_child := Some 2, cn_length := 2\<rparr>;
          a = cnode_zero\<lparr>cn_type := Some CONFIG_TYPE_GROUP, cn_parent := Some 0, cn_next_sibling := Some 2, cn_key := Some ''a''\<rparr>;
          b = cnode_zero\<lparr>cn_type := Some CONFIG_TYPE_GROUP, cn_parent := Some 0, cn_prev_sibling := Some 1, cn_key := Some ''b''\<rparr>
      in \<lparr>cp_store = [Some r, Some a, Some b], cp_cur = Some 2, cp_stack_top = Some 2, cp_top_level = 0\<rparr>)"


end
