(* ===== verification/Config_File.thy ===== *)
theory Config_File
  imports Config_Tree
begin

text \<open>
  The configuration files of the framework, \<^verbatim>\<open>src/src/util/config_file.cpp\<close>. A table of commands
  says for every key which handler stores its arguments, and at which offset of the structure \<open>conf\<close>
  points to. The structure is its bytes; a pointer in it is the number, counted from 1, of one of the
  strings that were duplicated for it, 0 is the null pointer. A handler is a function
  pointer in the table, here a constructor that \<open>run_handler\<close> interprets.
\<close>

section \<open>Commands\<close>

(* src/src/util/config_file.h:6-9, CONFIG_OK *)
datatype conf_status = CONFIG_OK | CONFIG_ERROR

datatype handler_fn = conf_set_flag | conf_set_usec | conf_set_str | conf_set_num | conf_set_mem

(* src/src/util/config_file.h:13-17, command_t *)
record command =
  cmd_name :: string
  cmd_handler :: handler_fn
  cmd_offset :: nat

record cmem =
  cm_bytes :: string
  cm_strs :: "string list"

text \<open>The table ends at the first entry with an empty name.\<close>

(* src/src/util/config_file.cpp:17-27, find_command *)
fun find_command :: "command list \<Rightarrow> string \<Rightarrow> command option option" where
  "find_command [] name = None"
| "find_command (c # cs) name =
     (if cmd_name c = [] then Some None
      else if strcaseeq name (cmd_name c) then Some (Some c)
      else find_command cs name)"

text \<open>
  \<open>argv\<close> is the vector of \<open>sdssplitargs\<close>, or \<open>None\<close> for the null pointer; \<open>arg0\<close> is the C string at \<open>argv[0]\<close>.
\<close>

definition arg0 :: "sds list option \<Rightarrow> string option" where
  "arg0 argv = (case argv of Some (s # _) \<Rightarrow> Some (cstr (sds_val s)) | _ \<Rightarrow> None)"

definition put :: "cmem \<Rightarrow> nat \<Rightarrow> string \<Rightarrow> (conf_status \<times> cmem) option" where
  "put m off bs = do { b \<leftarrow> store_at (cm_bytes m) off bs; Some (CONFIG_OK, m\<lparr>cm_bytes := b\<rparr>) }"

(* src/src/util/config_file.cpp:81-99, conf_set_flag_slot *)
definition conf_set_flag_slot :: "int \<Rightarrow> sds list option \<Rightarrow> command \<Rightarrow> cmem \<Rightarrow> (conf_status \<times> cmem) option" where
  "conf_set_flag_slot argc argv cmd m =
     (if argc < 1 then Some (CONFIG_ERROR, m)
      else do {
        s \<leftarrow> arg0 argv;
        if strcaseeq s ''yes'' then put m (cmd_offset cmd) (le_bytes 1 1)
        else if strcaseeq s ''no'' then put m (cmd_offset cmd) (le_bytes 1 0)
        else Some (CONFIG_ERROR, m) })"

(* src/src/util/config_file.cpp:101-111, conf_set_usec_slot *)
definition conf_set_usec_slot :: "int \<Rightarrow> sds list option \<Rightarrow> command \<Rightarrow> cmem \<Rightarrow> (conf_status \<times> cmem) option" where
  "conf_set_usec_slot argc argv cmd m =
     (if argc < 1 then Some (CONFIG_ERROR, m)
      else do { s \<leftarrow> arg0 argv; put m (cmd_offset cmd) (le_bytes 8 (nat (u64 (fst (timetoll s))))) })"

text \<open>\<open>zstrdup\<close> ends the process when there is no memory.\<close>

(* src/src/util/config_file.cpp:113-123, conf_set_str_slot *)
definition conf_set_str_slot :: "allocator \<Rightarrow> int \<Rightarrow> sds list option \<Rightarrow> command \<Rightarrow> cmem \<Rightarrow> (conf_status \<times> cmem) option" where
  "conf_set_str_slot a argc argv cmd m =
     (if argc < 1 then Some (CONFIG_ERROR, m)
      else do {
        s \<leftarrow> arg0 argv;
        if \<not> hs_ok a (length s + 1) then None
        else put (m\<lparr>cm_strs := cm_strs m @ [s]\<rparr>) (cmd_offset cmd) (le_bytes 8 (length (cm_strs m) + 1)) })"

(* src/src/util/config_file.cpp:125-135, conf_set_num_slot *)
definition conf_set_num_slot :: "int \<Rightarrow> sds list option \<Rightarrow> command \<Rightarrow> cmem \<Rightarrow> (conf_status \<times> cmem) option" where
  "conf_set_num_slot argc argv cmd m =
     (if argc < 1 then Some (CONFIG_ERROR, m)
      else do { s \<leftarrow> arg0 argv; put m (cmd_offset cmd) (le_bytes 4 (nat (u32 (c_atoi s)))) })"

(* src/src/util/config_file.cpp:137-147, conf_set_mem_slot *)
definition conf_set_mem_slot :: "int \<Rightarrow> sds list option \<Rightarrow> command \<Rightarrow> cmem \<Rightarrow> (conf_status \<times> cmem) option" where
  "conf_set_mem_slot argc argv cmd m =
     (if argc < 1 then Some (CONFIG_ERROR, m)
      else do { s \<leftarrow> arg0 argv; put m (cmd_offset cmd) (le_bytes 8 (nat (u64 (fst (memtoll s))))) })"

fun run_handler :: "allocator \<Rightarrow> int \<Rightarrow> sds list option \<Rightarrow> command \<Rightarrow> cmem \<Rightarrow> (conf_status \<times> cmem) option" where
  "run_handler a argc argv cmd m =
     (case cmd_handler cmd of
        conf_set_flag \<Rightarrow> conf_set_flag_slot argc argv cmd m
      | conf_set_usec \<Rightarrow> conf_set_usec_slot argc argv cmd m
      | conf_set_str \<Rightarrow> conf_set_str_slot a argc argv cmd m
      | conf_set_num \<Rightarrow> conf_set_num_slot argc argv cmd m
      | conf_set_mem \<Rightarrow> conf_set_mem_slot argc argv cmd m)"

section \<open>Reading a file\<close>

text \<open>
  \<open>while (argc--) sdsfree(argv[argc])\<close>: with \<open>argc = -1\<close>, which \<open>sdssplitargs\<close> leaves behind when quotes
  are not balanced, the loop reads in front of the vector, which is the null pointer then.
\<close>

(* src/src/util/config_file.cpp:47-48, parse_conf *)
definition free_args :: "int \<Rightarrow> sds list option \<Rightarrow> unit option" where
  "free_args argc argv =
     (if argc = 0 then Some ()
      else case argv of
        Some v \<Rightarrow> if 0 \<le> argc \<and> argc \<le> int (length v) then Some () else None
      | None \<Rightarrow> None)"

(* src/src/util/config_file.cpp:37-50, parse_conf *)
definition conf_item :: "allocator \<Rightarrow> command list \<Rightarrow> string \<Rightarrow> string \<Rightarrow> cmem \<Rightarrow> (conf_status \<times> cmem) option" where
  "conf_item a tbl name args m = do {
     (argv, argc) \<leftarrow> sdssplitargs a args;
     cmd \<leftarrow> find_command tbl (cstr name);
     (st, m) \<leftarrow> (case cmd of Some c \<Rightarrow> run_handler a argc argv c m | None \<Rightarrow> Some (CONFIG_OK, m));
     if st \<noteq> CONFIG_OK then Some (CONFIG_ERROR, m)
     else do { free_args argc argv; Some (CONFIG_OK, m) } }"

(* src/src/util/config_file.cpp:29-51, parse_conf *)
definition parse_conf :: "allocator \<Rightarrow> command list \<Rightarrow> cstore \<Rightarrow> nat option \<Rightarrow> cmem \<Rightarrow> (conf_status \<times> cmem) option" where
  "parse_conf a tbl h nd m = do {
     cmd_name \<leftarrow> config_node_key h nd;
     cmd_args \<leftarrow> config_node_value h nd;
     case (cmd_name, cmd_args) of
       (Some name, Some args) \<Rightarrow> conf_item a tbl name args m
     | _ \<Rightarrow> Some (CONFIG_ERROR, m) }"

(* src/src/util/config_file.cpp:72-76, load_conf_file *)
partial_function (option) conf_loop :: "allocator \<Rightarrow> command list \<Rightarrow> cstore \<Rightarrow> nat option \<Rightarrow> cmem \<Rightarrow> (conf_status \<times> cmem) option" where
  "conf_loop a tbl h nd m = do {
     nd \<leftarrow> config_next h nd;
     if nd = None then Some (CONFIG_OK, m)
     else do {
       (st, m) \<leftarrow> parse_conf a tbl h nd m;
       if st \<noteq> CONFIG_OK then Some (CONFIG_ERROR, m) else conf_loop a tbl h nd m } }"

text \<open>\<open>content\<close> is the content of the file, if it can be opened.\<close>

(* src/src/util/config_file.cpp:53-79, load_conf_file *)
definition load_conf_file :: "allocator \<Rightarrow> cenv \<Rightarrow> bool \<Rightarrow> lexer_output \<Rightarrow> string option \<Rightarrow> command list \<Rightarrow> cmem \<Rightarrow>
    (conf_status \<times> cmem) option" where
  "load_conf_file a e lxok out0 content tbl m = do {
     (ret, c) \<leftarrow> config_read_file e lxok out0 content config_init;
     if ret \<noteq> 0 then Some (CONFIG_ERROR, m)
     else if config_root c = None then Some (CONFIG_ERROR, m)
     else do {
       nd \<leftarrow> config_node_first_child (cf_store c) (config_root c);
       if nd = None then Some (CONFIG_ERROR, m)
       else do {
         (st, m) \<leftarrow> parse_conf a tbl (cf_store c) nd m;
         if st \<noteq> CONFIG_OK then Some (CONFIG_ERROR, m)
         else do {
           (st, m) \<leftarrow> conf_loop a tbl (cf_store c) nd m;
           if st \<noteq> CONFIG_OK then Some (CONFIG_ERROR, m)
           else do { config_destroy c; Some (CONFIG_OK, m) } } } } }"

section \<open>A file of lines\<close>

text \<open>The lines one after the other, up to the first that is refused.\<close>

fun run_items :: "allocator \<Rightarrow> command list \<Rightarrow> (string \<times> string) list \<Rightarrow> cmem \<Rightarrow> (conf_status \<times> cmem) option" where
  "run_items a tbl [] m = Some (CONFIG_OK, m)"
| "run_items a tbl (kv # kvs) m = do {
     (st, m) \<leftarrow> conf_item a tbl (fst kv) (snd kv) m;
     if st \<noteq> CONFIG_OK then Some (CONFIG_ERROR, m) else run_items a tbl kvs m }"

lemma flat_conf:
  assumes "flat h kvs" "i < length kvs"
  shows "parse_conf a tbl h (Some (Suc i)) m = conf_item a tbl (fst (kvs ! i)) (snd (kvs ! i)) m"
    "config_next h (Some (Suc i)) = Some (if Suc i < length kvs then Some (Suc (Suc i)) else None)"
proof -
  obtain kids where k: "tree_ok h kids" "kids 0 = [1..<Suc (length kvs)]" "length h = Suc (length kvs)"
    using assms(1) by (auto simp: flat_def)
  have al: "alive h (Suc i)" using tree_okD(2) [OF k(1)] k(3) assms(2) by simp
  then show "parse_conf a tbl h (Some (Suc i)) m = conf_item a tbl (fst (kvs ! i)) (snd (kvs ! i)) m"
    using assms by (simp add: parse_conf_def config_node_key_def config_node_value_def flat_def)
  have c: "sib_chain h [1..<Suc (length kvs)]" using tree_okD(3) [OF k(1), of 0] k(2,3) by (simp add: family_def)
  have "cn_next_sibling (node h (Suc i)) = (if Suc i < length kvs then Some (Suc (Suc i)) else None)"
  proof (cases "Suc i < length kvs")
    case True
    then show ?thesis using sib_chain_next [OF c, of i] by (simp del: upt_Suc)
  next
    case False
    then have "Suc i = length kvs" using assms(2) by simp
    moreover from this have "[1..<Suc (length kvs)] \<noteq> []" by simp
    ultimately show ?thesis using sib_chain_last [OF c] by (simp add: last_upt del: upt_Suc)
  qed
  then show "config_next h (Some (Suc i)) = Some (if Suc i < length kvs then Some (Suc (Suc i)) else None)"
    using al by (simp add: config_next_def)
qed

lemma conf_loop_lines:
  assumes f: "flat h kvs"
  shows "i < length kvs \<Longrightarrow> conf_loop a tbl h (Some (Suc i)) m = run_items a tbl (drop (Suc i) kvs) m"
proof (induction "length kvs - i" arbitrary: i m)
  case 0
  then show ?case by simp
next
  case (Suc n)
  show ?case
  proof (cases "Suc i < length kvs")
    case False
    then show ?thesis using flat_conf(2) [OF f Suc.prems] by (subst conf_loop.simps) simp
  next
    case True
    have "run_items a tbl (drop (Suc i) kvs) m = do {
       (st, m) \<leftarrow> conf_item a tbl (fst (kvs ! Suc i)) (snd (kvs ! Suc i)) m;
       if st \<noteq> CONFIG_OK then Some (CONFIG_ERROR, m) else run_items a tbl (drop (Suc (Suc i)) kvs) m }"
      using Cons_nth_drop_Suc [OF True] by (metis run_items.simps(2))
    moreover have "conf_loop a tbl h (Some (Suc (Suc i))) m = run_items a tbl (drop (Suc (Suc i)) kvs) m" for m
      using Suc True by (intro Suc.hyps) auto
    ultimately show ?thesis
      using flat_conf(1) [OF f True, of a tbl m] flat_conf(2) [OF f Suc.prems] True
      by (subst conf_loop.simps) (auto split: Option.bind_splits)
  qed
qed

lemma load_lines:
  assumes e: "\<And>n. ce_node e n" "\<And>n. ce_buf e n" and ne: "kvs \<noteq> []"
    and kvs: "distinct (map fst kvs)" "\<forall>kv \<in> set kvs. is_key (fst kv) \<and> is_value (snd kv)"
  shows "load_conf_file a e True out0 (Some (concat (map conf_line kvs))) tbl m = run_items a tbl kvs m"
proof -
  obtain h where h: "config_parse_file e True out0 (Some (concat (map conf_line kvs))) = Some (Inr (0, h))" "flat h kvs"
    using config_parse_lines [OF e kvs] by blast
  then obtain kids where k: "tree_ok h kids" "kids 0 = [1..<Suc (length kvs)]" "length h = Suc (length kvs)"
    by (auto simp: flat_def)
  define c where "c = config_init\<lparr>cf_root := Some 0, cf_store := h\<rparr>"
  have r: "config_read_file e True out0 (Some (concat (map conf_line kvs))) config_init = Some (0, c)"
    using h(1) by (simp add: config_read_file_def config_init_def c_def)
  have c1: "cf_store c = h" "config_root c = Some 0" by (simp_all add: c_def config_root_def)
  have "alive h 0" "cn_first_child (node h 0) = Some 1"
    using tree_okD(2,3) [OF k(1), of 0] k(2,3) ne by (simp_all add: family_def first_of_def del: upt_Suc)
  then have f: "config_node_first_child h (Some 0) = Some (Some 1)" by (simp add: config_node_first_child_def)
  have d: "\<exists>h'. config_destroy c = Some h'"
    using tree_destroyed [OF k(1)] by (auto simp: config_destroy_def c_def)
  obtain kv kvs' where kv: "kvs = kv # kvs'" using ne by (cases kvs) auto
  have "parse_conf a tbl h (Some 1) m = conf_item a tbl (fst kv) (snd kv) m"
    using flat_conf(1) [OF h(2), of 0 a tbl m] kv by simp
  moreover have "conf_loop a tbl h (Some 1) m' = run_items a tbl kvs' m'" for m'
    using conf_loop_lines [OF h(2), of 0 a tbl m'] kv by simp
  moreover have "do { (st, m) \<leftarrow> run_items a tbl xs m'; if st \<noteq> CONFIG_OK then Some (CONFIG_ERROR, m)
      else do { config_destroy c; Some (CONFIG_OK, m) } } = run_items a tbl xs m'" for xs m'
    using d by (induction xs arbitrary: m') (auto split: Option.bind_splits)
  ultimately show ?thesis
    using r c1 f kv by (simp add: load_conf_file_def cong: if_cong)
qed

section \<open>Words as arguments\<close>

definition is_word :: "string \<Rightarrow> bool" where
  "is_word w \<longleftrightarrow> w \<noteq> [] \<and> list_all (\<lambda>c. \<not> c_isspace c \<and> c \<notin> {NUL, DQUOTE, SQUOTE, CHR ''#''}) w"

lemma blanks: "c_isspace (CHR '' '')" "c_isspace (CHR 0x0A)" "c_isspace (CHR 0x0D)" "c_isspace (CHR 0x09)"
  by (simp_all add: c_isspace_def)

lemma word_value:
  assumes "is_word w"
  shows "is_value w"
proof -
  have w: "w \<noteq> []" "\<forall>c \<in> set w. \<not> c_isspace c \<and> c \<notin> {NUL, DQUOTE, SQUOTE, CHR ''#''}"
    using assms by (simp_all add: is_word_def list_all_iff)
  then have "\<not> c_isspace (hd w)" "hd w \<noteq> DQUOTE" "CHR ''#'' \<notin> set w" "NL \<notin> set w"
    using blanks(2) hd_in_set by blast+
  moreover from this have "hd w \<noteq> CHR '' ''" "hd w \<noteq> TAB" using blanks by metis+
  ultimately show ?thesis using w(1) by (simp add: is_value_def)
qed

lemma get_token_word:
  assumes "mem_ok a"
  shows "sds_ok cur \<Longrightarrow> length (sds_val cur) + length w \<le> sds_limit \<Longrightarrow>
    list_all (\<lambda>c. \<not> c_isspace c \<and> c \<notin> {NUL, DQUOTE, SQUOTE, CHR ''#''}) w \<Longrightarrow>
    \<exists>cur'. get_token a Plain cur w = Some (Some (cur', [])) \<and> sds_ok cur' \<and> sds_val cur' = sds_val cur @ w"
proof (induction w arbitrary: cur)
  case Nil
  then show ?case by (subst get_token.simps) (simp add: token_step.simps ch_def adv_def)
next
  case (Cons c w)
  obtain c1 where c1: "sds_append a cur [c] = Some (Some c1)" "sds_ok c1" "sds_val c1 = sds_val cur @ [c]"
    using sds_append_ok [OF assms Cons.prems(1), of "[c]"] Cons.prems(2) by auto
  have c: "\<not> c_isspace c" "c \<notin> {NUL, DQUOTE, SQUOTE, CHR ''#''}" using Cons.prems(3) by simp_all
  have "c \<noteq> x" if "c_isspace x" for x using c(1) that by blast
  then have "c \<notin> {CHR '' '', CHR 0x0A, CHR 0x0D, CHR 0x09, NUL, DQUOTE, SQUOTE}"
    using c(2) blanks by simp
  then have "token_step Plain (c # w) = TokGo Plain [c] w" by (simp add: token_step.simps ch_def adv_def)
  moreover have "\<exists>cur'. get_token a Plain c1 w = Some (Some (cur', [])) \<and> sds_ok cur' \<and> sds_val cur' = sds_val c1 @ w"
    using c1 Cons.prems by (intro Cons.IH) auto
  ultimately show ?case using c1 by (subst get_token.simps) auto
qed

lemma word_no_NUL: "is_word w \<Longrightarrow> cstr w = w"
  by (rule cstr_no_nul) (auto simp: is_word_def list_all_iff)

lemma sdssplitargs_word:
  assumes "mem_ok a" "is_word w" "length w \<le> sds_limit"
  shows "\<exists>s. sdssplitargs a w = Some (Some [s], 1) \<and> arg0 (Some [s]) = Some w"
proof -
  have ws: "list_all (\<lambda>c. \<not> c_isspace c \<and> c \<notin> {NUL, DQUOTE, SQUOTE, CHR ''#''}) w" using assms(2) by (simp add: is_word_def)
  obtain c cs where w: "w = c # cs" "\<not> c_isspace c" "c \<noteq> NUL" using assms(2) by (cases w) (auto simp: is_word_def)
  obtain e where e: "sdsempty a = Some (Some e)" "sds_ok e" "sds_val e = []" using sdsempty_ok [OF assms(1)] by blast
  obtain s where s: "get_token a Plain e w = Some (Some (s, []))" "sds_ok s" "sds_val s = w"
    using get_token_word [OF assms(1) e(2) _ ws] e(3) assms(3) by auto
  have skip: "dropWhile (\<lambda>c. c \<noteq> NUL \<and> c_isspace c) w = w" "ch w 0 \<noteq> NUL" using w by (simp_all add: ch_def)
  have "splitargs_loop a [s] [] = Some (Some [s], 1)" by (subst splitargs_loop.simps) (simp add: ch_def)
  then have "splitargs_loop a [] w = Some (Some [s], 1)"
    using skip e(1) s(1) assms(1) by (subst splitargs_loop.simps) (simp add: mem_ok_def)
  then show ?thesis using word_no_NUL [OF assms(2)] s(3) by (simp add: sdssplitargs_def arg0_def)
qed

text \<open>What the line \<open>k: w\<close> does when \<open>w\<close> is a single word.\<close>

lemma conf_item_word:
  assumes "mem_ok a" "is_word w" "length w \<le> sds_limit" "find_command tbl (cstr k) = Some (Some c)"
    "\<And>argv. arg0 argv = Some w \<Longrightarrow> run_handler a 1 argv c m = Some (CONFIG_OK, m')"
  shows "conf_item a tbl k w m = Some (CONFIG_OK, m')"
proof -
  obtain s where s: "sdssplitargs a w = Some (Some [s], 1)" "arg0 (Some [s]) = Some w"
    using sdssplitargs_word [OF assms(1-3)] by blast
  then show ?thesis
    using assms(4) assms(5) [OF s(2)] by (simp add: conf_item_def free_args_def del: run_handler.simps)
qed

lemma get_token_open_quote:
  assumes "mem_ok a"
  shows "sds_ok cur \<Longrightarrow> length (sds_val cur) + length w \<le> sds_limit \<Longrightarrow> NUL \<notin> set w \<Longrightarrow> SQUOTE \<notin> set w \<Longrightarrow>
    get_token a InSQ cur w = Some None"
proof (induction w arbitrary: cur)
  case Nil
  then show ?case by (subst get_token.simps) (simp add: token_step.simps ch_def)
next
  case (Cons c w)
  obtain c1 where c1: "sds_append a cur [c] = Some (Some c1)" "sds_ok c1" "sds_val c1 = sds_val cur @ [c]"
    using sds_append_ok [OF assms Cons.prems(1), of "[c]"] Cons.prems(2) by auto
  have "ch (c # w) 1 \<noteq> SQUOTE" using Cons.prems(4) by (cases w) (auto simp: ch_def)
  then have "token_step InSQ (c # w) = TokGo InSQ [c] w"
    using Cons.prems by (auto simp: token_step.simps ch_def adv_def)
  moreover have "get_token a InSQ c1 w = Some None" using c1 Cons.prems by (intro Cons.IH) auto
  ultimately show ?case using c1 by (subst get_token.simps) simp
qed

lemma sdssplitargs_open_quote:
  assumes "mem_ok a" "NUL \<notin> set w" "SQUOTE \<notin> set w" "length w \<le> sds_limit"
  shows "sdssplitargs a (SQUOTE # w) = Some (None, -1)"
proof -
  obtain e where e: "sdsempty a = Some (Some e)" "sds_ok e" "sds_val e = []" using sdsempty_ok [OF assms(1)] by blast
  have "token_step Plain (SQUOTE # w) = TokGo InSQ [] w" by (simp add: token_step.simps ch_def adv_def)
  then have "get_token a Plain e (SQUOTE # w) = Some None"
    using get_token_open_quote [OF assms(1) e(2)] e(3) assms by (subst get_token.simps) simp
  moreover have "dropWhile (\<lambda>c. c \<noteq> NUL \<and> c_isspace c) (SQUOTE # w) = SQUOTE # w" "ch (SQUOTE # w) 0 \<noteq> NUL"
    by (simp_all add: ch_def c_isspace_def)
  ultimately have "splitargs_loop a [] (SQUOTE # w) = Some (None, -1)"
    using e(1) by (subst splitargs_loop.simps) simp
  then show ?thesis using assms(2) by (simp add: sdssplitargs_def cstr_no_nul)
qed

section \<open>Properties\<close>


definition demo_commands :: "command list" where
  "demo_commands = [\<lparr>cmd_name = ''port'', cmd_handler = conf_set_num, cmd_offset = 0\<rparr>,
     \<lparr>cmd_name = [], cmd_handler = conf_set_num, cmd_offset = 0\<rparr>]"

definition demo_conf :: cmem where
  "demo_conf = \<lparr>cm_bytes = replicate 4 NUL, cm_strs = []\<rparr>"

lemma demo_lines: "\<forall>kv \<in> set [(''port'', ''80'')]. is_key (fst kv) \<and> is_value (snd kv)"
  by (simp add: is_key_def is_value_def key_char_def)


text \<open>
  C35: a line with a key that is not in the table, whose value opens a quote and does not close it,
  ends the process: \<open>argc\<close> is \<open>-1\<close> when the arguments are released.
\<close>

theorem unknown_key_open_quote_crashes:
  assumes "mem_ok a" "\<And>n. ce_node e n" "\<And>n. ce_buf e n" "is_key k" "find_command tbl (cstr k) = Some None"
    "is_word w" "length w \<le> sds_limit"
  shows "load_conf_file a e True out0 (Some (conf_line (k, SQUOTE # w))) tbl m = None"
proof -
  have w: "NUL \<notin> set w" "SQUOTE \<notin> set w" "CHR ''#'' \<notin> set w" "NL \<notin> set w"
    using assms(6) word_value [OF assms(6)] by (auto simp: is_word_def is_value_def list_all_iff)
  then have "is_value (SQUOTE # w)" by (simp add: is_value_def)
  then have "load_conf_file a e True out0 (Some (conf_line (k, SQUOTE # w))) tbl m = run_items a tbl [(k, SQUOTE # w)] m"
    using load_lines [OF assms(2,3), of "[(k, SQUOTE # w)]" a out0 tbl m] assms(4) by simp
  also have "\<dots> = None"
    using sdssplitargs_open_quote [OF assms(1) w(1,2) assms(7)] assms(5) by (simp add: conf_item_def free_args_def)
  finally show ?thesis .
qed

theorem unknown_key_open_quote_crashes_witness:
  "load_conf_file demo_mem demo_cenv True demo_out (Some (conf_line (''note'', SQUOTE # ''tis''))) demo_commands demo_conf = None"
proof (rule unknown_key_open_quote_crashes)
  show "find_command demo_commands (cstr ''note'') = Some None" by code_simp
  show "is_key ''note''" "is_word ''tis''" by code_simp+
qed (simp_all add: demo_mem_ok demo_cenv_def sds_limit_def)

end
