(* ===== verification/Server.thy ===== *)
theory Server
  imports Dispatcher Config_File
begin

text \<open>
  The server object of \<^verbatim>\<open>src/src/server/server.cpp\<close>: its options, the table of configuration commands
  that fills them, and the life of the dispatcher it owns. The options are kept as the 72 bytes of
  \<open>GenericServerOptions\<close> on a 64-bit machine, because the configuration file is stored through
  untyped offsets; \<open>opts_of\<close> reads the fields. The contract all five handlers of the table share is the
  locale \<open>slot_handler\<close>.
\<close>

section \<open>Slices of bytes\<close>

definition slice :: "nat \<Rightarrow> nat \<Rightarrow> 'a list \<Rightarrow> 'a list" where
  "slice off n b = take n (drop off b)"

lemma slice_blit_in:
  "off + length s \<le> length b \<Longrightarrow> n \<le> length s \<Longrightarrow> slice off n (blit b off s) = take n s"
  by (simp add: slice_def blit_def)

lemma slice_blit_out:
  assumes "i + length s \<le> length b" "off + n \<le> i \<or> i + length s \<le> off"
  shows "slice off n (blit b i s) = slice off n b"
proof (rule nth_equalityI)
  show len: "length (slice off n (blit b i s)) = length (slice off n b)" using assms(1) by (simp add: slice_def)
  fix j assume "j < length (slice off n (blit b i s))"
  then have j: "j < n" "off + j < length b" using assms(1) by (auto simp: slice_def)
  then show "slice off n (blit b i s) ! j = slice off n b ! j"
    using assms by (auto simp: slice_def intro!: nth_blit_out)
qed

lemma take_le_bytes: "j \<le> k \<Longrightarrow> take j (le_bytes k n) = le_bytes j n"
proof (induction k arbitrary: j n)
  case (Suc k)
  then show ?case by (cases j) simp_all
qed simp

section \<open>Options\<close>

abbreviation (input) SERVER_OK :: int where "SERVER_OK \<equiv> 0"
abbreviation (input) SERVER_ERROR :: int where "SERVER_ERROR \<equiv> -1"

definition field :: "cmem \<Rightarrow> nat \<Rightarrow> nat \<Rightarrow> nat" where
  "field m off n = le_nat (slice off n (cm_bytes m))"

(* src/src/server/server.h:47-63, GenericServerOptions *)
definition opts_of :: "cmem \<Rightarrow> server_opts" where
  "opts_of m = \<lparr>
     so_ip = (if field m 0 8 = 0 then None else peek (cm_strs m) (field m 0 8 - 1)),
     so_port = int (field m 8 2),
     so_worker_num = s32 (int (field m 12 4)),
     so_server_type = s32 (int (field m 16 4)),
     so_bind_cpu = (field m 20 1 \<noteq> 0),
     so_connection_timeout = int (field m 24 8),
     so_tick = int (field m 32 8),
     so_max_io_buffer_size = int (field m 40 8),
     so_max_reply_list_size = s32 (int (field m 48 4)),
     so_ssl_open = s32 (int (field m 64 4))\<rparr>"

text \<open>
  The bytes of given options. The padding and the pointer to the factory are zero here: the factory
  is the component \<open>sv_factory\<close> of the server.
\<close>

definition conf_of :: "server_opts \<Rightarrow> cmem" where
  "conf_of opts = \<lparr>
     cm_bytes = le_bytes 8 (if so_ip opts = None then 0 else 1) @
       le_bytes 4 (nat (so_port opts mod 2 ^ 16)) @
       le_bytes 4 (nat (u32 (so_worker_num opts))) @
       le_bytes 4 (nat (u32 (so_server_type opts))) @
       le_bytes 4 (if so_bind_cpu opts then 1 else 0) @
       le_bytes 8 (nat (u64 (so_connection_timeout opts))) @
       le_bytes 8 (nat (u64 (so_tick opts))) @
       le_bytes 8 (nat (u64 (so_max_io_buffer_size opts))) @
       le_bytes 8 (nat (u32 (so_max_reply_list_size opts))) @
       le_bytes 8 0 @
       le_bytes 8 (nat (u32 (so_ssl_open opts))),
     cm_strs = (case so_ip opts of None \<Rightarrow> [] | Some s \<Rightarrow> [s])\<rparr>"

(* src/src/server/server.cpp:25-63, server_cmd_table *)
definition server_cmd_table :: "command list" where
  "server_cmd_table = [
     \<lparr>cmd_name = ''ip'', cmd_handler = conf_set_str, cmd_offset = 0\<rparr>,
     \<lparr>cmd_name = ''port'', cmd_handler = conf_set_num, cmd_offset = 8\<rparr>,
     \<lparr>cmd_name = ''worker_num'', cmd_handler = conf_set_num, cmd_offset = 12\<rparr>,
     \<lparr>cmd_name = ''bind_cpu'', cmd_handler = conf_set_flag, cmd_offset = 20\<rparr>,
     \<lparr>cmd_name = ''server_type'', cmd_handler = conf_set_num, cmd_offset = 16\<rparr>,
     \<lparr>cmd_name = ''connection_timeout'', cmd_handler = conf_set_usec, cmd_offset = 24\<rparr>,
     \<lparr>cmd_name = ''tick'', cmd_handler = conf_set_usec, cmd_offset = 32\<rparr>,
     \<lparr>cmd_name = ''max_io_buffer_size'', cmd_handler = conf_set_mem, cmd_offset = 40\<rparr>,
     \<lparr>cmd_name = ''max_reply_list_size'', cmd_handler = conf_set_num, cmd_offset = 48\<rparr>,
     \<lparr>cmd_name = [], cmd_handler = conf_set_num, cmd_offset = 0\<rparr>]"

section \<open>The server\<close>

(* src/src/server/server.h:68-90, GenericServer *)
record ('u, 'm) server =
  sv_thread_name :: string
  sv_conf :: cmem
  sv_factory :: "(server_opts \<Rightarrow> 'u worker) option"
  sv_dispatcher :: "('u, 'm) dispatcher option"

(* src/src/server/server.cpp:80-84, GenericServer::GenericServer *)
definition server_new :: "string \<Rightarrow> ('u, 'm) server" where
  "server_new name = \<lparr>sv_thread_name = name, sv_conf = conf_of server_opts_default, sv_factory = None, sv_dispatcher = None\<rparr>"

(* src/src/server/server.cpp:86-89, GenericServer::~GenericServer *)
definition server_destroy :: "'k sysops \<Rightarrow> ('u, 'm) server \<Rightarrow> 'k \<Rightarrow> (('u, 'm) server \<times> 'k) option" where
  "server_destroy os sv k = do {
     k \<leftarrow> (case sv_dispatcher sv of None \<Rightarrow> Some k | Some d \<Rightarrow> do { (_, k) \<leftarrow> d_destroy os d k; Some k });
     Some (sv\<lparr>sv_dispatcher := None\<rparr>, k) }"

(* src/src/server/server.cpp:91-95, GenericServer::init_conf *)
definition init_conf :: "('u, 'm) server \<Rightarrow> int \<times> ('u, 'm) server" where
  "init_conf sv = (SERVER_OK, sv\<lparr>sv_conf := conf_of server_opts_default, sv_factory := None\<rparr>)"

(* src/src/server/server.cpp:97-103, GenericServer::init_conf *)
definition init_conf_with :: "server_opts \<Rightarrow> (server_opts \<Rightarrow> 'u worker) option \<Rightarrow> ('u, 'm) server \<Rightarrow> int \<times> ('u, 'm) server" where
  "init_conf_with opts factory sv =
     (let opts = (if so_ip opts = None then opts\<lparr>so_ip := Some ''0.0.0.0''\<rparr> else opts)
      in (SERVER_OK, sv\<lparr>sv_conf := conf_of opts, sv_factory := factory\<rparr>))"

text \<open>The options are also printed to the standard error; that output is left out.\<close>

(* src/src/server/server.cpp:105-134, GenericServer::load_conf *)
definition load_conf :: "allocator \<Rightarrow> cenv \<Rightarrow> bool \<Rightarrow> lexer_output \<Rightarrow> string option \<Rightarrow> ('u, 'm) server \<Rightarrow> (int \<times> ('u, 'm) server) option" where
  "load_conf a e lxok out0 content sv = do {
     (st, m) \<leftarrow> load_conf_file a e lxok out0 content server_cmd_table (sv_conf sv);
     let sv = sv\<lparr>sv_conf := m\<rparr>;
     if st \<noteq> CONFIG_OK then Some (SERVER_ERROR, sv) else Some (SERVER_OK, sv) }"

(* src/src/server/server.cpp:136-138, GenericServer::validate_conf *)
definition validate_conf :: "('u, 'm) server \<Rightarrow> int" where
  "validate_conf sv = SERVER_OK"

(* src/src/server/server.cpp:140-148, GenericServer::initialize *)
definition server_initialize :: "'k sysops \<Rightarrow> unset \<Rightarrow> 'm \<Rightarrow> (int \<times> int) option \<Rightarrow> (nat \<Rightarrow> spawn_env) \<Rightarrow>
    ('u, 'm) server \<Rightarrow> 'k \<Rightarrow> ((int \<times> ('u, 'm) server) \<times> 'k) option" where
  "server_initialize os un dummy p env sv k = do {
     ((r, d), k) \<leftarrow> d_initialize os (sv_factory sv) un p env (dispatcher_new un (opts_of (sv_conf sv)) dummy) k;
     let sv = sv\<lparr>sv_dispatcher := Some d\<rparr>;
     if r \<noteq> DISPATCHER_OK then Some ((SERVER_ERROR, sv), k) else Some ((SERVER_OK, sv), k) }"

text \<open>The following members dereference \<open>_dispatcher\<close>, which is null before \<open>initialize\<close>.\<close>

(* src/src/server/server.cpp:150-152, GenericServer::run *)
definition server_run :: "('u, 'm) server \<Rightarrow> ('u, 'm) server option" where
  "server_run sv = do { d \<leftarrow> sv_dispatcher sv; Some (sv\<lparr>sv_dispatcher := Some (d_run d)\<rparr>) }"

(* src/src/server/server.cpp:154-156, GenericServer::stop *)
definition server_stop :: "os_write \<Rightarrow> ('u, 'm) server \<Rightarrow> ('u, 'm) server option" where
  "server_stop wr sv = do { d \<leftarrow> sv_dispatcher sv; Some (sv\<lparr>sv_dispatcher := Some (snd (d_notify wr 0 d))\<rparr>) }"

(* src/src/server/server.cpp:159-161, GenericServer::get_clients_count *)
definition server_get_clients_count :: "('u, 'm) server \<Rightarrow> (int \<times> string) option" where
  "server_get_clients_count sv = map_option d_get_clients_count (sv_dispatcher sv)"

section \<open>Fields\<close>

lemma slice_skip: "slice (length xs + k) n (xs @ ys) = slice k n ys"
  by (simp add: slice_def)

definition opts_range :: "server_opts \<Rightarrow> bool" where
  "opts_range opts \<longleftrightarrow> 0 \<le> so_port opts \<and> so_port opts < 2 ^ 16 \<and>
     - (2 ^ 31) \<le> so_worker_num opts \<and> so_worker_num opts < 2 ^ 31 \<and>
     - (2 ^ 31) \<le> so_server_type opts \<and> so_server_type opts < 2 ^ 31 \<and>
     0 \<le> so_connection_timeout opts \<and> so_connection_timeout opts < 2 ^ 64 \<and>
     0 \<le> so_tick opts \<and> so_tick opts < 2 ^ 64 \<and>
     0 \<le> so_max_io_buffer_size opts \<and> so_max_io_buffer_size opts < 2 ^ 64 \<and>
     - (2 ^ 31) \<le> so_max_reply_list_size opts \<and> so_max_reply_list_size opts < 2 ^ 31 \<and>
     - (2 ^ 31) \<le> so_ssl_open opts \<and> so_ssl_open opts < 2 ^ 31"

lemma s32_u32: "s32 (u32 x) = s32 x"
  by (simp add: s32_def u32_def signed_take_bit_take_bit)

lemma conf_of_opts:
  assumes "opts_range opts"
  shows "opts_of (conf_of opts) = opts"
proof -
  have r: "0 \<le> u32 x" "u32 x mod 4294967296 = u32 x" for x using u32_range [of x] by simp_all
  show ?thesis
    using assms by (cases opts) (simp add: opts_of_def conf_of_def field_def slice_def take_le_bytes le_nat_bytes
      zmod_int r s32_u32 opts_range_def peek_def split: option.split)
qed

lemma field_strs [simp]: "field (m\<lparr>cm_strs := xs\<rparr>) off n = field m off n"
  by (simp add: field_def)

lemma field_less: "field m off n < 256 ^ n"
proof -
  have "field m off n < 256 ^ length (slice off n (cm_bytes m))" unfolding field_def by (rule le_nat_less)
  also have "(256::nat) ^ length (slice off n (cm_bytes m)) \<le> 256 ^ n" by (rule power_increasing) (simp_all add: slice_def)
  finally show ?thesis .
qed

lemma opts_of_range: "opts_range (opts_of m)"
  using field_less [of m 8 2] field_less [of m 24 8] field_less [of m 32 8] field_less [of m 40 8] s32_range
  by (simp add: opts_range_def opts_of_def)

section \<open>What a handler may change\<close>

locale slot_handler =
  fixes run :: "int \<Rightarrow> sds list option \<Rightarrow> command \<Rightarrow> cmem \<Rightarrow> (conf_status \<times> cmem) option" and width :: nat
  assumes writes: "run argc argv c m = Some (st, m') \<Longrightarrow> m' = m \<or>
    (\<exists>bs xs. length bs = width \<and> cmd_offset c + width \<le> length (cm_bytes m) \<and>
       m' = \<lparr>cm_bytes = blit (cm_bytes m) (cmd_offset c) bs, cm_strs = cm_strs m @ xs\<rparr>)"
begin

lemma keeps_size: "run argc argv c m = Some (st, m') \<Longrightarrow> length (cm_bytes m') = length (cm_bytes m)"
  using writes by fastforce

lemma keeps_slice:
  assumes "run argc argv c m = Some (st, m')" "off + n \<le> cmd_offset c \<or> cmd_offset c + width \<le> off"
  shows "slice off n (cm_bytes m') = slice off n (cm_bytes m)"
  using writes [OF assms(1)] slice_blit_out [of "cmd_offset c" _ "cm_bytes m" off n] assms(2) by auto

lemma keeps_strs: "run argc argv c m = Some (st, m') \<Longrightarrow> \<exists>xs. cm_strs m' = cm_strs m @ xs"
  using writes by fastforce

end

lemma put_writes:
  "put m off bs = Some (st, m') \<Longrightarrow> off + length bs \<le> length (cm_bytes m) \<and>
     m' = \<lparr>cm_bytes = blit (cm_bytes m) off bs, cm_strs = cm_strs m\<rparr>"
  by (auto simp: put_def store_at_def split: Option.bind_splits if_splits)

interpretation flag_slot: slot_handler conf_set_flag_slot 1
proof
  fix argc argv c m st m'
  assume "conf_set_flag_slot argc argv c m = Some (st, m')"
  then consider "m' = m" | b where "put m (cmd_offset c) (le_bytes 1 b) = Some (st, m')"
    by (auto simp: conf_set_flag_slot_def split: Option.bind_splits if_splits)
  then show "m' = m \<or> (\<exists>bs xs. length bs = 1 \<and> cmd_offset c + 1 \<le> length (cm_bytes m) \<and>
      m' = \<lparr>cm_bytes = blit (cm_bytes m) (cmd_offset c) bs, cm_strs = cm_strs m @ xs\<rparr>)"
    using put_writes [of m "cmd_offset c" _ st m'] by cases (simp, metis append_Nil2 length_le_bytes)
qed

lemma put_slot:
  "put m off (le_bytes k x) = Some (st, m') \<Longrightarrow> \<exists>bs xs. length bs = k \<and> off + k \<le> length (cm_bytes m) \<and>
     m' = \<lparr>cm_bytes = blit (cm_bytes m) off bs, cm_strs = cm_strs m @ xs\<rparr>"
  using put_writes [of m off "le_bytes k x" st m'] by (metis append_Nil2 length_le_bytes)

interpretation usec_slot: slot_handler conf_set_usec_slot 8
  by unfold_locales (auto simp: conf_set_usec_slot_def split: Option.bind_splits if_splits dest!: put_slot)

interpretation num_slot: slot_handler conf_set_num_slot 4
  by unfold_locales (auto simp: conf_set_num_slot_def split: Option.bind_splits if_splits dest!: put_slot)

interpretation mem_slot: slot_handler conf_set_mem_slot 8
  by unfold_locales (auto simp: conf_set_mem_slot_def split: Option.bind_splits if_splits dest!: put_slot)

interpretation str_slot: slot_handler "conf_set_str_slot a" 8 for a
  by unfold_locales (auto simp: conf_set_str_slot_def split: Option.bind_splits if_splits dest!: put_slot)

fun slot_width :: "handler_fn \<Rightarrow> nat" where
  "slot_width conf_set_flag = 1"
| "slot_width conf_set_usec = 8"
| "slot_width conf_set_str = 8"
| "slot_width conf_set_num = 4"
| "slot_width conf_set_mem = 8"

lemma run_handler_frame:
  assumes "run_handler a argc argv c m = Some (st, m')"
  shows "length (cm_bytes m') = length (cm_bytes m)" "\<exists>xs. cm_strs m' = cm_strs m @ xs"
    "off + n \<le> cmd_offset c \<or> cmd_offset c + slot_width (cmd_handler c) \<le> off \<Longrightarrow>
     slice off n (cm_bytes m') = slice off n (cm_bytes m)"
proof -
  show "length (cm_bytes m') = length (cm_bytes m)"
    using assms by (cases "cmd_handler c")
      (auto dest: flag_slot.keeps_size usec_slot.keeps_size str_slot.keeps_size num_slot.keeps_size mem_slot.keeps_size)
  show "\<exists>xs. cm_strs m' = cm_strs m @ xs"
    using assms by (cases "cmd_handler c")
      (auto dest: flag_slot.keeps_strs usec_slot.keeps_strs str_slot.keeps_strs num_slot.keeps_strs mem_slot.keeps_strs)
  assume "off + n \<le> cmd_offset c \<or> cmd_offset c + slot_width (cmd_handler c) \<le> off"
  then show "slice off n (cm_bytes m') = slice off n (cm_bytes m)"
    using assms flag_slot.keeps_slice [of argc argv c m st m' off n] usec_slot.keeps_slice [of argc argv c m st m' off n]
      str_slot.keeps_slice [of a argc argv c m st m' off n] num_slot.keeps_slice [of argc argv c m st m' off n]
      mem_slot.keeps_slice [of argc argv c m st m' off n]
    by (cases "cmd_handler c") simp_all
qed

text \<open>An invariant of the structure that every command keeps is kept by the loading of any file.\<close>

lemma find_commandD: "find_command tbl name = Some (Some c) \<Longrightarrow> c \<in> set tbl \<and> cmd_name c \<noteq> []"
  by (induction tbl) (auto split: if_splits)

definition commands_keep :: "allocator \<Rightarrow> command list \<Rightarrow> (cmem \<Rightarrow> bool) \<Rightarrow> bool" where
  "commands_keep a tbl I \<longleftrightarrow> (\<forall>c argc argv m st m'. c \<in> set tbl \<longrightarrow> cmd_name c \<noteq> [] \<longrightarrow> I m \<longrightarrow>
     run_handler a argc argv c m = Some (st, m') \<longrightarrow> I m')"

lemma conf_item_inv:
  assumes "commands_keep a tbl I" "I m" "conf_item a tbl name args m = Some (st, m')"
  shows "I m'"
proof -
  obtain argc argv cmd st' where c: "find_command tbl (cstr name) = Some cmd"
    "(case cmd of Some c \<Rightarrow> run_handler a argc argv c m | None \<Rightarrow> Some (CONFIG_OK, m)) = Some (st', m')"
    using assms(3) by (auto simp: conf_item_def simp del: run_handler.simps split: Option.bind_splits if_splits)
  show ?thesis
  proof (cases cmd)
    case None
    then show ?thesis using c(2) assms(2) by simp
  next
    case (Some d)
    then have "run_handler a argc argv d m = Some (st', m')" using c(2) by simp
    moreover have "d \<in> set tbl" "cmd_name d \<noteq> []" using find_commandD c(1) Some by auto
    ultimately show ?thesis using assms(1,2) unfolding commands_keep_def by blast
  qed
qed

lemma parse_conf_inv:
  assumes "commands_keep a tbl I" "I m" "parse_conf a tbl h nd m = Some (st, m')"
  shows "I m'"
  using assms(3) conf_item_inv [OF assms(1,2)] assms(2)
  by (auto simp: parse_conf_def split: Option.bind_splits option.splits)

lemma conf_loop_inv:
  assumes "commands_keep a tbl I" "conf_loop a tbl h nd m = Some r" "I m"
  shows "I (snd r)"
proof -
  have "a = a \<longrightarrow> tbl = tbl \<longrightarrow> I m \<longrightarrow> I (snd r)"
  proof (rule conf_loop.raw_induct [OF _ assms(2), where P = "\<lambda>a' tbl' h nd m r. a' = a \<longrightarrow> tbl' = tbl \<longrightarrow> I m \<longrightarrow> I (snd r)"])
    fix cl a' tbl' h nd m r
    assume ih: "\<And>a' tbl' h nd m r. cl a' tbl' h nd m = Some r \<Longrightarrow> a' = a \<longrightarrow> tbl' = tbl \<longrightarrow> I m \<longrightarrow> I (snd r)"
      and eq: "do { nd \<leftarrow> config_next h nd;
        if nd = None then Some (CONFIG_OK, m)
        else do {
          (st, m) \<leftarrow> parse_conf a' tbl' h nd m;
          if st \<noteq> CONFIG_OK then Some (CONFIG_ERROR, m) else cl a' tbl' h nd m } } = Some r"
    show "a' = a \<longrightarrow> tbl' = tbl \<longrightarrow> I m \<longrightarrow> I (snd r)"
    proof (intro impI)
      assume a: "a' = a" "tbl' = tbl" and m: "I m"
      note kept = parse_conf_inv [OF assms(1) m]
      consider "r = (CONFIG_OK, m)" | n st m1 where "parse_conf a tbl h n m = Some (st, m1)"
          "r = (CONFIG_ERROR, m1) \<or> cl a tbl h n m1 = Some r"
        using eq unfolding a by (auto split: Option.bind_splits if_splits)
      then show "I (snd r)"
      proof cases
        case 2
        then show ?thesis using kept [OF 2(1)] ih [of a tbl h n m1 r] by auto
      qed (simp add: m)
    qed
  qed
  then show ?thesis using assms(3) by simp
qed

lemma load_conf_file_inv:
  assumes "commands_keep a tbl I" "I m" "load_conf_file a e lxok out0 content tbl m = Some (st, m')"
  shows "I m'"
proof -
  have l: "I m'" if "parse_conf a tbl h nd m = Some (st1, m1)" "conf_loop a tbl h nd m1 = Some (st', m')" for h nd m1 st1 st'
    using conf_loop_inv [OF assms(1) that(2)] parse_conf_inv [OF assms(1,2) that(1)] by simp
  show ?thesis
    using assms(2,3) parse_conf_inv [OF assms(1,2)]
    by (auto simp: load_conf_file_def split: Option.bind_splits if_splits) (metis l)+
qed

section \<open>Any file\<close>

text \<open>
  The structure keeps its size, and the pointer to the address is null or points to one of the
  duplicated strings.
\<close>

definition conf_ok :: "cmem \<Rightarrow> bool" where
  "conf_ok m \<longleftrightarrow> length (cm_bytes m) = 72 \<and> field m 0 8 \<le> length (cm_strs m)"

lemma conf_of_ok: "conf_ok (conf_of opts)"
  by (simp add: conf_ok_def conf_of_def field_def slice_def take_le_bytes le_nat_bytes split: option.split)

lemma server_commands_keep:
  "commands_keep a server_cmd_table (\<lambda>m. conf_ok m \<and> slice 56 16 (cm_bytes m) = rest)"
  unfolding commands_keep_def
proof (intro allI impI)
  fix c argc argv m st m'
  assume c: "c \<in> set server_cmd_table" "cmd_name c \<noteq> []"
    and m: "conf_ok m \<and> slice 56 16 (cm_bytes m) = rest" and r: "run_handler a argc argv c m = Some (st, m')"
  note fr = run_handler_frame [OF r]
  have off: "cmd_offset c + slot_width (cmd_handler c) \<le> 56" and
    ip: "cmd_handler c = conf_set_str \<and> cmd_offset c = 0 \<or> 8 \<le> cmd_offset c"
    using c by (auto simp: server_cmd_table_def)
  have "field m' 0 8 \<le> length (cm_strs m')"
  proof (cases "8 \<le> cmd_offset c")
    case True
    then show ?thesis using fr(2) fr(3) [of 0 8] m by (auto simp: field_def conf_ok_def)
  next
    case False
    then have "conf_set_str_slot a argc argv c m = Some (st, m')" "cmd_offset c = 0" using ip r by simp_all
    then show ?thesis
      using m by (auto simp: conf_set_str_slot_def put_def field_def conf_ok_def slice_blit_in take_le_bytes le_nat_bytes
        mod_less_eq_dividend split: Option.bind_splits if_splits)
  qed
  then show "conf_ok m' \<and> slice 56 16 (cm_bytes m') = rest"
    using m fr(1) fr(3) [of 56 16] off by (simp add: conf_ok_def)
qed

section \<open>Files of single lines\<close>

text \<open>\<open>wr m off k n\<close> stores a number of \<open>k\<close> bytes.\<close>

definition wr :: "cmem \<Rightarrow> nat \<Rightarrow> nat \<Rightarrow> nat \<Rightarrow> cmem" where
  "wr m off k n = m\<lparr>cm_bytes := blit (cm_bytes m) off (le_bytes k n)\<rparr>"

lemma wr_sel [simp]:
  "cm_strs (wr m off k n) = cm_strs m"
  "off + k \<le> length (cm_bytes m) \<Longrightarrow> length (cm_bytes (wr m off k n)) = length (cm_bytes m)"
  by (simp_all add: wr_def)

lemma field_wr_in: "off + k \<le> length (cm_bytes m) \<Longrightarrow> j \<le> k \<Longrightarrow> field (wr m off k n) off j = n mod 256 ^ j"
  by (simp add: field_def wr_def slice_blit_in take_le_bytes le_nat_bytes)

lemma field_wr_out:
  "off + k \<le> length (cm_bytes m) \<Longrightarrow> i + j \<le> off \<or> off + k \<le> i \<Longrightarrow> field (wr m off k n) i j = field m i j"
  by (simp add: field_def wr_def slice_blit_out)

lemma put_wr: "off + k \<le> length (cm_bytes m) \<Longrightarrow> put m off (le_bytes k n) = Some (CONFIG_OK, wr m off k n)"
  by (simp add: put_def wr_def)

lemma digits_word: "is_word (dec_str n)"
proof -
  have "\<not> c_isspace c \<and> c \<notin> {NUL, DQUOTE, SQUOTE, CHR ''#''}" if "c \<in> set (dec_str n)" for c
    using dec_str_digits [OF that] by (auto simp: c_isdigit_def c_isspace_def)
  then show ?thesis by (simp add: is_word_def list_all_iff)
qed

lemma length_digits: "int n < 2 ^ 63 \<Longrightarrow> length (dec_str n) \<le> sds_limit"
  using length_dec_str_small [of n] by (simp add: sds_limit_def)

lemma atoi_dec_str: "int n < 2 ^ 31 \<Longrightarrow> c_atoi (dec_str n) = int n"
  using strtoll_dec_str [of n] by (simp add: c_atoi_def)

lemma line_num:
  assumes "mem_ok a" "find_command tbl (cstr key) = Some (Some c)" "cmd_handler c = conf_set_num"
    "int n < 2 ^ 31" "cmd_offset c + 4 \<le> length (cm_bytes m)"
  shows "conf_item a tbl key (dec_str n) m = Some (CONFIG_OK, wr m (cmd_offset c) 4 n)"
  using assms length_digits [of n] atoi_dec_str [of n]
  by (intro conf_item_word [OF assms(1) digits_word _ assms(2)]) (simp_all add: conf_set_num_slot_def put_wr)

lemma line_usec:
  assumes "mem_ok a" "find_command tbl (cstr key) = Some (Some c)" "cmd_handler c = conf_set_usec"
    "int n < 2 ^ 63" "cmd_offset c + 8 \<le> length (cm_bytes m)"
  shows "conf_item a tbl key (dec_str n) m = Some (CONFIG_OK, wr m (cmd_offset c) 8 n)"
  using assms length_digits [of n] timetoll_unit [of n "[]"]
  by (intro conf_item_word [OF assms(1) digits_word _ assms(2)]) (simp_all add: conf_set_usec_slot_def put_wr time_units)

lemma line_mem:
  assumes "mem_ok a" "find_command tbl (cstr key) = Some (Some c)" "cmd_handler c = conf_set_mem"
    "int n < 2 ^ 63" "cmd_offset c + 8 \<le> length (cm_bytes m)"
  shows "conf_item a tbl key (dec_str n) m = Some (CONFIG_OK, wr m (cmd_offset c) 8 n)"
proof -
  have "mem_unit [] = (1, False)" by code_simp
  then show ?thesis using assms length_digits [of n] memtoll_unit [of n "[]"]
    by (intro conf_item_word [OF assms(1) digits_word _ assms(2)]) (simp_all add: conf_set_mem_slot_def put_wr)
qed

lemma line_flag:
  assumes "mem_ok a" "find_command tbl (cstr key) = Some (Some c)" "cmd_handler c = conf_set_flag"
    "cmd_offset c + 1 \<le> length (cm_bytes m)"
  shows "conf_item a tbl key (if b then ''yes'' else ''no'') m = Some (CONFIG_OK, wr m (cmd_offset c) 1 (if b then 1 else 0))"
proof -
  have "is_word ''yes''" "is_word ''no''" by code_simp+
  then have w: "is_word (if b then ''yes'' else ''no'')" by simp
  have "strcaseeq ''yes'' ''yes''" "\<not> strcaseeq ''no'' ''yes''" "strcaseeq ''no'' ''no''" by code_simp+
  then show ?thesis using assms
    by (intro conf_item_word [OF assms(1) w _ assms(2)]) (simp_all add: conf_set_flag_slot_def put_wr sds_limit_def del: One_nat_def)
qed

lemma line_str:
  assumes "mem_ok a" "find_command tbl (cstr key) = Some (Some c)" "cmd_handler c = conf_set_str"
    "cmd_offset c + 8 \<le> length (cm_bytes m)" "is_word w" "length w \<le> sds_limit"
  shows "conf_item a tbl key w m =
    Some (CONFIG_OK, wr (m\<lparr>cm_strs := cm_strs m @ [w]\<rparr>) (cmd_offset c) 8 (length (cm_strs m) + 1))"
  using assms by (intro conf_item_word [OF assms(1,5,6,2)])
    (simp_all add: conf_set_str_slot_def put_wr mem_ok_def sds_limit_def)

text \<open>The nine lines that describe given options.\<close>

definition opts_lines :: "server_opts \<Rightarrow> (string \<times> string) list" where
  "opts_lines opts = [
     (''ip'', case so_ip opts of Some s \<Rightarrow> s | None \<Rightarrow> []),
     (''port'', dec_str (nat (so_port opts))),
     (''worker_num'', dec_str (nat (so_worker_num opts))),
     (''bind_cpu'', if so_bind_cpu opts then ''yes'' else ''no''),
     (''server_type'', dec_str (nat (so_server_type opts))),
     (''connection_timeout'', dec_str (nat (so_connection_timeout opts))),
     (''tick'', dec_str (nat (so_tick opts))),
     (''max_io_buffer_size'', dec_str (nat (so_max_io_buffer_size opts))),
     (''max_reply_list_size'', dec_str (nat (so_max_reply_list_size opts)))]"

lemma command_table:
  "find_command server_cmd_table (cstr ''ip'') = Some (Some \<lparr>cmd_name = ''ip'', cmd_handler = conf_set_str, cmd_offset = 0\<rparr>)"
  "find_command server_cmd_table (cstr ''port'') = Some (Some \<lparr>cmd_name = ''port'', cmd_handler = conf_set_num, cmd_offset = 8\<rparr>)"
  "find_command server_cmd_table (cstr ''worker_num'') = Some (Some \<lparr>cmd_name = ''worker_num'', cmd_handler = conf_set_num, cmd_offset = 12\<rparr>)"
  "find_command server_cmd_table (cstr ''bind_cpu'') = Some (Some \<lparr>cmd_name = ''bind_cpu'', cmd_handler = conf_set_flag, cmd_offset = 20\<rparr>)"
  "find_command server_cmd_table (cstr ''server_type'') = Some (Some \<lparr>cmd_name = ''server_type'', cmd_handler = conf_set_num, cmd_offset = 16\<rparr>)"
  "find_command server_cmd_table (cstr ''connection_timeout'') =
     Some (Some \<lparr>cmd_name = ''connection_timeout'', cmd_handler = conf_set_usec, cmd_offset = 24\<rparr>)"
  "find_command server_cmd_table (cstr ''tick'') = Some (Some \<lparr>cmd_name = ''tick'', cmd_handler = conf_set_usec, cmd_offset = 32\<rparr>)"
  "find_command server_cmd_table (cstr ''max_io_buffer_size'') =
     Some (Some \<lparr>cmd_name = ''max_io_buffer_size'', cmd_handler = conf_set_mem, cmd_offset = 40\<rparr>)"
  "find_command server_cmd_table (cstr ''max_reply_list_size'') =
     Some (Some \<lparr>cmd_name = ''max_reply_list_size'', cmd_handler = conf_set_num, cmd_offset = 48\<rparr>)"
  by code_simp+

definition opts_plain :: "server_opts \<Rightarrow> bool" where
  "opts_plain opts \<longleftrightarrow> (case so_ip opts of Some s \<Rightarrow> is_word s \<and> length s \<le> sds_limit | None \<Rightarrow> False) \<and>
     0 \<le> so_port opts \<and> so_port opts < 2 ^ 16 \<and>
     0 \<le> so_worker_num opts \<and> so_worker_num opts < 2 ^ 31 \<and>
     0 \<le> so_server_type opts \<and> so_server_type opts < 2 ^ 31 \<and>
     0 \<le> so_connection_timeout opts \<and> so_connection_timeout opts < 2 ^ 63 \<and>
     0 \<le> so_tick opts \<and> so_tick opts < 2 ^ 63 \<and>
     0 \<le> so_max_io_buffer_size opts \<and> so_max_io_buffer_size opts < 2 ^ 63 \<and>
     0 \<le> so_max_reply_list_size opts \<and> so_max_reply_list_size opts < 2 ^ 31"

lemma opts_lines_items:
  assumes "opts_plain opts"
  shows "distinct (map fst (opts_lines opts))" "\<forall>kv \<in> set (opts_lines opts). is_key (fst kv) \<and> is_value (snd kv)"
proof -
  have "is_key ''ip''" "is_key ''port''" "is_key ''worker_num''" "is_key ''bind_cpu''" "is_key ''server_type''"
    "is_key ''connection_timeout''" "is_key ''tick''" "is_key ''max_io_buffer_size''" "is_key ''max_reply_list_size''"
    "is_word ''yes''" "is_word ''no''"
    by code_simp+
  then show "\<forall>kv \<in> set (opts_lines opts). is_key (fst kv) \<and> is_value (snd kv)"
    using assms digits_word word_value by (auto simp: opts_lines_def opts_plain_def split: option.splits)
qed (simp add: opts_lines_def)

lemma run_opts_lines:
  assumes "mem_ok a" "opts_plain opts" "length (cm_bytes m) = 72" "length (cm_strs m) < 2 ^ 63"
  shows "\<exists>m'. run_items a server_cmd_table (opts_lines opts) m = Some (CONFIG_OK, m') \<and>
    opts_of m' = opts\<lparr>so_ssl_open := so_ssl_open (opts_of m)\<rparr>"
proof -
  obtain s where s: "so_ip opts = Some s" "is_word s" "length s \<le> sds_limit"
    using assms(2) by (auto simp: opts_plain_def split: option.splits)
  note r = assms(2) [unfolded opts_plain_def]
  define m1 where "m1 = wr (m\<lparr>cm_strs := cm_strs m @ [s]\<rparr>) 0 8 (Suc (length (cm_strs m)))"
  define m2 where "m2 = wr m1 8 4 (nat (so_port opts))"
  define m3 where "m3 = wr m2 12 4 (nat (so_worker_num opts))"
  define m4 where "m4 = wr m3 20 (Suc 0) (if so_bind_cpu opts then 1 else 0)"
  define m5 where "m5 = wr m4 16 4 (nat (so_server_type opts))"
  define m6 where "m6 = wr m5 24 8 (nat (so_connection_timeout opts))"
  define m7 where "m7 = wr m6 32 8 (nat (so_tick opts))"
  define m8 where "m8 = wr m7 40 8 (nat (so_max_io_buffer_size opts))"
  define m9 where "m9 = wr m8 48 4 (nat (so_max_reply_list_size opts))"
  note ms = m1_def m2_def m3_def m4_def m5_def m6_def m7_def m8_def m9_def
  have len: "length (cm_bytes m1) = 72" "length (cm_bytes m2) = 72" "length (cm_bytes m3) = 72" "length (cm_bytes m4) = 72"
    "length (cm_bytes m5) = 72" "length (cm_bytes m6) = 72" "length (cm_bytes m7) = 72" "length (cm_bytes m8) = 72"
    using assms(3) by (simp_all add: ms)
  have "run_items a server_cmd_table (opts_lines opts) m = Some (CONFIG_OK, m9)"
    using r s assms(1,3) len
      line_str [OF assms(1) command_table(1), of m s]
      line_num [OF assms(1) command_table(2), of "nat (so_port opts)" m1]
      line_num [OF assms(1) command_table(3), of "nat (so_worker_num opts)" m2]
      line_flag [OF assms(1) command_table(4), of m3 "so_bind_cpu opts"]
      line_num [OF assms(1) command_table(5), of "nat (so_server_type opts)" m4]
      line_usec [OF assms(1) command_table(6), of "nat (so_connection_timeout opts)" m5]
      line_usec [OF assms(1) command_table(7), of "nat (so_tick opts)" m6]
      line_mem [OF assms(1) command_table(8), of "nat (so_max_io_buffer_size opts)" m7]
      line_num [OF assms(1) command_table(9), of "nat (so_max_reply_list_size opts)" m8]
    by (simp add: opts_lines_def m1_def [symmetric] m2_def [symmetric] m3_def [symmetric] m4_def [symmetric] m5_def [symmetric]
        m6_def [symmetric] m7_def [symmetric] m8_def [symmetric] m9_def [symmetric])
  moreover have "opts_of m9 = opts\<lparr>so_ssl_open := so_ssl_open (opts_of m)\<rparr>"
    using r s assms(3,4) by (cases opts) (simp add: opts_of_def ms field_wr_in field_wr_out peek_def zmod_int nth_append)
  ultimately show ?thesis by blast
qed

lemma load_conf_lines:
  assumes "\<And>n. ce_node e n" "\<And>n. ce_buf e n" "kvs \<noteq> []" "distinct (map fst kvs)"
    "\<forall>kv \<in> set kvs. is_key (fst kv) \<and> is_value (snd kv)"
    "run_items a server_cmd_table kvs (sv_conf sv) = Some (CONFIG_OK, m)"
  shows "load_conf a e True out0 (Some (concat (map conf_line kvs))) sv = Some (SERVER_OK, sv\<lparr>sv_conf := m\<rparr>)"
  using load_lines [OF assms(1-5)] assms(6) by (simp add: load_conf_def Let_def)

section \<open>Starting the workers\<close>

text \<open>The system calls of one \<open>spawn_worker\<close> succeed.\<close>

definition spawns :: "spawn_env \<Rightarrow> bool" where
  "spawns env \<longleftrightarrow> (\<exists>rfd sfd. se_pipe env = Some (rfd, sfd) \<and> 0 \<le> rfd) \<and> se_tid env \<noteq> None \<and> (\<forall>cpus. se_aff env cpus = 0)"

lemma spawn_worker_ok:
  assumes "spawns env" "0 \<le> d_cpu d" "d_cpu d < 2 ^ 31 - 1"
  shows "\<exists>w. spawn_worker (Some f) un env d = Some (DISPATCHER_OK, d\<lparr>d_cpu := d_cpu d + 1, d_workers := d_workers d @ [w]\<rparr>) \<and>
    w_running w \<and> w_cpu w = d_cpu d"
proof -
  obtain rfd sfd tid where p: "se_pipe env = Some (rfd, sfd)" "0 \<le> rfd" "se_tid env = Some tid"
    using assms(1) by (auto simp: spawns_def)
  obtain w1 where w1: "worker_initialize un (se_now env) (Some (rfd, sfd)) (f (d_opts d)) = Some (WORKER_OK, w1)"
    using worker_initialize_ok [OF p(2)] by blast
  define w where "w = set_worker_id (w_thread_name w1 @ ''_'' @ dec_int (d_cpu d) @ ''_'' @ dec_str tid)
     ((set_cpu_id (d_cpu d) w1)\<lparr>w_thread_name := w_thread_name w1 @ ''_'' @ dec_int (d_cpu d), w_thread_id := Some tid, w_running := True\<rparr>)"
  have w: "w_running w" "w_cpu w = d_cpu d" by (simp_all add: w_def set_worker_id_def set_cpu_id_def)
  then have "bind_cpu (se_aff env) w" using assms by (simp add: bind_cpu_def setaffinity_np_def spawns_def)
  then have "spawn_worker (Some f) un env d = Some (DISPATCHER_OK, d\<lparr>d_cpu := d_cpu d + 1, d_workers := d_workers d @ [w]\<rparr>)"
    using w1 p assms by (simp add: spawn_worker_def create_thread_def Let_def w_def set_cpu_id_def)
  then show ?thesis using w by blast
qed

lemma spawn_workers_ok:
  assumes "\<forall>env \<in> set envs. spawns env" "0 \<le> d_cpu d" "d_cpu d + int (length envs) < 2 ^ 31"
  shows "\<exists>ws d'. spawn_workers (Some f) un envs d = Some (DISPATCHER_OK, d') \<and>
    d' = d\<lparr>d_cpu := d_cpu d + int (length envs), d_workers := d_workers d @ ws\<rparr> \<and>
    length ws = length envs \<and> (\<forall>w \<in> set ws. w_running w) \<and> map w_cpu ws = map (\<lambda>i. d_cpu d + int i) [0..<length envs]"
  using assms
proof (induction envs arbitrary: d)
  case Nil
  then show ?case by simp
next
  case (Cons env envs)
  obtain w where w: "spawn_worker (Some f) un env d = Some (DISPATCHER_OK, d\<lparr>d_cpu := d_cpu d + 1, d_workers := d_workers d @ [w]\<rparr>)"
    "w_running w" "w_cpu w = d_cpu d"
    using spawn_worker_ok [of env d f un] Cons.prems by auto
  define d1 where "d1 = d\<lparr>d_cpu := d_cpu d + 1, d_workers := d_workers d @ [w]\<rparr>"
  obtain ws d' where ws: "spawn_workers (Some f) un envs d1 = Some (DISPATCHER_OK, d')"
    "d' = d1\<lparr>d_cpu := d_cpu d1 + int (length envs), d_workers := d_workers d1 @ ws\<rparr>"
    "length ws = length envs" "\<forall>w \<in> set ws. w_running w" "map w_cpu ws = map (\<lambda>i. d_cpu d1 + int i) [0..<length envs]"
    using Cons.IH [of d1] Cons.prems by (auto simp: d1_def)
  have "map w_cpu (w # ws) = map (\<lambda>i. d_cpu d + int i) [0..<length (env # envs)]"
    using w(3) ws(5) by (simp add: d1_def upt_conv_Cons map_Suc_upt [symmetric] comp_def algebra_simps del: upt_Suc)
  then show ?case
    using w ws by (intro exI [of _ "w # ws"] exI [of _ d']) (simp add: d1_def)
qed

lemma create_pipe_ok:
  assumes "0 \<le> rfd"
  shows "\<exists>d'. create_pipe un (Some (rfd, sfd)) d = Some (DISPATCHER_OK, d') \<and> d_opts d' = d_opts d \<and> d_net d' = d_net d \<and>
    d_workers d' = d_workers d \<and> d_cpu d' = d_cpu d"
proof -
  let ?e = "create_io_event (un_fd un) (un_events un)"
  have e: "watch_ok ?e" "io_active ?e \<longrightarrow> io_fd ?e = rfd" by (simp_all add: create_io_event_def watch_ok_def)
  obtain io where "start_io_event ?e rfd READ = Some io" using start_io_event_ok [OF e(1) assms _ _ e(2), of READ] by auto
  then show ?thesis by (simp add: create_pipe_def)
qed

lemma d_create_server_ok:
  assumes "so_ip (d_opts d) = Some ip" "0 \<le> sk_fd s"
    "nm_create_server os (d_net d) (so_server_type (d_opts d)) ip (nat (so_port (d_opts d))) (un_fd un) k = Some ((Some s, nm), k')"
  shows "\<exists>d'. d_create_server os un d k = Some ((DISPATCHER_OK, d'), k') \<and> d_opts d' = d_opts d \<and> d_net d' = nm \<and>
    d_workers d' = d_workers d \<and> d_cpu d' = d_cpu d"
proof -
  let ?e = "create_io_event (un_fd un) (un_events un)"
  have e: "watch_ok ?e" "io_active ?e \<longrightarrow> io_fd ?e = sk_fd s" by (simp_all add: create_io_event_def watch_ok_def)
  obtain io where "start_io_event ?e (sk_fd s) READ = Some io" using start_io_event_ok [OF e(1) assms(2) _ _ e(2), of READ] by auto
  then show ?thesis using assms(1,3) by (simp add: d_create_server_def Let_def)
qed

lemma server_initialize_ok:
  fixes sv :: "('u, 'm) server" and dummy :: 'm
  assumes "sv_factory sv = Some f" "opts_of (sv_conf sv) = opts" "so_ip opts = Some ip"
    "0 \<le> so_worker_num opts" "so_worker_num opts < 2 ^ 31" "0 \<le> rfd" "\<forall>i. spawns (env i)" "0 \<le> sk_fd s"
    "nm_create_server os netman_new (so_server_type opts) ip (nat (so_port opts)) (un_fd un) k = Some ((Some s, nm), k')"
  shows "\<exists>d. server_initialize os un dummy (Some (rfd, sfd)) env sv k = Some ((SERVER_OK, sv\<lparr>sv_dispatcher := Some d\<rparr>), k') \<and>
    d_opts d = opts \<and> d_net d = nm \<and> int (length (d_workers d)) = so_worker_num opts \<and> (\<forall>w \<in> set (d_workers d). w_running w) \<and>
    map w_cpu (d_workers d) = map int [0..<length (d_workers d)]"
proof -
  let ?d0 = "dispatcher_new un opts dummy :: ('u, 'm) dispatcher"
  have d0: "d_opts ?d0 = opts" "d_net ?d0 = netman_new" "d_workers ?d0 = []" "d_cpu ?d0 = 0" by (simp_all add: dispatcher_new_def)
  obtain d1 where d1: "create_pipe un (Some (rfd, sfd)) ?d0 = Some (DISPATCHER_OK, d1)" "d_opts d1 = opts" "d_net d1 = netman_new"
    "d_workers d1 = []" "d_cpu d1 = 0"
    using create_pipe_ok [OF assms(6), of un sfd ?d0] d0 by auto
  obtain d2 where d2: "d_create_server os un d1 k = Some ((DISPATCHER_OK, d2), k')" "d_opts d2 = opts" "d_net d2 = nm"
    "d_workers d2 = []" "d_cpu d2 = 0"
    using d_create_server_ok [of d1 ip s os un k nm k'] d1 assms(3,8,9) by auto
  let ?envs = "map env [0..<nat (so_worker_num opts)]"
  obtain ws d3 where d3: "spawn_workers (Some f) un ?envs d2 = Some (DISPATCHER_OK, d3)"
    "d3 = d2\<lparr>d_cpu := d_cpu d2 + int (length ?envs), d_workers := d_workers d2 @ ws\<rparr>" "length ws = length ?envs"
    "\<forall>w \<in> set ws. w_running w" "map w_cpu ws = map (\<lambda>i. d_cpu d2 + int i) [0..<length ?envs]"
    using spawn_workers_ok [of ?envs d2 f un] d2(5) assms(4,5,7) by auto
  have "server_initialize os un dummy (Some (rfd, sfd)) env sv k = Some ((SERVER_OK, sv\<lparr>sv_dispatcher := Some d3\<rparr>), k')"
    using assms(1,2) d1 d2 d3(1) by (simp add: server_initialize_def d_initialize_def)
  then show ?thesis using d2 d3(2-5) assms(4) by (intro exI [of _ d3]) simp
qed

section \<open>Properties\<close>


definition demo_unset :: unset where
  "demo_unset = \<lparr>un_last = 0, un_fd = 0, un_events = 0, un_at = 0, un_repeat = 0\<rparr>"

definition demo_spawn :: spawn_env where
  "demo_spawn = \<lparr>se_now = 0, se_pipe = Some (7, 8), se_tid = Some 1, se_aff = (\<lambda>_. 0)\<rparr>"

definition demo_opts :: server_opts where
  "demo_opts = server_opts_default\<lparr>so_ip := Some ''127.0.0.1'', so_server_type := 1, so_port := 80, so_worker_num := 2\<rparr>"

lemma demo_opts_plain: "opts_plain demo_opts"
proof -
  have "is_word ''127.0.0.1''" by code_simp
  then show ?thesis by (simp add: opts_plain_def demo_opts_def server_opts_default_def sds_limit_def)
qed



lemma port_line:
  assumes "mem_ok a" "\<And>n. ce_node e n" "\<And>n. ce_buf e n" "conf_ok (sv_conf sv)" "int n < 2 ^ 31"
  shows "load_conf a e True out0 (Some (conf_line (''port'', dec_str n))) sv = Some (SERVER_OK, sv\<lparr>sv_conf := wr (sv_conf sv) 8 4 n\<rparr>)"
proof -
  have "is_key ''port''" by code_simp
  then have "\<forall>kv \<in> set [(''port'', dec_str n)]. is_key (fst kv) \<and> is_value (snd kv)" using word_value [OF digits_word] by simp
  moreover have "run_items a server_cmd_table [(''port'', dec_str n)] (sv_conf sv) = Some (CONFIG_OK, wr (sv_conf sv) 8 4 n)"
    using line_num [OF assms(1) command_table(2), of n "sv_conf sv"] assms(4,5) by (simp add: conf_ok_def)
  ultimately show ?thesis using load_conf_lines [OF assms(2,3), of "[(''port'', dec_str n)]" a sv] by simp
qed

text \<open>
  C40: the command for the port stores four bytes where the port has two: a port that is too large is
  accepted and replaced by its remainder modulo 65536, and no other option changes, because the two
  bytes behind the port are padding.
\<close>

theorem port_wraps:
  assumes "mem_ok a" "\<And>n. ce_node e n" "\<And>n. ce_buf e n" "conf_ok (sv_conf sv)" "int n < 2 ^ 31"
  shows "\<exists>sv'. load_conf a e True out0 (Some (conf_line (''port'', dec_str n))) sv = Some (SERVER_OK, sv') \<and>
    opts_of (sv_conf sv') = (opts_of (sv_conf sv))\<lparr>so_port := int n mod 2 ^ 16\<rparr>"
proof -
  have "length (cm_bytes (sv_conf sv)) = 72" using assms(4) by (simp add: conf_ok_def)
  then have "opts_of (wr (sv_conf sv) 8 4 n) = (opts_of (sv_conf sv))\<lparr>so_port := int n mod 2 ^ 16\<rparr>"
    by (simp add: opts_of_def field_wr_in field_wr_out zmod_int)
  then show ?thesis using port_line [OF assms, of out0] by simp
qed

theorem port_wraps_witness:
  "\<exists>sv'. load_conf demo_mem demo_cenv True demo_out (Some (conf_line (''port'', dec_str 70000))) (server_new ''s'' :: (unit, unit) server) =
      Some (SERVER_OK, sv') \<and> so_port (opts_of (sv_conf sv')) = 4464"
proof -
  have "\<And>n. ce_node demo_cenv n" "\<And>n. ce_buf demo_cenv n" by (simp_all add: demo_cenv_def)
  moreover have "conf_ok (sv_conf (server_new ''s'' :: (unit, unit) server))" by (simp add: server_new_def conf_of_ok)
  ultimately show ?thesis
    using port_wraps [OF demo_mem_ok, of demo_cenv "server_new ''s'' :: (unit, unit) server" 70000 demo_out] by auto
qed


lemma hours_word: "is_word (dec_str n @ ''h'')"
proof -
  have "is_word ''h''" by code_simp
  then show ?thesis using digits_word [of n] by (simp add: is_word_def)
qed

lemma hours_line:
  assumes "mem_ok a" "\<And>n. ce_node e n" "\<And>n. ce_buf e n" "conf_ok (sv_conf sv)" "0 < n" "int n \<le> 10 ^ 9"
  shows "load_conf a e True out0 (Some (conf_line (''connection_timeout'', dec_str n @ ''h''))) sv =
    Some (SERVER_OK, sv\<lparr>sv_conf := wr (sv_conf sv) 24 8 (nat (2 ^ 64 - 694967296 * int n))\<rparr>)"
proof -
  let ?kv = "(''connection_timeout'', dec_str n @ ''h'')"
  have len: "length (cm_bytes (sv_conf sv)) = 72" using assms(4) by (simp add: conf_ok_def)
  have "is_key ''connection_timeout''" by code_simp
  then have kv: "\<forall>kv \<in> set [?kv]. is_key (fst kv) \<and> is_value (snd kv)" using word_value [OF hours_word] by simp
  have t: "timetoll (dec_str n @ ''h'') = (- 694967296 * int n, False)" using hours_are_negative assms(5,6) by simp
  have "length (dec_str n @ ''h'') \<le> sds_limit" using length_dec_str_small [of n] assms(6) by (simp add: sds_limit_def)
  moreover have "u64 (- 694967296 * int n) = 2 ^ 64 - 694967296 * int n" using assms(5,6) by (subst u64_neg) simp_all
  ultimately have "conf_item a server_cmd_table ''connection_timeout'' (dec_str n @ ''h'') (sv_conf sv) =
      Some (CONFIG_OK, wr (sv_conf sv) 24 8 (nat (2 ^ 64 - 694967296 * int n)))"
    using t len by (intro conf_item_word [OF assms(1) hours_word _ command_table(6)]) (simp_all add: conf_set_usec_slot_def put_wr)
  then show ?thesis using load_conf_lines [OF assms(2,3) _ _ kv, of a sv] by simp
qed

text \<open>
  C39: a connection timeout in hours is accepted and stored as more than two to the power of 63
  microseconds, so that the timer closes no connection that was idle for less than that: the number of
  microseconds of an hour does not fit into the \<open>int\<close> it is computed in, and the negative result is
  stored in an unsigned field.
\<close>

theorem timeout_in_hours_is_never:
  assumes "mem_ok a" "\<And>n. ce_node e n" "\<And>n. ce_buf e n" "conf_ok (sv_conf sv)" "0 < n" "int n \<le> 10 ^ 9"
    "load_conf a e True out0 (Some (conf_line (''connection_timeout'', dec_str n @ ''h''))) sv = Some (r, sv')"
    "w_opts w = opts_of (sv_conf sv')" "c_last c \<le> now" "now - c_last c < 2 ^ 63"
  shows "r = SERVER_OK \<and> so_connection_timeout (opts_of (sv_conf sv')) = 2 ^ 64 - 694967296 * int n \<and>
    process_timeout now w c = Some w"
proof -
  have "length (cm_bytes (sv_conf sv)) = 72" using assms(4) by (simp add: conf_ok_def)
  then have "r = SERVER_OK" "so_connection_timeout (opts_of (sv_conf sv')) = 2 ^ 64 - 694967296 * int n"
    using hours_line [OF assms(1-6), of out0] assms(5-7) by (auto simp: opts_of_def field_wr_in zmod_int)
  then show ?thesis using assms(5,6,8-10) by (simp add: process_timeout_def)
qed

theorem timeout_in_hours_is_never_witness:
  "\<exists>sv'. load_conf demo_mem demo_cenv True demo_out (Some (conf_line (''connection_timeout'', dec_str 1 @ ''h'')))
      (server_new ''s'' :: (unit, unit) server) = Some (SERVER_OK, sv') \<and>
    process_timeout (10 ^ 15) (idle_worker\<lparr>w_opts := opts_of (sv_conf sv')\<rparr>) (demo_conn1 []) =
      Some (idle_worker\<lparr>w_opts := opts_of (sv_conf sv')\<rparr>)"
proof -
  have ok: "conf_ok (sv_conf (server_new ''s'' :: (unit, unit) server))" by (simp add: server_new_def conf_of_ok)
  have e: "\<And>n. ce_node demo_cenv n" "\<And>n. ce_buf demo_cenv n" by (simp_all add: demo_cenv_def)
  obtain sv' where l: "load_conf demo_mem demo_cenv True demo_out (Some (conf_line (''connection_timeout'', dec_str 1 @ ''h'')))
      (server_new ''s'' :: (unit, unit) server) = Some (SERVER_OK, sv')"
    using hours_line [OF demo_mem_ok e ok, of 1 demo_out] by auto
  then show ?thesis
    using timeout_in_hours_is_never [OF demo_mem_ok e ok _ _ l, of "idle_worker\<lparr>w_opts := opts_of (sv_conf sv')\<rparr>"
        "demo_conn1 []" "10 ^ 15"] by (simp add: demo_conn1_def)
qed

end
