(* ===== verification/Linux_List.thy ===== *)
theory Linux_List
  imports Zf_Prelude
begin

text \<open>
  The circular doubly linked lists of \<^verbatim>\<open>src/src/util/list.h\<close>, over a heap of \<open>list_head\<close> structures.
  Addresses are numbers, 0 is the null pointer; an access to an address outside the heap is undefined
  (\<open>None\<close>). A list is represented by the addresses of its entries in order (\<open>ring\<close>), and every
  operation is shown to be the corresponding operation on that sequence.
\<close>

section \<open>Operations\<close>

(* src/src/util/list.h:20-22, list_head *)
record list_head =
  lh_next :: nat
  lh_prev :: nat

type_synonym lheap = "nat \<rightharpoonup> list_head"

definition set_next :: "nat \<Rightarrow> nat \<Rightarrow> lheap \<Rightarrow> lheap option" where
  "set_next p q h = do { n \<leftarrow> h p; Some (h(p \<mapsto> n\<lparr>lh_next := q\<rparr>)) }"

definition set_prev :: "nat \<Rightarrow> nat \<Rightarrow> lheap \<Rightarrow> lheap option" where
  "set_prev p q h = do { n \<leftarrow> h p; Some (h(p \<mapsto> n\<lparr>lh_prev := q\<rparr>)) }"

(* src/src/util/list.h:29-31, INIT_LIST_HEAD *)
definition INIT_LIST_HEAD :: "nat \<Rightarrow> lheap \<Rightarrow> lheap option" where
  "INIT_LIST_HEAD ptr h = do { h \<leftarrow> set_next ptr ptr h; set_prev ptr ptr h }"

(* src/src/util/list.h:39-47, __list_add *)
definition list_add_between :: "nat \<Rightarrow> nat \<Rightarrow> nat \<Rightarrow> lheap \<Rightarrow> lheap option" where
  "list_add_between new prev next h = do {
     h \<leftarrow> set_prev next new h;
     h \<leftarrow> set_next new next h;
     h \<leftarrow> set_prev new prev h;
     set_next prev new h }"

(* src/src/util/list.h:57-60, list_add *)
definition list_add :: "nat \<Rightarrow> nat \<Rightarrow> lheap \<Rightarrow> lheap option" where
  "list_add new head h = do { n \<leftarrow> h head; list_add_between new head (lh_next n) h }"

(* src/src/util/list.h:70-73, list_add_tail *)
definition list_add_tail :: "nat \<Rightarrow> nat \<Rightarrow> lheap \<Rightarrow> lheap option" where
  "list_add_tail new head h = do { n \<leftarrow> h head; list_add_between new (lh_prev n) head h }"

(* src/src/util/list.h:82-86, __list_del *)
definition list_del_between :: "nat \<Rightarrow> nat \<Rightarrow> lheap \<Rightarrow> lheap option" where
  "list_del_between prev next h = do { h \<leftarrow> set_prev next prev h; set_next prev next h }"

(* src/src/util/list.h:93-98, list_del *)
definition list_del :: "nat \<Rightarrow> lheap \<Rightarrow> lheap option" where
  "list_del entry h = do {
     n \<leftarrow> h entry;
     h \<leftarrow> list_del_between (lh_prev n) (lh_next n) h;
     h \<leftarrow> set_next entry 0 h;
     set_prev entry 0 h }"

(* src/src/util/list.h:104-108, list_del_init *)
definition list_del_init :: "nat \<Rightarrow> lheap \<Rightarrow> lheap option" where
  "list_del_init entry h = do {
     n \<leftarrow> h entry;
     h \<leftarrow> list_del_between (lh_prev n) (lh_next n) h;
     INIT_LIST_HEAD entry h }"

(* src/src/util/list.h:115-119, list_move *)
definition list_move :: "nat \<Rightarrow> nat \<Rightarrow> lheap \<Rightarrow> lheap option" where
  "list_move entry head h = do {
     n \<leftarrow> h entry;
     h \<leftarrow> list_del_between (lh_prev n) (lh_next n) h;
     list_add entry head h }"

(* src/src/util/list.h:126-131, list_move_tail *)
definition list_move_tail :: "nat \<Rightarrow> nat \<Rightarrow> lheap \<Rightarrow> lheap option" where
  "list_move_tail entry head h = do {
     n \<leftarrow> h entry;
     h \<leftarrow> list_del_between (lh_prev n) (lh_next n) h;
     list_add_tail entry head h }"

(* src/src/util/list.h:137-140, list_empty *)
definition list_empty :: "nat \<Rightarrow> lheap \<Rightarrow> bool option" where
  "list_empty head h = do { n \<leftarrow> h head; Some (lh_next n = head) }"

(* src/src/util/list.h:142-154, __list_splice *)
definition list_splice_at :: "nat \<Rightarrow> nat \<Rightarrow> lheap \<Rightarrow> lheap option" where
  "list_splice_at list head h = do {
     l \<leftarrow> h list;
     let first = lh_next l;
     let final = lh_prev l;
     n \<leftarrow> h head;
     let at = lh_next n;
     h \<leftarrow> set_prev first head h;
     h \<leftarrow> set_next head first h;
     h \<leftarrow> set_next final at h;
     set_prev at final h }"

(* src/src/util/list.h:161-165, list_splice *)
definition list_splice :: "nat \<Rightarrow> nat \<Rightarrow> lheap \<Rightarrow> lheap option" where
  "list_splice list head h = do {
     e \<leftarrow> list_empty list h;
     if \<not> e then list_splice_at list head h else Some h }"

(* src/src/util/list.h:174-181, list_splice_init *)
definition list_splice_init :: "nat \<Rightarrow> nat \<Rightarrow> lheap \<Rightarrow> lheap option" where
  "list_splice_init list head h = do {
     e \<leftarrow> list_empty list h;
     if \<not> e then do { h \<leftarrow> list_splice_at list head h; INIT_LIST_HEAD list h } else Some h }"

section \<open>Iteration\<close>

text \<open>\<open>off\<close> is the offset of the member in its structure.\<close>

(* src/src/util/list.h:189-190, list_entry *)
definition list_entry :: "nat \<Rightarrow> nat \<Rightarrow> int" where
  "list_entry ptr off = int ptr - int off"

text \<open>The loops collect the values of \<open>pos\<close> with which their body runs.\<close>

partial_function (option) walk :: "(list_head \<Rightarrow> nat) \<Rightarrow> nat \<Rightarrow> lheap \<Rightarrow> nat \<Rightarrow> nat list option" where
  "walk f head h pos =
     (if pos = head then Some []
      else do { n \<leftarrow> h pos; ps \<leftarrow> walk f head h (f n); Some (pos # ps) })"

(* src/src/util/list.h:197-199, list_for_each *)
definition list_for_each :: "nat \<Rightarrow> lheap \<Rightarrow> nat list option" where
  "list_for_each head h = do { n \<leftarrow> h head; walk lh_next head h (lh_next n) }"

(* src/src/util/list.h:205-207, list_for_each_prev *)
definition list_for_each_prev :: "nat \<Rightarrow> lheap \<Rightarrow> nat list option" where
  "list_for_each_prev head h = do { n \<leftarrow> h head; walk lh_prev head h (lh_prev n) }"

text \<open>
  The safe loop reads the next address before its body runs; \<open>body\<close> may change the heap.
\<close>

partial_function (option) walk_safe :: "(nat \<Rightarrow> lheap \<Rightarrow> lheap option) \<Rightarrow> nat \<Rightarrow> lheap \<Rightarrow> nat \<Rightarrow> nat \<Rightarrow> (nat list \<times> lheap) option" where
  "walk_safe body head h pos n =
     (if pos = head then Some ([], h)
      else do {
        h \<leftarrow> body pos h;
        x \<leftarrow> h n;
        (ps, h) \<leftarrow> walk_safe body head h n (lh_next x);
        Some (pos # ps, h) })"

(* src/src/util/list.h:215-217, list_for_each_safe *)
definition list_for_each_safe :: "(nat \<Rightarrow> lheap \<Rightarrow> lheap option) \<Rightarrow> nat \<Rightarrow> lheap \<Rightarrow> (nat list \<times> lheap) option" where
  "list_for_each_safe body head h = do {
     x \<leftarrow> h head;
     let pos = lh_next x;
     n \<leftarrow> h pos;
     walk_safe body head h pos (lh_next n) }"

section \<open>Rings\<close>

fun linked_path :: "(nat \<Rightarrow> nat) \<Rightarrow> (nat \<Rightarrow> nat) \<Rightarrow> nat list \<Rightarrow> bool" where
  "linked_path f g (x # y # ys) = (f x = y \<and> g y = x \<and> linked_path f g (y # ys))"
| "linked_path f g _ = True"

definition nx :: "lheap \<Rightarrow> nat \<Rightarrow> nat" where
  "nx h x = (case h x of Some n \<Rightarrow> lh_next n | None \<Rightarrow> 0)"

definition pv :: "lheap \<Rightarrow> nat \<Rightarrow> nat" where
  "pv h x = (case h x of Some n \<Rightarrow> lh_prev n | None \<Rightarrow> 0)"

definition ring :: "lheap \<Rightarrow> nat \<Rightarrow> nat list \<Rightarrow> bool" where
  "ring h head xs \<longleftrightarrow> distinct (head # xs) \<and> set (head # xs) \<subseteq> dom h \<and> linked_path (nx h) (pv h) (head # xs @ [head])"

lemma linked_path_split:
  "linked_path f g (us @ x # vs) \<longleftrightarrow> linked_path f g (us @ [x]) \<and> linked_path f g (x # vs)"
proof (induction us)
  case Nil
  then show ?case by (cases vs) simp_all
next
  case (Cons u us)
  then show ?case by (cases us) auto
qed

lemma linked_path_cong:
  "(\<And>x. x \<in> set (butlast l) \<Longrightarrow> f' x = f x) \<Longrightarrow> (\<And>x. x \<in> set (tl l) \<Longrightarrow> g' x = g x) \<Longrightarrow>
   linked_path f' g' l = linked_path f g l"
proof (induction f g l rule: linked_path.induct)
  case (1 f g x y ys)
  have "linked_path f' g' (y # ys) = linked_path f g (y # ys)"
    using 1 by (intro "1.IH") (auto split: if_splits dest: in_set_butlastD list.set_sel(2))
  then show ?case using 1 by simp
qed simp_all

text \<open>The heap as its two functions.\<close>

lemma set_next_eq:
  assumes "p \<in> dom h"
  shows "\<exists>h'. set_next p q h = Some h' \<and> nx h' = (nx h)(p := q) \<and> pv h' = pv h \<and> dom h' = dom h"
proof -
  obtain n where n: "h p = Some n" using assms by blast
  let ?h = "h(p \<mapsto> n\<lparr>lh_next := q\<rparr>)"
  have "nx ?h = (nx h)(p := q)" "pv ?h = pv h" "dom ?h = dom h" using n by (auto simp: nx_def pv_def)
  then show ?thesis using n by (simp add: set_next_def)
qed

lemma set_prev_eq:
  assumes "p \<in> dom h"
  shows "\<exists>h'. set_prev p q h = Some h' \<and> nx h' = nx h \<and> pv h' = (pv h)(p := q) \<and> dom h' = dom h"
proof -
  obtain n where n: "h p = Some n" using assms by blast
  let ?h = "h(p \<mapsto> n\<lparr>lh_prev := q\<rparr>)"
  have "nx ?h = nx h" "pv ?h = (pv h)(p := q)" "dom ?h = dom h" using n by (auto simp: nx_def pv_def)
  then show ?thesis using n by (simp add: set_prev_def)
qed

lemma list_add_between_eq:
  assumes "new \<in> dom h" "p \<in> dom h" "n \<in> dom h"
  shows "\<exists>h'. list_add_between new p n h = Some h' \<and> nx h' = (nx h)(new := n, p := new) \<and>
    pv h' = (pv h)(n := new, new := p) \<and> dom h' = dom h"
proof -
  obtain h1 where 1: "set_prev n new h = Some h1" "nx h1 = nx h" "pv h1 = (pv h)(n := new)" "dom h1 = dom h"
    using set_prev_eq [OF assms(3)] by blast
  obtain h2 where 2: "set_next new n h1 = Some h2" "nx h2 = (nx h1)(new := n)" "pv h2 = pv h1" "dom h2 = dom h1"
    using set_next_eq [of new h1] assms(1) 1(4) by blast
  obtain h3 where 3: "set_prev new p h2 = Some h3" "nx h3 = nx h2" "pv h3 = (pv h2)(new := p)" "dom h3 = dom h2"
    using set_prev_eq [of new h2] assms(1) 1(4) 2(4) by blast
  obtain h4 where 4: "set_next p new h3 = Some h4" "nx h4 = (nx h3)(p := new)" "pv h4 = pv h3" "dom h4 = dom h3"
    using set_next_eq [of p h3] assms(2) 1(4) 2(4) 3(4) by blast
  show ?thesis using 1 2 3 4 by (simp add: list_add_between_def)
qed

lemma list_del_between_eq:
  assumes "p \<in> dom h" "n \<in> dom h"
  shows "\<exists>h'. list_del_between p n h = Some h' \<and> nx h' = (nx h)(p := n) \<and> pv h' = (pv h)(n := p) \<and> dom h' = dom h"
proof -
  obtain h1 where 1: "set_prev n p h = Some h1" "nx h1 = nx h" "pv h1 = (pv h)(n := p)" "dom h1 = dom h"
    using set_prev_eq [OF assms(2)] by blast
  obtain h2 where "set_next p n h1 = Some h2" "nx h2 = (nx h1)(p := n)" "pv h2 = pv h1" "dom h2 = dom h1"
    using set_next_eq [of p h1] assms(1) 1(4) by blast
  then show ?thesis using 1 by (simp add: list_del_between_def)
qed

section \<open>Insertion and removal in a path\<close>

lemma path_insert:
  assumes "linked_path f g (us @ p # n # vs)" "distinct (butlast (us @ p # n # vs))" "distinct (tl (us @ p # n # vs))"
    "new \<notin> set (us @ p # n # vs)"
  shows "linked_path (f(new := n, p := new)) (g(n := new, new := p)) (us @ p # new # n # vs)"
proof -
  let ?f = "f(new := n, p := new)" and ?g = "g(n := new, new := p)"
  have o: "linked_path f g (us @ [p])" "linked_path f g (n # vs)"
    using assms(1) linked_path_split [of f g us p "n # vs"] by simp_all
  have d: "p \<notin> set us" "p \<notin> set (butlast (n # vs))" "n \<notin> set vs" "n \<notin> set (tl (us @ [p]))"
    using assms(2,3) by (cases us; auto simp: butlast_append split: if_splits)+
  have "linked_path ?f ?g (us @ [p])"
    using o(1) d assms(4) by (subst linked_path_cong [where f = f and g = g]) (auto dest: list.set_sel(2) [rotated])
  moreover have "linked_path ?f ?g (n # vs)"
    using o(2) d assms(4) by (subst linked_path_cong [where f = f and g = g]) (auto dest: in_set_butlastD split: if_splits)
  ultimately show ?thesis
    using assms(4) linked_path_split [of ?f ?g us p "new # n # vs"] by simp
qed

lemma path_remove:
  assumes "linked_path f g (us @ p # e # n # vs)" "distinct (butlast (us @ p # e # n # vs))" "distinct (tl (us @ p # e # n # vs))"
  shows "linked_path (f(p := n)) (g(n := p)) (us @ p # n # vs)" "f e = n" "g e = p"
proof -
  let ?f = "f(p := n)" and ?g = "g(n := p)"
  have o: "linked_path f g (us @ [p])" "linked_path f g (n # vs)" "f e = n" "g e = p"
    using assms(1) linked_path_split [of f g us p "e # n # vs"] by simp_all
  then show "f e = n" "g e = p" by simp_all
  have d: "p \<notin> set us" "p \<notin> set (butlast (n # vs))" "n \<notin> set vs" "n \<notin> set (tl (us @ [p]))"
    using assms(2,3) by (cases us; auto simp: butlast_append split: if_splits)+
  have "linked_path ?f ?g (us @ [p])"
    using o(1) d by (subst linked_path_cong [where f = f and g = g]) auto
  moreover have "linked_path ?f ?g (n # vs)"
    using o(2) d by (subst linked_path_cong [where f = f and g = g]) auto
  ultimately show "linked_path ?f ?g (us @ p # n # vs)"
    using linked_path_split [of ?f ?g us p "n # vs"] by simp
qed

lemma path_elsewhere:
  "linked_path f g l \<Longrightarrow> (\<And>x. x \<in> set l \<Longrightarrow> f' x = f x \<and> g' x = g x) \<Longrightarrow> linked_path f' g' l"
  using linked_path_cong [of l f' f g' g] by (metis in_set_butlastD list.set_sel(2) tl_Nil)

section \<open>Operations on rings\<close>

lemma ringD:
  assumes "ring h head xs"
  shows "distinct (head # xs)" "head \<in> dom h" "x \<in> set xs \<Longrightarrow> x \<in> dom h" "linked_path (nx h) (pv h) (head # xs @ [head])"
  using assms by (auto simp: ring_def)

lemma ring_cyc:
  assumes "ring h head xs" "head # xs @ [head] = us @ p # n # vs"
  shows "linked_path (nx h) (pv h) (us @ p # n # vs)" "distinct (butlast (us @ p # n # vs))" "distinct (tl (us @ p # n # vs))"
    "nx h p = n" "pv h n = p" "p \<in> dom h" "n \<in> dom h" "set (us @ p # n # vs) = set (head # xs)"
proof -
  note r = ringD [OF assms(1)]
  show l: "linked_path (nx h) (pv h) (us @ p # n # vs)" using r(4) assms(2) by simp
  show "distinct (butlast (us @ p # n # vs))" "distinct (tl (us @ p # n # vs))"
    using r(1) unfolding assms(2) [symmetric] by (simp_all add: butlast_append)
  show "nx h p = n" "pv h n = p" using l linked_path_split [of "nx h" "pv h" us p "n # vs"] by simp_all
  show "set (us @ p # n # vs) = set (head # xs)" unfolding assms(2) [symmetric] by auto
  then have "p \<in> set (head # xs)" "n \<in> set (head # xs)" by auto
  then show "p \<in> dom h" "n \<in> dom h" using r(2,3) by auto
qed

lemma nx_the: "h x = Some n \<Longrightarrow> lh_next n = nx h x" "h x = Some n \<Longrightarrow> lh_prev n = pv h x"
  by (simp_all add: nx_def pv_def)

text \<open>What an operation did elsewhere: nothing.\<close>

definition same_outside :: "nat set \<Rightarrow> lheap \<Rightarrow> lheap \<Rightarrow> bool" where
  "same_outside S h h' \<longleftrightarrow> dom h' = dom h \<and> (\<forall>x. x \<notin> S \<longrightarrow> nx h' x = nx h x \<and> pv h' x = pv h x)"

lemma ring_elsewhere:
  assumes "ring h head xs" "same_outside S h h'" "S \<inter> set (head # xs) = {}"
  shows "ring h' head xs"
proof -
  have "nx h' x = nx h x \<and> pv h' x = pv h x" if "x \<in> set (head # xs @ [head])" for x
  proof -
    have "x \<notin> S" using that assms(3) by auto
    then show ?thesis using assms(2) by (simp add: same_outside_def)
  qed
  then have "linked_path (nx h') (pv h') (head # xs @ [head])"
    using ringD(4) [OF assms(1)] path_elsewhere by metis
  then show ?thesis using assms(1,2) by (simp add: ring_def same_outside_def)
qed

lemma insert_between:
  assumes "ring h head xs" "head # xs @ [head] = us @ p # n # vs" "new \<in> dom h" "new \<notin> set (head # xs)"
    "head # ys @ [head] = us @ p # new # n # vs"
  shows "\<exists>h'. list_add_between new p n h = Some h' \<and> ring h' head ys \<and> same_outside (set (head # ys)) h h'"
proof -
  note c = ring_cyc [OF assms(1,2)]
  obtain h' where h': "list_add_between new p n h = Some h'" "nx h' = (nx h)(new := n, p := new)"
    "pv h' = (pv h)(n := new, new := p)" "dom h' = dom h"
    using list_add_between_eq [OF assms(3) c(6,7)] by blast
  have ys: "set (head # ys) = insert new (set (head # xs))" 
  proof -
    have "set (head # ys) = set (us @ p # new # n # vs)" unfolding assms(5) [symmetric] by auto
    then show ?thesis using c(8) by auto
  qed
  have "length (us @ p # n # vs) = length xs + 2" unfolding assms(2) [symmetric] by simp
  moreover have "length (us @ p # new # n # vs) = length ys + 2" unfolding assms(5) [symmetric] by simp
  ultimately have "length (head # ys) = Suc (length (head # xs))" by simp
  moreover have "card (set (head # ys)) = Suc (length (head # xs))"
    using ringD(1) [OF assms(1)] assms(4) distinct_card [of "head # xs"] by (simp add: ys del: list.set)
  ultimately have "distinct (head # ys)" by (metis card_distinct)
  moreover have "linked_path (nx h') (pv h') (head # ys @ [head])"
    unfolding assms(5) h'(2,3) using c(1-3,8) assms(4) by (intro path_insert) auto
  moreover have "set (head # ys) \<subseteq> dom h'" using ys assms(1,3) h'(4) by (auto simp: ring_def)
  moreover have "same_outside (set (head # ys)) h h'"
  proof -
    have "p \<in> set (head # ys)" "n \<in> set (head # ys)" using c(8) ys by auto
    then show ?thesis using ys h'(2-4) by (auto simp: same_outside_def)
  qed
  ultimately show ?thesis using h'(1) unfolding ring_def by blast
qed

lemma list_add_ring:
  assumes "ring h head xs" "new \<in> dom h" "new \<notin> set (head # xs)"
  shows "\<exists>h'. list_add new head h = Some h' \<and> ring h' head (new # xs) \<and> same_outside (set (head # new # xs)) h h'"
proof -
  obtain n vs where v: "xs @ [head] = n # vs" by (cases "xs @ [head]") auto
  obtain x where x: "h head = Some x" using ringD(2) [OF assms(1)] by blast
  have "lh_next x = n" using ring_cyc(4) [OF assms(1), of "[]" head n vs] v nx_the(1) [of h head x, OF x] by simp
  then show ?thesis using insert_between [OF assms(1), of "[]" head n vs new "new # xs"] v x assms(2,3) by (simp add: list_add_def)
qed

lemma list_add_tail_ring:
  assumes "ring h head xs" "new \<in> dom h" "new \<notin> set (head # xs)"
  shows "\<exists>h'. list_add_tail new head h = Some h' \<and> ring h' head (xs @ [new]) \<and> same_outside (set (head # xs @ [new])) h h'"
proof -
  obtain us p where v: "head # xs = us @ [p]" by (cases "head # xs" rule: rev_cases) auto
  then have w: "head # xs @ [head] = us @ p # head # []" "head # (xs @ [new]) @ [head] = us @ p # new # head # []"
    by (metis append.assoc append_Cons append_Nil)+
  obtain x where x: "h head = Some x" using ringD(2) [OF assms(1)] by blast
  have "lh_prev x = p" using ring_cyc(5) [OF assms(1) w(1)] nx_the(2) [of h head x, OF x] by simp
  then show ?thesis using insert_between [OF assms(1) w(1) assms(2,3) w(2)] x by (simp add: list_add_tail_def)
qed

lemma remove_between:
  assumes "ring h head (as @ e # bs)"
  shows "\<exists>x h'. h e = Some x \<and> list_del_between (lh_prev x) (lh_next x) h = Some h' \<and> ring h' head (as @ bs) \<and>
    same_outside (set (head # as @ bs)) h h'"
proof -
  obtain us p where u: "head # as = us @ [p]" by (cases "head # as" rule: rev_cases) auto
  obtain n vs where v: "bs @ [head] = n # vs" by (cases "bs @ [head]") auto
  have c: "head # (as @ e # bs) @ [head] = us @ p # e # n # vs" using u v
    by (metis append.assoc append_Cons append_Nil)
  have c': "head # (as @ bs) @ [head] = us @ p # n # vs" using u v by (metis append.assoc append_Cons append_Nil)
  note r = ringD [OF assms]
  have l: "linked_path (nx h) (pv h) (us @ p # e # n # vs)" using r(4) c by simp
  have d: "distinct (butlast (us @ p # e # n # vs))" "distinct (tl (us @ p # e # n # vs))"
    using r(1) unfolding c [symmetric] by (auto simp: butlast_append)
  note rem = path_remove [OF l d]
  obtain x where x: "h e = Some x" using r(3) [of e] by auto
  then have px: "lh_prev x = p" "lh_next x = n" using rem(2,3) nx_the [of h e x] by simp_all
  have "p \<in> set (head # as)" "n \<in> set (bs @ [head])" using u v by simp_all
  then have pn: "p \<in> set (head # as @ bs)" "n \<in> set (head # as @ bs)" by auto
  then have "p \<in> dom h" "n \<in> dom h" using r(2,3) by auto
  then obtain h' where h': "list_del_between p n h = Some h'" "nx h' = (nx h)(p := n)" "pv h' = (pv h)(n := p)" "dom h' = dom h"
    using list_del_between_eq by blast
  have "ring h' head (as @ bs)"
    unfolding ring_def c' h'(2,3) using rem(1) r(1-3) h'(4) by auto
  moreover have "same_outside (set (head # as @ bs)) h h'" using pn h'(2-4) by (auto simp: same_outside_def)
  ultimately show ?thesis using x px h'(1) by blast
qed

lemma same_outside_trans:
  "same_outside S h h' \<Longrightarrow> same_outside T h' h'' \<Longrightarrow> same_outside (S \<union> T) h h''"
  by (simp add: same_outside_def)

lemma set_fields_outside:
  assumes "e \<in> dom h"
  shows "\<exists>h'. do { h \<leftarrow> set_next e a h; set_prev e b h } = Some h' \<and> same_outside {e} h h' \<and> nx h' e = a \<and> pv h' e = b"
proof -
  obtain h1 where 1: "set_next e a h = Some h1" "nx h1 = (nx h)(e := a)" "pv h1 = pv h" "dom h1 = dom h"
    using set_next_eq [OF assms] by blast
  obtain h2 where "set_prev e b h1 = Some h2" "nx h2 = nx h1" "pv h2 = (pv h1)(e := b)" "dom h2 = dom h1"
    using set_prev_eq [of e h1] assms 1(4) by blast
  then show ?thesis using 1 by (simp add: same_outside_def)
qed

lemma list_del_ring:
  assumes "ring h head (as @ e # bs)"
  shows "\<exists>h'. list_del e h = Some h' \<and> ring h' head (as @ bs) \<and> same_outside (set (head # as @ e # bs)) h h' \<and>
    nx h' e = 0 \<and> pv h' e = 0"
proof -
  obtain x h1 where h1: "h e = Some x" "list_del_between (lh_prev x) (lh_next x) h = Some h1" "ring h1 head (as @ bs)"
    "same_outside (set (head # as @ bs)) h h1"
    using remove_between [OF assms] by blast
  have "e \<in> dom h1" using h1(1,4) by (auto simp: same_outside_def)
  then obtain h2 where h2: "do { h \<leftarrow> set_next e 0 h1; set_prev e 0 h } = Some h2" "same_outside {e} h1 h2" "nx h2 e = 0" "pv h2 e = 0"
    using set_fields_outside by blast
  have "ring h2 head (as @ bs)" using ring_elsewhere [OF h1(3) h2(2)] ringD(1) [OF assms] by auto
  moreover have "same_outside (set (head # as @ e # bs)) h h2" using h1(4) h2(2) by (simp add: same_outside_def)
  ultimately show ?thesis using h1(1,2) h2 by (auto simp: list_del_def)
qed

lemma INIT_LIST_HEAD_ring:
  assumes "e \<in> dom h"
  shows "\<exists>h'. INIT_LIST_HEAD e h = Some h' \<and> ring h' e [] \<and> same_outside {e} h h'"
  using set_fields_outside [OF assms, of e e] assms by (auto simp: INIT_LIST_HEAD_def ring_def same_outside_def)

lemma list_del_init_ring:
  assumes "ring h head (as @ e # bs)"
  shows "\<exists>h'. list_del_init e h = Some h' \<and> ring h' head (as @ bs) \<and> ring h' e [] \<and> same_outside (set (head # as @ e # bs)) h h'"
proof -
  obtain x h1 where h1: "h e = Some x" "list_del_between (lh_prev x) (lh_next x) h = Some h1" "ring h1 head (as @ bs)"
    "same_outside (set (head # as @ bs)) h h1"
    using remove_between [OF assms] by blast
  have "e \<in> dom h1" using h1(1,4) by (auto simp: same_outside_def)
  then obtain h2 where h2: "INIT_LIST_HEAD e h1 = Some h2" "ring h2 e []" "same_outside {e} h1 h2"
    using INIT_LIST_HEAD_ring by blast
  have "ring h2 head (as @ bs)" using ring_elsewhere [OF h1(3) h2(3)] ringD(1) [OF assms] by auto
  moreover have "same_outside (set (head # as @ e # bs)) h h2" using h1(4) h2(3) by (simp add: same_outside_def)
  ultimately show ?thesis using h1(1,2) h2 by (auto simp: list_del_init_def)
qed

lemma list_move_ring:
  assumes "ring h head (as @ e # bs)"
  shows "\<exists>h'. list_move e head h = Some h' \<and> ring h' head (e # as @ bs) \<and> same_outside (set (head # as @ e # bs)) h h'"
    "\<exists>h'. list_move_tail e head h = Some h' \<and> ring h' head (as @ bs @ [e]) \<and> same_outside (set (head # as @ e # bs)) h h'"
proof -
  obtain x h1 where h1: "h e = Some x" "list_del_between (lh_prev x) (lh_next x) h = Some h1" "ring h1 head (as @ bs)"
    "same_outside (set (head # as @ bs)) h h1"
    using remove_between [OF assms] by blast
  have e: "e \<in> dom h1" "e \<notin> set (head # as @ bs)" using h1(1,4) ringD(1) [OF assms] by (auto simp: same_outside_def)
  show "\<exists>h'. list_move e head h = Some h' \<and> ring h' head (e # as @ bs) \<and> same_outside (set (head # as @ e # bs)) h h'"
    using list_add_ring [OF h1(3) e] h1(1,2,4) by (auto simp: list_move_def same_outside_def)
  show "\<exists>h'. list_move_tail e head h = Some h' \<and> ring h' head (as @ bs @ [e]) \<and> same_outside (set (head # as @ e # bs)) h h'"
    using list_add_tail_ring [OF h1(3) e] h1(1,2,4) by (auto simp: list_move_tail_def same_outside_def)
qed

lemma list_empty_ring: "ring h head xs \<Longrightarrow> list_empty head h = Some (xs = [])"
  by (cases xs) (auto simp: list_empty_def ring_def nx_def)

lemma linked_path_inner: "linked_path f g (x # ys @ zs) \<Longrightarrow> linked_path f g ys"
proof (induction ys arbitrary: x)
  case (Cons y ys)
  then have "linked_path f g (y # ys @ zs)" by simp
  then show ?case using Cons.IH by (cases ys) auto
qed simp

lemma path_append:
  assumes "linked_path f g ys" "linked_path f g (z # zs)" "ys \<noteq> []" "f (last ys) = z" "g z = last ys" "f x = hd ys" "g (hd ys) = x"
  shows "linked_path f g (x # ys @ z # zs)"
proof -
  obtain y ys' where y: "ys = y # ys'" using assms(3) by (cases ys) auto
  obtain us l where l: "ys = us @ [l]" using assms(3) by (cases ys rule: rev_cases) auto
  have "linked_path f g (x # ys)" using assms(1,6,7) y by simp
  then have "linked_path f g ((x # us) @ l # z # zs)"
    using assms(2,4,5) linked_path_split [of f g "x # us" l "z # zs"] l by simp
  then show ?thesis using l by simp
qed

lemma list_splice_at_ring:
  assumes "ring h l ys" "ring h head xs" "set (l # ys) \<inter> set (head # xs) = {}" "ys \<noteq> []"
  shows "\<exists>h'. list_splice_at l head h = Some h' \<and> ring h' head (ys @ xs) \<and> same_outside (set (head # ys @ xs)) h h'"
proof -
  note rl = ringD [OF assms(1)] and rh = ringD [OF assms(2)]
  obtain at vs where v: "xs @ [head] = at # vs" by (cases "xs @ [head]") auto
  have lfirst: "nx h l = hd ys" "pv h l = last ys"
  proof -
    show "nx h l = hd ys" using rl(4) assms(4) by (cases ys) auto
    obtain us p where "ys = us @ [p]" using assms(4) by (cases ys rule: rev_cases) auto
    then show "pv h l = last ys" using rl(4) linked_path_split [of "nx h" "pv h" "l # us" p "[l]"] by simp
  qed
  have at: "nx h head = at" using rh(4) v by simp
  obtain xl xh where x: "h l = Some xl" "h head = Some xh" "lh_next xl = hd ys" "lh_prev xl = last ys" "lh_next xh = at"
    using rl(2) rh(2) lfirst at nx_the [of h l] nx_the [of h head] by auto
  have mem: "hd ys \<in> set ys" "last ys \<in> set ys" "at \<in> set (head # xs)" using assms(4) v by (auto, cases xs, auto)
  then have dm: "hd ys \<in> dom h" "last ys \<in> dom h" "at \<in> dom h" using rl(3) rh(2,3) by auto
  obtain h1 where 1: "set_prev (hd ys) head h = Some h1" "nx h1 = nx h" "pv h1 = (pv h)(hd ys := head)" "dom h1 = dom h"
    using set_prev_eq [OF dm(1)] by blast
  obtain h2 where 2: "set_next head (hd ys) h1 = Some h2" "nx h2 = (nx h1)(head := hd ys)" "pv h2 = pv h1" "dom h2 = dom h1"
    using set_next_eq [of head h1] rh(2) 1(4) by blast
  obtain h3 where 3: "set_next (last ys) at h2 = Some h3" "nx h3 = (nx h2)(last ys := at)" "pv h3 = pv h2" "dom h3 = dom h2"
    using set_next_eq [of "last ys" h2] dm(2) 1(4) 2(4) by blast
  obtain h4 where 4: "set_prev at (last ys) h3 = Some h4" "nx h4 = nx h3" "pv h4 = (pv h3)(at := last ys)" "dom h4 = dom h3"
    using set_prev_eq [of at h3] dm(3) 1(4) 2(4) 3(4) by blast
  have nx4: "nx h4 = (nx h)(head := hd ys, last ys := at)" and pv4: "pv h4 = (pv h)(hd ys := head, at := last ys)"
    using 1 2 3 4 by simp_all
  have ne: "x \<noteq> y" if "x \<in> set ys" "y \<in> set (head # xs)" for x y using assms(3) that by auto
  obtain us q where u: "ys = us @ [q]" using assms(4) by (cases ys rule: rev_cases) auto
  obtain y ws where w: "ys = y # ws" using assms(4) by (cases ys) auto
  have "distinct ys" using rl(1) by simp
  then have dys: "last ys \<notin> set (butlast ys)" "hd ys \<notin> set (tl ys)"
    using u by simp (use \<open>distinct ys\<close> w in simp)
  have "distinct (at # vs)" unfolding v [symmetric] using rh(1) by simp
  moreover have "butlast (at # vs) = xs" "set (at # vs) = set (head # xs)" unfolding v [symmetric] by simp_all
  ultimately have dvs: "at \<notin> set vs" "head \<notin> set (butlast (at # vs))" "set (at # vs) = set (head # xs)"
    using rh(1) by simp_all
  have a: "x \<noteq> head \<and> x \<noteq> last ys" if "x \<in> set (butlast ys)" for x using ne [OF in_set_butlastD [OF that]] dys(1) that by auto
  have b: "x \<noteq> hd ys \<and> x \<noteq> at" if "x \<in> set (tl ys)" for x using ne [OF list.set_sel(2) [OF assms(4) that] mem(3)] dys(2) that by auto
  have "linked_path (nx h) (pv h) ys" using linked_path_inner [of "nx h" "pv h" l ys "[l]"] rl(4) by simp
  then have p1: "linked_path (nx h4) (pv h4) ys"
    unfolding nx4 pv4 using a b by (subst linked_path_cong [where f = "nx h" and g = "pv h"]) auto
  have "linked_path (nx h) (pv h) (at # vs)" using rh(4) v by simp
  then have p2: "linked_path (nx h4) (pv h4) (at # vs)"
    unfolding nx4 pv4 using dvs ne mem(1,2)
    by (subst linked_path_cong [where f = "nx h" and g = "pv h"]) (auto dest: in_set_butlastD split: if_splits)
  have "linked_path (nx h4) (pv h4) (head # ys @ at # vs)"
    using ne mem by (intro path_append [OF p1 p2 assms(4)]) (auto simp: nx4 pv4)
  then have "ring h4 head (ys @ xs)"
    using v rl(1,3) rh(1-3) assms(3) 1(4) 2(4) 3(4) 4(4) by (auto simp: ring_def)
  moreover have "same_outside (set (head # ys @ xs)) h h4"
    using mem 1(4) 2(4) 3(4) 4(4) by (auto simp: same_outside_def nx4 pv4)
  ultimately show ?thesis using x 1 2 3 4 by (simp add: list_splice_at_def Let_def)
qed

lemma list_splice_ring:
  assumes "ring h l ys" "ring h head xs" "set (l # ys) \<inter> set (head # xs) = {}"
  shows "\<exists>h'. list_splice l head h = Some h' \<and> ring h' head (ys @ xs)"
    "\<exists>h'. list_splice_init l head h = Some h' \<and> ring h' head (ys @ xs) \<and> ring h' l []"
proof -
  show "\<exists>h'. list_splice l head h = Some h' \<and> ring h' head (ys @ xs)"
    using list_splice_at_ring [OF assms] assms(2) list_empty_ring [OF assms(1)] by (cases "ys = []") (auto simp: list_splice_def)
  show "\<exists>h'. list_splice_init l head h = Some h' \<and> ring h' head (ys @ xs) \<and> ring h' l []"
  proof (cases "ys = []")
    case True
    then show ?thesis using assms list_empty_ring [OF assms(1)] by (simp add: list_splice_init_def)
  next
    case False
    then obtain h1 where h1: "list_splice_at l head h = Some h1" "ring h1 head (ys @ xs)" "same_outside (set (head # ys @ xs)) h h1"
      using list_splice_at_ring [OF assms] by blast
    have "l \<in> dom h1" using ringD(2) [OF assms(1)] h1(3) by (auto simp: same_outside_def)
    then obtain h2 where h2: "INIT_LIST_HEAD l h1 = Some h2" "ring h2 l []" "same_outside {l} h1 h2"
      using INIT_LIST_HEAD_ring by blast
    have "{l} \<inter> set (head # ys @ xs) = {}" using ringD(1) [OF assms(1)] assms(3) by auto
    then show ?thesis
      using h1 h2 False list_empty_ring [OF assms(1)] ring_elsewhere [OF h1(2) h2(3)] by (simp add: list_splice_init_def)
  qed
qed

section \<open>Loops\<close>

lemma ring_nx:
  assumes "ring h head (as @ x # bs)"
  shows "nx h x = hd (bs @ [head])" "pv h x = last (head # as)"
proof -
  have l: "linked_path (nx h) (pv h) ((head # as) @ x # bs @ [head])" using ringD(4) [OF assms] by simp
  then show "nx h x = hd (bs @ [head])"
    using linked_path_split [of "nx h" "pv h" "head # as" x "bs @ [head]"] by (cases bs) auto
  obtain us p where u: "head # as = us @ [p]" by (cases "head # as" rule: rev_cases) auto
  then have "linked_path (nx h) (pv h) (us @ p # x # bs @ [head])" using l by simp
  then show "pv h x = last (head # as)" using u linked_path_split [of "nx h" "pv h" us p "x # bs @ [head]"] by simp
qed

lemma walk_next:
  "ring h head (as @ bs) \<Longrightarrow> walk lh_next head h (hd (bs @ [head])) = Some bs"
proof (induction bs arbitrary: as)
  case Nil
  then show ?case by (subst walk.simps) simp
next
  case (Cons x bs)
  obtain n where n: "h x = Some n" using ringD(3) [OF Cons.prems, of x] by auto
  have "x \<noteq> head" using ringD(1) [OF Cons.prems] by auto
  moreover have "walk lh_next head h (lh_next n) = Some bs"
    using Cons.IH [of "as @ [x]"] Cons.prems ring_nx(1) [OF Cons.prems] nx_the(1) [of h x n, OF n] by simp
  ultimately show ?case using n by (subst walk.simps) simp
qed

lemma walk_prev:
  "ring h head (as @ bs) \<Longrightarrow> walk lh_prev head h (last (head # as)) = Some (rev as)"
proof (induction as arbitrary: bs rule: rev_induct)
  case Nil
  then show ?case by (subst walk.simps) simp
next
  case (snoc x as)
  then have r: "ring h head (as @ x # bs)" by simp
  obtain n where n: "h x = Some n" using ringD(3) [OF r, of x] by auto
  have "x \<noteq> head" using ringD(1) [OF r] by auto
  moreover have "walk lh_prev head h (lh_prev n) = Some (rev as)"
    using snoc.IH [OF r] ring_nx(2) [OF r] nx_the(2) [of h x n, OF n] by simp
  ultimately show ?case using n by (subst walk.simps) simp
qed

lemma list_loops_ring:
  assumes "ring h head xs"
  shows "list_for_each head h = Some xs" "list_for_each_prev head h = Some (rev xs)"
proof -
  obtain n where n: "h head = Some n" using ringD(2) [OF assms] by auto
  have l: "linked_path (nx h) (pv h) (head # xs @ [head])" by (rule ringD(4) [OF assms])
  have "nx h head = hd (xs @ [head])" using l by (cases xs) auto
  then show "list_for_each head h = Some xs"
    using n nx_the(1) [of h head n, OF n] walk_next [of h head "[]" xs] assms by (simp add: list_for_each_def)
  obtain us p where u: "head # xs = us @ [p]" by (cases "head # xs" rule: rev_cases) auto
  then have "linked_path (nx h) (pv h) (us @ p # [head])" using l by (metis append.assoc append_Cons append_Nil)
  then have "pv h head = last (head # xs)" using u linked_path_split [of "nx h" "pv h" us p "[head]"] by simp
  then show "list_for_each_prev head h = Some (rev xs)"
    using n nx_the(2) [of h head n, OF n] walk_prev [of h head xs "[]"] assms by (simp add: list_for_each_prev_def)
qed

text \<open>The safe loop lets its body delete the entry it is at.\<close>

lemma walk_safe_del:
  "ring h head bs \<Longrightarrow> (bs \<noteq> [] \<Longrightarrow> n = nx h (hd bs)) \<Longrightarrow>
   \<exists>h'. walk_safe list_del head h (hd (bs @ [head])) n = Some (bs, h') \<and> ring h' head []"
proof (induction bs arbitrary: h n)
  case Nil
  then show ?case by (subst walk_safe.simps) simp
next
  case (Cons x bs)
  note r = ringD [OF Cons.prems(1)]
  have n: "n = hd (bs @ [head])" using Cons.prems(2) ring_nx(1) [of h head "[]" x bs] Cons.prems(1) by simp
  obtain h1 where h1: "list_del x h = Some h1" "ring h1 head bs" using list_del_ring [of h head "[]" x bs] Cons.prems(1) by auto
  have "n \<in> set (head # bs)" using n by (cases bs) auto
  then obtain y where y: "h1 n = Some y" using ringD(2,3) [OF h1(2)] by auto
  obtain h' where "walk_safe list_del head h1 n (lh_next y) = Some (bs, h')" "ring h' head []"
    using Cons.IH [OF h1(2), of "lh_next y"] n nx_the(1) [of h1 n y, OF y] by (cases bs) auto
  moreover have "x \<noteq> head" using r(1) by auto
  ultimately show ?case using h1(1) y by (subst walk_safe.simps) simp
qed

lemma list_for_each_safe_del:
  assumes "ring h head xs"
  shows "\<exists>h'. list_for_each_safe list_del head h = Some (xs, h') \<and> ring h' head []"
proof -
  obtain n where n: "h head = Some n" using ringD(2) [OF assms] by auto
  have first: "lh_next n = hd (xs @ [head])" using ringD(4) [OF assms] nx_the(1) [of h head n, OF n] by (cases xs) auto
  have "hd (xs @ [head]) \<in> set (head # xs)" by (cases xs) auto
  then obtain y where y: "h (hd (xs @ [head])) = Some y" using ringD(2,3) [OF assms] by auto
  then show ?thesis
    using walk_safe_del [OF assms, of "lh_next y"] nx_the(1) [of h _ y] n first
    by (cases xs) (auto simp: list_for_each_safe_def)
qed

section \<open>Sequences of operations\<close>

datatype lop = Add nat | Add_Tail nat | Del nat | Del_Init nat | Move nat | Move_Tail nat

fun lop_run :: "nat \<Rightarrow> lop \<Rightarrow> lheap \<Rightarrow> lheap option" where
  "lop_run head (Add x) h = list_add x head h"
| "lop_run head (Add_Tail x) h = list_add_tail x head h"
| "lop_run head (Del x) h = list_del x h"
| "lop_run head (Del_Init x) h = list_del_init x h"
| "lop_run head (Move x) h = list_move x head h"
| "lop_run head (Move_Tail x) h = list_move_tail x head h"

fun lops_run :: "nat \<Rightarrow> lop list \<Rightarrow> lheap \<Rightarrow> lheap option" where
  "lops_run head [] h = Some h"
| "lops_run head (x # ops) h = do { h \<leftarrow> lop_run head x h; lops_run head ops h }"

text \<open>
  The same on sequences. New entries have to be allocated and may not be in the list, the others have to be in it.
\<close>

fun lop_spec :: "nat set \<Rightarrow> nat \<Rightarrow> lop \<Rightarrow> nat list \<Rightarrow> nat list option" where
  "lop_spec D head (Add x) xs = (if x \<in> D \<and> x \<notin> set (head # xs) then Some (x # xs) else None)"
| "lop_spec D head (Add_Tail x) xs = (if x \<in> D \<and> x \<notin> set (head # xs) then Some (xs @ [x]) else None)"
| "lop_spec D head (Del x) xs = (if x \<in> set xs then Some (remove1 x xs) else None)"
| "lop_spec D head (Del_Init x) xs = (if x \<in> set xs then Some (remove1 x xs) else None)"
| "lop_spec D head (Move x) xs = (if x \<in> set xs then Some (x # remove1 x xs) else None)"
| "lop_spec D head (Move_Tail x) xs = (if x \<in> set xs then Some (remove1 x xs @ [x]) else None)"

fun lops_spec :: "nat set \<Rightarrow> nat \<Rightarrow> lop list \<Rightarrow> nat list \<Rightarrow> nat list option" where
  "lops_spec D head [] xs = Some xs"
| "lops_spec D head (x # ops) xs = do { xs \<leftarrow> lop_spec D head x xs; lops_spec D head ops xs }"

lemma lop_refines:
  assumes "ring h head xs" "lop_spec (dom h) head x xs = Some ys"
  shows "\<exists>h'. lop_run head x h = Some h' \<and> ring h' head ys \<and> dom h' = dom h"
proof -
  have s: "\<exists>as bs. xs = as @ e # bs \<and> remove1 e xs = as @ bs" if e: "e \<in> set xs" for e
  proof -
    obtain as bs where "xs = as @ e # bs" "e \<notin> set as" using split_list_first [OF e] by blast
    then show ?thesis by (intro exI [of _ as] exI [of _ bs]) (simp add: remove1_append)
  qed
  show ?thesis
  proof (cases x)
    case (Add e)
    then show ?thesis using assms list_add_ring [OF assms(1), of e] by (auto simp: same_outside_def split: if_splits)
  next
    case (Add_Tail e)
    then show ?thesis using assms list_add_tail_ring [OF assms(1), of e] by (auto simp: same_outside_def split: if_splits)
  next
    case (Del e)
    then obtain as bs where "xs = as @ e # bs" "ys = as @ bs" using assms(2) s by (auto split: if_splits)
    then show ?thesis using Del list_del_ring [of h head as e bs] assms(1) by (auto simp: same_outside_def)
  next
    case (Del_Init e)
    then obtain as bs where "xs = as @ e # bs" "ys = as @ bs" using assms(2) s by (auto split: if_splits)
    then show ?thesis using Del_Init list_del_init_ring [of h head as e bs] assms(1) by (auto simp: same_outside_def)
  next
    case (Move e)
    then obtain as bs where "xs = as @ e # bs" "ys = e # as @ bs" using assms(2) s by (auto split: if_splits)
    then show ?thesis using Move list_move_ring(1) [of h head as e bs] assms(1) by (auto simp: same_outside_def)
  next
    case (Move_Tail e)
    then have e: "e \<in> set xs" "ys = remove1 e xs @ [e]" using assms(2) by (simp_all split: if_splits)
    then obtain as bs where "xs = as @ e # bs" "ys = as @ bs @ [e]" using s [OF e(1)] by auto
    then show ?thesis using Move_Tail list_move_ring(2) [of h head as e bs] assms(1) by (auto simp: same_outside_def)
  qed
qed

lemma lops_refine:
  "ring h head xs \<Longrightarrow> lops_spec (dom h) head ops xs = Some ys \<Longrightarrow> \<exists>h'. lops_run head ops h = Some h' \<and> ring h' head ys"
proof (induction ops arbitrary: h xs)
  case (Cons x ops)
  obtain zs where z: "lop_spec (dom h) head x xs = Some zs" "lops_spec (dom h) head ops zs = Some ys"
    using Cons.prems(2) by (auto split: Option.bind_splits)
  obtain h1 where "lop_run head x h = Some h1" "ring h1 head zs" "dom h1 = dom h"
    using lop_refines [OF Cons.prems(1) z(1)] by blast
  then show ?case using Cons.IH [of h1 zs] z(2) by auto
qed simp

section \<open>Properties\<close>


definition demo_lheap :: lheap where
  "demo_lheap = [1 \<mapsto> \<lparr>lh_next = 1, lh_prev = 1\<rparr>, 2 \<mapsto> \<lparr>lh_next = 0, lh_prev = 0\<rparr>, 3 \<mapsto> \<lparr>lh_next = 0, lh_prev = 0\<rparr>]"


end
