(* ===== verification/Statuses.thy ===== *)
theory Statuses
  imports Sds
begin

text \<open>
  Slices and statuses, \<^verbatim>\<open>src/src/util/slice.h\<close>, \<^verbatim>\<open>src/src/util/status.h\<close> and \<^verbatim>\<open>status.cpp\<close>. A slice
  refers to bytes of a storage that begins at \<open>buffer_\<close>. A status is a null pointer or a block with the
  length of a message, a code of two bytes and the message; shown are the order \<open>compare\<close> decides, that a
  status gives back the code and the message it was built from, and that a copy is equal.
\<close>

section \<open>Slices\<close>

(* src/src/util/slice.h:97-100, Slice *)
record slice_t =
  sl_mem :: string
  sl_data :: nat
  sl_size :: nat

(* src/src/util/slice.h:28-28, Slice::Slice *)
definition Slice_empty :: slice_t where
  "Slice_empty = \<lparr>sl_mem = [NUL], sl_data = 0, sl_size = 0\<rparr>"

(* src/src/util/slice.h:31-31, Slice::Slice *)
definition Slice_of :: "string \<Rightarrow> nat \<Rightarrow> slice_t" where
  "Slice_of d n = \<lparr>sl_mem = d, sl_data = 0, sl_size = n\<rparr>"

(* src/src/util/slice.h:34-34, Slice::Slice *)
definition Slice_string :: "string \<Rightarrow> slice_t" where
  "Slice_string s = \<lparr>sl_mem = s @ [NUL], sl_data = 0, sl_size = length s\<rparr>"

(* src/src/util/slice.h:37-37, Slice::Slice *)
definition Slice_cstr :: "string \<Rightarrow> slice_t" where
  "Slice_cstr s = \<lparr>sl_mem = s, sl_data = 0, sl_size = length (cstr s)\<rparr>"

(* src/src/util/slice.h:45-47, Slice::data *)
definition slice_bytes :: "slice_t \<Rightarrow> nat \<Rightarrow> string option" where
  "slice_bytes s n = load_at (sl_mem s) (sl_data s) n"

(* src/src/util/slice.h:55-57, Slice::empty *)
definition slice_is_empty :: "slice_t \<Rightarrow> bool" where
  "slice_is_empty s = (sl_size s = 0)"

text \<open>A failed assertion ends the process.\<close>

(* src/src/util/slice.h:61-64, Slice::operator[] *)
definition slice_at :: "slice_t \<Rightarrow> nat \<Rightarrow> char option" where
  "slice_at s n = (if n < sl_size s then peek (sl_mem s) (sl_data s + n) else None)"

(* src/src/util/slice.h:67-71, Slice::clear *)
definition slice_clear :: "slice_t \<Rightarrow> slice_t" where
  "slice_clear s = s\<lparr>sl_mem := [NUL], sl_data := 0, sl_size := 0\<rparr>"

(* src/src/util/slice.h:74-78, Slice::remove_prefix *)
definition remove_prefix :: "slice_t \<Rightarrow> nat \<Rightarrow> slice_t option" where
  "remove_prefix s n = (if n \<le> sl_size s then Some (s\<lparr>sl_data := sl_data s + n, sl_size := sl_size s - n\<rparr>) else None)"

(* src/src/util/slice.h:81-83, Slice::to_string *)
definition slice_to_string :: "slice_t \<Rightarrow> string option" where
  "slice_to_string s = slice_bytes s (sl_size s)"

definition slice_memcmp :: "slice_t \<Rightarrow> slice_t \<Rightarrow> nat \<Rightarrow> int option" where
  "slice_memcmp x y n = do { a \<leftarrow> slice_bytes x n; b \<leftarrow> slice_bytes y n; Some (memcmp_sgn a b) }"

text \<open>The length that is compared goes through an \<open>int\<close> and back to \<open>size_t\<close>.\<close>

(* src/src/util/slice.h:114-125, Slice::compare *)
definition slice_compare :: "slice_t \<Rightarrow> slice_t \<Rightarrow> int option" where
  "slice_compare x y = do {
     let min_len = s32 (int (if sl_size x < sl_size y then sl_size x else sl_size y));
     r \<leftarrow> slice_memcmp x y (nat (u64 min_len));
     Some (if r = 0 then (if sl_size x < sl_size y then -1 else if sl_size x > sl_size y then 1 else r) else r) }"

(* src/src/util/slice.h:92-95, Slice::starts_with *)
definition starts_with :: "slice_t \<Rightarrow> slice_t \<Rightarrow> bool option" where
  "starts_with s x = (if sl_size s \<ge> sl_size x then do { r \<leftarrow> slice_memcmp s x (sl_size x); Some (r = 0) } else Some False)"

(* src/src/util/slice.h:105-108, operator== *)
definition slice_eq :: "slice_t \<Rightarrow> slice_t \<Rightarrow> bool option" where
  "slice_eq x y = (if sl_size x = sl_size y then do { r \<leftarrow> slice_memcmp x y (sl_size x); Some (r = 0) } else Some False)"

(* src/src/util/slice.h:110-112, operator!= *)
definition slice_neq :: "slice_t \<Rightarrow> slice_t \<Rightarrow> bool option" where
  "slice_neq x y = map_option Not (slice_eq x y)"

section \<open>Statuses\<close>

(* src/src/util/status.h:14-33, Status::Code *)
datatype code = kOk | kBadRequest | kUnauthorized | kForbidden | kNotFound | kUnknownMethod | kRequestTimeout
  | kEntityTooLarge | kUnsupportedType | kTooManyRequests | kInternalError | kNotImplemented
  | kServiceUnavailable | kServiceTimeout | kVersionNotSupported

fun code_num :: "code \<Rightarrow> nat" where
  "code_num kOk = 0"
| "code_num kBadRequest = 400"
| "code_num kUnauthorized = 401"
| "code_num kForbidden = 403"
| "code_num kNotFound = 404"
| "code_num kUnknownMethod = 405"
| "code_num kRequestTimeout = 408"
| "code_num kEntityTooLarge = 413"
| "code_num kUnsupportedType = 415"
| "code_num kTooManyRequests = 429"
| "code_num kInternalError = 500"
| "code_num kNotImplemented = 501"
| "code_num kServiceUnavailable = 503"
| "code_num kServiceTimeout = 504"
| "code_num kVersionNotSupported = 505"

type_synonym status = "string option"

(* src/src/util/status.h:37-37, Status::Status *)
definition Status_ok :: status where
  "Status_ok = None"

text \<open>
  The lengths are unsigned integers of 32 bits. \<open>new\<close> throws when there is no memory, which nothing
  catches.
\<close>

(* src/src/util/status.cpp:15-33, Status::Status *)
definition Status_new :: "allocator \<Rightarrow> code \<Rightarrow> slice_t \<Rightarrow> slice_t \<Rightarrow> status option" where
  "Status_new a code msg msg2 =
     (if code = kOk then None
      else do {
        let len1 = nat (u32 (int (sl_size msg)));
        let len2 = nat (u32 (int (sl_size msg2)));
        let sz = nat (u32 (int (len1 + (if len2 \<noteq> 0 then 2 + len2 else 0))));
        r \<leftarrow> malloc_block a (nat (u32 (int (sz + 7))));
        r \<leftarrow> store_at r 0 (le_bytes 4 sz);
        r \<leftarrow> store_at r 4 (le_bytes 2 (code_num code));
        m \<leftarrow> slice_bytes msg len1;
        r \<leftarrow> store_at r 6 m;
        r \<leftarrow> (if len2 \<noteq> 0 then do {
               r \<leftarrow> poke r (6 + len1) (CHR '':'');
               r \<leftarrow> poke r (7 + len1) (CHR '' '');
               m2 \<leftarrow> slice_bytes msg2 len2;
               store_at r (8 + len1) m2 }
             else Some r);
        r \<leftarrow> poke r (sz + 6) NUL;
        Some (Some r) })"

(* src/src/util/status.h:47-49, Status::BadRequest *)
definition BadRequest where "BadRequest a = Status_new a kBadRequest"
(* src/src/util/status.h:51-53, Status::Unauthorized *)
definition Unauthorized where "Unauthorized a = Status_new a kUnauthorized"
(* src/src/util/status.h:55-57, Status::Forbidden *)
definition Forbidden where "Forbidden a = Status_new a kForbidden"
(* src/src/util/status.h:59-61, Status::NotFound *)
definition NotFound where "NotFound a = Status_new a kNotFound"
(* src/src/util/status.h:63-65, Status::UnknownMethod *)
definition UnknownMethod where "UnknownMethod a = Status_new a kUnknownMethod"
(* src/src/util/status.h:67-69, Status::RequestTimeout *)
definition RequestTimeout where "RequestTimeout a = Status_new a kRequestTimeout"
(* src/src/util/status.h:71-73, Status::EntityTooLarge *)
definition EntityTooLarge where "EntityTooLarge a = Status_new a kEntityTooLarge"
(* src/src/util/status.h:75-77, Status::UnsupportedType *)
definition UnsupportedType where "UnsupportedType a = Status_new a kUnsupportedType"
(* src/src/util/status.h:79-81, Status::TooManyRequest *)
definition TooManyRequest where "TooManyRequest a = Status_new a kTooManyRequests"
(* src/src/util/status.h:83-85, Status::InternalError *)
definition InternalError where "InternalError a = Status_new a kInternalError"
(* src/src/util/status.h:87-89, Status::NotImplemented *)
definition NotImplemented where "NotImplemented a = Status_new a kNotImplemented"
(* src/src/util/status.h:91-94, Status::ServiceUnavailable *)
definition ServiceUnavailable where "ServiceUnavailable a = Status_new a kServiceUnavailable"
(* src/src/util/status.h:96-98, Status::ServiceTimeout *)
definition ServiceTimeout where "ServiceTimeout a = Status_new a kServiceTimeout"
(* src/src/util/status.h:99-102, Status::VersionNotSupported *)
definition VersionNotSupported where "VersionNotSupported a = Status_new a kVersionNotSupported"

(* src/src/util/status.h:104-104, Status::ok *)
definition status_is_ok :: "status \<Rightarrow> bool" where
  "status_is_ok s = (s = None)"

text \<open>The code as a number: two bytes of the block.\<close>

(* src/src/util/status.h:128-136, Status::code *)
definition status_code :: "status \<Rightarrow> nat option" where
  "status_code s = (case s of None \<Rightarrow> Some (code_num kOk) | Some b \<Rightarrow> map_option le_nat (load_at b 4 2))"

definition has_code :: "code \<Rightarrow> status \<Rightarrow> bool option" where
  "has_code c s = map_option (\<lambda>n. n = code_num c) (status_code s)"

(* src/src/util/status.h:106-106, Status::isBadRequest *)
definition isBadRequest where "isBadRequest = has_code kBadRequest"
(* src/src/util/status.h:108-108, Status::isForbidden *)
definition isForbidden where "isForbidden = has_code kForbidden"
(* src/src/util/status.h:110-110, Status::isNotFound *)
definition isNotFound where "isNotFound = has_code kNotFound"
(* src/src/util/status.h:112-112, Status::isUnknownMethod *)
definition isUnknownMethod where "isUnknownMethod = has_code kUnknownMethod"
(* src/src/util/status.h:114-114, Status::isEntityTooLarge *)
definition isEntityTooLarge where "isEntityTooLarge = has_code kEntityTooLarge"
(* src/src/util/status.h:116-116, Status::isUnsupportedType *)
definition isUnsupportedType where "isUnsupportedType = has_code kUnsupportedType"
(* src/src/util/status.h:118-118, Status::isInternalError *)
definition isInternalError where "isInternalError = has_code kInternalError"
(* src/src/util/status.h:120-120, Status::isVersionNotSupported *)
definition isVersionNotSupported where "isVersionNotSupported = has_code kVersionNotSupported"

(* src/src/util/status.cpp:6-13, Status::CopyState *)
definition CopyState :: "allocator \<Rightarrow> string \<Rightarrow> string option" where
  "CopyState a state = do {
     sz \<leftarrow> map_option le_nat (load_at state 0 4);
     r \<leftarrow> malloc_block a (nat (u32 (int (sz + 7))));
     m \<leftarrow> load_at state 0 (nat (u32 (int (sz + 6))));
     r \<leftarrow> store_at r 0 m;
     poke r (nat (u32 (int (sz + 6)))) NUL }"

(* src/src/util/status.h:153-155, Status::Status *)
definition Status_copy :: "allocator \<Rightarrow> status \<Rightarrow> status option" where
  "Status_copy a s = (case s of None \<Rightarrow> Some None | Some b \<Rightarrow> map_option Some (CopyState a b))"

text \<open>\<open>alias\<close> says whether both pointers are the same block.\<close>

(* src/src/util/status.h:156-164, Status::operator= *)
definition Status_assign :: "allocator \<Rightarrow> bool \<Rightarrow> status \<Rightarrow> status \<Rightarrow> status option" where
  "Status_assign a alias self s = (if alias \<or> self = None \<and> s = None then Some self else Status_copy a s)"

(* src/src/util/status.cpp:41-93, Status::toString *)
definition status_type :: "nat \<Rightarrow> string" where
  "status_type c =
     (if c = 0 then ''OK''
      else if c = 400 then ''Bad Request: ''
      else if c = 401 then ''Unauthorized: ''
      else if c = 403 then ''Forbidden: ''
      else if c = 404 then ''Not Found: ''
      else if c = 405 then ''Unknown Method: ''
      else if c = 408 then ''Request Timeout: ''
      else if c = 413 then ''Entity Too Large: ''
      else if c = 415 then ''Unsupported Type: ''
      else if c = 429 then ''Too Many Requests: ''
      else if c = 500 then ''Internal Error: ''
      else if c = 501 then ''Not Implemented: ''
      else if c = 503 then ''Service Unavailable: ''
      else if c = 504 then ''Service Timeout: ''
      else if c = 505 then ''Version Not Supported: ''
      else take 29 (''Unknown code('' @ dec_str c @ ''): ''))"

(* src/src/util/status.cpp:35-99, Status::toString *)
definition status_toString :: "status \<Rightarrow> string option" where
  "status_toString s =
     (case s of
        None \<Rightarrow> Some ''OK''
      | Some b \<Rightarrow> do {
          c \<leftarrow> status_code s;
          n \<leftarrow> map_option le_nat (load_at b 0 4);
          m \<leftarrow> load_at b 6 n;
          Some (status_type c @ m) })"

section \<open>Order of slices\<close>

definition slice_ok :: "slice_t \<Rightarrow> bool" where
  "slice_ok s \<longleftrightarrow> sl_data s + sl_size s \<le> length (sl_mem s)"

definition slice_val :: "slice_t \<Rightarrow> string" where
  "slice_val s = take (sl_size s) (drop (sl_data s) (sl_mem s))"

lemma slice_string_ok: "slice_ok (Slice_string s)" "slice_val (Slice_string s) = s" "sl_size (Slice_string s) = length s"
  by (simp_all add: slice_ok_def slice_val_def Slice_string_def)

lemma slice_bytes_ok: "slice_ok s \<Longrightarrow> n \<le> sl_size s \<Longrightarrow> slice_bytes s n = Some (take n (slice_val s))"
  by (simp add: slice_ok_def slice_bytes_def slice_val_def)

lemma length_slice_val: "slice_ok s \<Longrightarrow> length (slice_val s) = sl_size s"
  by (simp add: slice_ok_def slice_val_def)

lemma slice_memcmp_ok:
  "slice_ok x \<Longrightarrow> slice_ok y \<Longrightarrow> n \<le> sl_size x \<Longrightarrow> n \<le> sl_size y \<Longrightarrow>
   slice_memcmp x y n = Some (memcmp_sgn (take n (slice_val x)) (take n (slice_val y)))"
  by (simp add: slice_memcmp_def slice_bytes_ok)

lemma memcmp_sgn_0: "length x = length y \<Longrightarrow> memcmp_sgn x y = 0 \<longleftrightarrow> x = y"
  by (induction x y rule: memcmp_sgn.induct) (auto split: if_splits)

lemma slice_compare_sgn:
  assumes "slice_ok x" "slice_ok y" "sl_size x < 2 ^ 31" "sl_size y < 2 ^ 31"
  shows "slice_compare x y = Some (sgn (cmp_bytes (slice_val x) (slice_val y)))"
proof -
  let ?m = "min (sl_size x) (sl_size y)"
  have m: "nat (u64 (s32 (int (if sl_size x < sl_size y then sl_size x else sl_size y)))) = ?m"
    using assms(3,4) by (simp add: min_def)
  have r: "slice_memcmp x y ?m = Some (memcmp_sgn (take ?m (slice_val x)) (take ?m (slice_val y)))"
    using assms by (intro slice_memcmp_ok) auto
  have "sgn (memcmp_sgn u v) = memcmp_sgn u v" for u v by (induction u v rule: memcmp_sgn.induct) auto
  then show ?thesis using m r assms(1,2) by (simp add: slice_compare_def cmp_bytes_def Let_def length_slice_val)
qed

lemma slice_eq_ok: "slice_ok x \<Longrightarrow> slice_ok y \<Longrightarrow> slice_eq x y = Some (slice_val x = slice_val y)"
  using memcmp_sgn_0 [of "slice_val x" "slice_val y"]
  by (auto simp: slice_eq_def slice_memcmp_ok length_slice_val [symmetric])

lemma starts_with_ok:
  assumes "slice_ok s" "slice_ok x"
  shows "starts_with s x = Some (take (sl_size x) (slice_val s) = slice_val x)"
proof (cases "sl_size x \<le> sl_size s")
  case True
  then show ?thesis
    using assms memcmp_sgn_0 [of "take (sl_size x) (slice_val s)" "slice_val x"]
    by (simp add: starts_with_def slice_memcmp_ok length_slice_val)
next
  case False
  moreover have "take (sl_size x) (slice_val s) \<noteq> slice_val x"
    using False assms length_slice_val [OF assms(1)] length_slice_val [OF assms(2)] by (metis length_take min.commute min_def nat_le_linear)
  ultimately show ?thesis by (simp add: starts_with_def)
qed

lemma remove_prefix_ok:
  "slice_ok s \<Longrightarrow> n \<le> sl_size s \<Longrightarrow>
   \<exists>s'. remove_prefix s n = Some s' \<and> slice_ok s' \<and> slice_val s' = drop n (slice_val s)"
  by (auto simp: remove_prefix_def slice_ok_def slice_val_def drop_take add.commute)

section \<open>The block of a status\<close>

text \<open>A block that is filled from its beginning.\<close>

definition filled :: "'a list \<Rightarrow> 'a list \<Rightarrow> 'a list" where
  "filled r xs = xs @ drop (length xs) r"

lemma filled_Nil: "r = filled r []"
  by (simp add: filled_def)

lemma filled_store:
  "length xs + length s \<le> length r \<Longrightarrow> i = length xs \<Longrightarrow> store_at (filled r xs) i s = Some (filled r (xs @ s))"
  by (simp add: filled_def blit_def add.commute)

lemma filled_poke:
  assumes "length xs < length r" "i = length xs"
  shows "poke (filled r xs) i c = Some (filled r (xs @ [c]))"
proof -
  have "drop (length xs) r = r ! length xs # drop (Suc (length xs)) r" using assms(1) by (simp add: Cons_nth_drop_Suc)
  then show ?thesis using assms by (simp add: filled_def poke_def list_update_append)
qed

lemma filled_all: "length xs = length r \<Longrightarrow> filled r xs = xs"
  by (simp add: filled_def)

definition status_text :: "string \<Rightarrow> string \<Rightarrow> string" where
  "status_text m m2 = m @ (if m2 = [] then [] else '': '' @ m2)"

definition status_block :: "code \<Rightarrow> string \<Rightarrow> string" where
  "status_block c t = le_bytes 4 (length t) @ le_bytes 2 (code_num c) @ t @ [NUL]"

lemma Status_new_block:
  assumes "mem_ok a" "slice_ok msg" "slice_ok msg2" "c \<noteq> kOk" "sl_size msg + sl_size msg2 + 9 < 2 ^ 32"
  shows "Status_new a c msg msg2 = Some (Some (status_block c (status_text (slice_val msg) (slice_val msg2))))"
proof -
  define t n where "t = status_text (slice_val msg) (slice_val msg2)" and "n = length t"
  have len: "length (slice_val msg) = sl_size msg" "length (slice_val msg2) = sl_size msg2"
    using length_slice_val assms(2,3) by auto
  have e2: "(slice_val msg2 = []) = (sl_size msg2 = 0)" using len(2) by (metis length_0_conv)
  have n: "n = sl_size msg + (if sl_size msg2 \<noteq> 0 then 2 + sl_size msg2 else 0)"
    using len e2 by (simp add: n_def t_def status_text_def)
  have u: "u32 (int (sl_size msg)) = int (sl_size msg)" "u32 (int (sl_size msg2)) = int (sl_size msg2)"
    "u32 (int n) = int n" "u32 (int (n + 7)) = int (n + 7)" using assms(5) n by auto
  have v: "nat (u32 (int (nat (u32 (int (sl_size msg))) + (if nat (u32 (int (sl_size msg2))) \<noteq> 0
      then 2 + nat (u32 (int (sl_size msg2))) else 0)))) = n"
    unfolding u(1,2) nat_int n [symmetric] u(3) ..
  obtain r where r: "malloc_block a (n + 7) = Some r" "length r = n + 7" using malloc_block_ok [OF assms(1)] by blast
  define h where "h = le_bytes 4 n @ le_bytes 2 (code_num c)"
  have h: "length h = 6" by (simp add: h_def)
  have "store_at r 0 (le_bytes 4 n) = Some (filled r (le_bytes 4 n))"
    using filled_store [of "[]" "le_bytes 4 n" r 0] filled_Nil [of r] r(2) by simp
  moreover have "store_at (filled r (le_bytes 4 n)) 4 (le_bytes 2 (code_num c)) = Some (filled r h)"
    unfolding h_def using r(2) by (intro filled_store) auto
  moreover have "store_at (filled r h) 6 (slice_val msg) = Some (filled r (h @ slice_val msg))"
    using r(2) n len h by (intro filled_store) auto
  ultimately have s: "Status_new a c msg msg2 = do {
      r \<leftarrow> (if sl_size msg2 \<noteq> 0 then do {
               r \<leftarrow> poke (filled r (h @ slice_val msg)) (6 + sl_size msg) (CHR '':'');
               r \<leftarrow> poke r (7 + sl_size msg) (CHR '' '');
               m2 \<leftarrow> slice_bytes msg2 (sl_size msg2);
               store_at r (8 + sl_size msg) m2 }
             else Some (filled r (h @ slice_val msg)));
      r \<leftarrow> poke r (n + 6) NUL;
      Some (Some r) }"
    unfolding Status_new_def Let_def v using assms(4) slice_bytes_ok [OF assms(2), of "sl_size msg"] r(1) u len
    by (simp del: of_nat_add store_at_ok)
  have "(if sl_size msg2 \<noteq> 0 then do {
               r \<leftarrow> poke (filled r (h @ slice_val msg)) (6 + sl_size msg) (CHR '':'');
               r \<leftarrow> poke r (7 + sl_size msg) (CHR '' '');
               m2 \<leftarrow> slice_bytes msg2 (sl_size msg2);
               store_at r (8 + sl_size msg) m2 }
             else Some (filled r (h @ slice_val msg))) = Some (filled r (h @ t))"
    using r(2) n len e2 h slice_bytes_ok [OF assms(3), of "sl_size msg2"]
    by (simp add: filled_poke filled_store t_def status_text_def)
  moreover have "poke (filled r (h @ t)) (n + 6) NUL = Some (filled r ((h @ t) @ [NUL]))"
    using r(2) h by (intro filled_poke) (auto simp: n_def)
  moreover have "filled r ((h @ t) @ [NUL]) = status_block c t"
    using r(2) h by (subst filled_all) (auto simp: n_def h_def status_block_def)
  ultimately show ?thesis unfolding s by (simp add: t_def)
qed

lemma block_reads:
  assumes "length t + 7 < 2 ^ 32"
  shows "status_code (Some (status_block c t)) = Some (code_num c)"
    "map_option le_nat (load_at (status_block c t) 0 4) = Some (length t)" "load_at (status_block c t) 6 (length t) = Some t"
proof -
  have "code_num c < 256 ^ 2" by (cases c) simp_all
  then show "status_code (Some (status_block c t)) = Some (code_num c)"
    by (simp add: status_code_def status_block_def le_nat_bytes_id)
  show "map_option le_nat (load_at (status_block c t) 0 4) = Some (length t)"
    using assms by (simp add: status_block_def le_nat_bytes_id)
  show "load_at (status_block c t) 6 (length t) = Some t" by (simp add: status_block_def)
qed

lemma code_num_inj: "code_num c = code_num d \<longleftrightarrow> c = d"
  by (cases c; cases d) simp_all

lemma CopyState_block:
  assumes "mem_ok a" "length t + 7 < 2 ^ 32"
  shows "CopyState a (status_block c t) = Some (status_block c t)"
proof -
  obtain r where r: "malloc_block a (length t + 7) = Some r" "length r = length t + 7" using malloc_block_ok [OF assms(1)] by blast
  let ?h = "le_bytes 4 (length t) @ le_bytes 2 (code_num c) @ t"
  have l: "load_at (status_block c t) 0 (length t + 6) = Some ?h" by (simp add: status_block_def)
  have "store_at r 0 ?h = Some (filled r ?h)" using filled_store [of "[]" ?h r 0] filled_Nil [of r] r(2) by simp
  moreover have "poke (filled r ?h) (length t + 6) NUL = Some (filled r (?h @ [NUL]))" using r(2) by (intro filled_poke) auto
  moreover have "filled r (?h @ [NUL]) = status_block c t" using r(2) by (subst filled_all) (auto simp: status_block_def)
  moreover have "u32 (int (length t + 7)) = int (length t + 7)" "u32 (int (length t + 6)) = int (length t + 6)" using assms(2) by auto
  ultimately show ?thesis
    unfolding CopyState_def block_reads(2) [OF assms(2)] using r(1) l by (simp del: of_nat_add store_at_ok load_at_ok)
qed

section \<open>Properties\<close>

text \<open>
  C21: a status built from a code and one or two messages answers with this code and with no other, is
  printed as the name of the code followed by the messages with \<open>": "\<close> between them, and a copy of it is the
  same block; all of this for messages that are together shorter than the 32 bits of the length field
  allow.
\<close>

theorem status_keeps_code_and_message:
  assumes "mem_ok a" "slice_ok msg" "slice_ok msg2" "c \<noteq> kOk" "sl_size msg + sl_size msg2 + 9 < 2 ^ 32"
  shows "\<exists>b. Status_new a c msg msg2 = Some (Some b) \<and> \<not> status_is_ok (Some b) \<and> has_code d (Some b) = Some (d = c) \<and>
    status_toString (Some b) = Some (status_type (code_num c) @ status_text (slice_val msg) (slice_val msg2)) \<and>
    Status_copy a (Some b) = Some (Some b)"
proof -
  let ?t = "status_text (slice_val msg) (slice_val msg2)"
  have l: "length ?t + 7 < 2 ^ 32"
    using assms(5) length_slice_val [OF assms(2)] length_slice_val [OF assms(3)] by (auto simp: status_text_def)
  show ?thesis
    using Status_new_block [OF assms] block_reads [OF l, of c] CopyState_block [OF assms(1) l, of c] code_num_inj [of c d]
    by (intro exI [of _ "status_block c ?t"])
      (auto simp: status_is_ok_def has_code_def status_toString_def Status_copy_def)
qed

theorem status_keeps_code_and_message_witness:
  "\<exists>b. Status_new demo_mem kNotFound (Slice_string ''key'') (Slice_string ''a'') = Some (Some b) \<and>
     isNotFound (Some b) = Some True \<and> status_toString (Some b) = Some ''Not Found: key: a''"
proof -
  have "status_type (code_num kNotFound) @ status_text ''key'' ''a'' = ''Not Found: key: a''" by code_simp
  then show ?thesis
    using status_keeps_code_and_message [OF demo_mem_ok slice_string_ok(1) [of "''key''"] slice_string_ok(1) [of "''a''"], of kNotFound kNotFound]
    by (auto simp: slice_string_ok isNotFound_def)
qed

end
