(* ===== verification/Url_Snprintf.thy ===== *)
theory Url_Snprintf
  imports Sds_Text
begin

text \<open>
  The formatted output with percent-encoding of \<^verbatim>\<open>src/src/util/url_snprintf.cpp\<close>. The bytes that are
  written form one sequence from the beginning of the buffer, so the state of the printer is this
  sequence and the number of bytes that are left (\<open>size\<close>); the buffer itself appears when the sequence and
  the final zero byte are stored. Floating-point arithmetic is a parameter (\<open>fpops\<close>), and so is the
  list of variable arguments: an integer argument is the 64-bit register it is passed in, of which
  \<open>va_arg\<close> takes the low bits. An argument of the wrong class, a read behind the format string and a loop
  that does not end are \<open>None\<close>.
\<close>

section \<open>Bytes\<close>

abbreviation (input) HEXDIGITS :: string where "HEXDIGITS \<equiv> ''0123456789ABCDEF''"
abbreviation (input) hexdigits :: string where "hexdigits \<equiv> ''0123456789abcdef''"

type_synonym ust = "string \<times> nat"

(* src/src/util/url_snprintf.cpp:35-100, _put *)
definition unreserved :: "char \<Rightarrow> bool" where
  "unreserved c \<longleftrightarrow> c \<in> set ''ABCDEFGHIJKLMNOPQRSTUVWXYZabcdefghijklmnopqrstuvwxyz0123456789-._~''"

definition byte_of :: "int \<Rightarrow> char" where
  "byte_of i = char_of (nat (i mod 256))"

(* src/src/util/url_snprintf.cpp:32-123, _put *)
definition url_put :: "char \<Rightarrow> ust \<Rightarrow> ust" where
  "url_put c st = (case st of (out, sz) \<Rightarrow>
     if unreserved c then (if sz > 0 then (out @ [c], sz - 1) else (out, sz))
     else if sz = 0 then (out, 0)
     else if sz = 1 then (out @ ''%'', 0)
     else if sz = 2 then (out @ ''%'' @ [byte_of (int (ord c div 16) + 48)], 0)
     else (out @ ''%'' @ [HEXDIGITS ! (ord c div 16), HEXDIGITS ! (ord c mod 16)], sz - 3))"

fun url_put_n :: "nat \<Rightarrow> char \<Rightarrow> ust \<Rightarrow> ust" where
  "url_put_n 0 c st = st"
| "url_put_n (Suc k) c st = url_put_n k c (url_put c st)"

section \<open>Arguments and conversion specifications\<close>

datatype 'd varg = VI int | VD 'd | VS string

type_synonym 'd vargs = "'d varg list"

fun va_int :: "(int \<Rightarrow> int) \<Rightarrow> 'd vargs \<Rightarrow> (int \<times> 'd vargs) option" where
  "va_int conv (VI i # vl) = Some (conv i, vl)"
| "va_int conv _ = None"

fun va_str :: "'d vargs \<Rightarrow> (string \<times> 'd vargs) option" where
  "va_str (VS s # vl) = Some (cstr s, vl)"
| "va_str _ = None"

fun va_double :: "'d vargs \<Rightarrow> ('d \<times> 'd vargs) option" where
  "va_double (VD d # vl) = Some (d, vl)"
| "va_double _ = None"

abbreviation (input) STATE_FLAGS :: nat where "STATE_FLAGS \<equiv> 0"
abbreviation (input) STATE_WIDTH :: nat where "STATE_WIDTH \<equiv> 1"
abbreviation (input) STATE_PRECISION :: nat where "STATE_PRECISION \<equiv> 2"
abbreviation (input) STATE_LENGTH :: nat where "STATE_LENGTH \<equiv> 3"

(* src/src/util/url_snprintf.cpp:132-143, url_vsnprintf *)
record spec =
  sp_state :: nat
  sp_alternate :: bool
  sp_minus :: bool
  sp_plus :: bool
  sp_space :: bool
  sp_zero :: bool
  sp_width :: int
  sp_haswidth :: bool
  sp_precision :: int
  sp_hasprecision :: bool
  sp_length :: char

definition spec_new :: spec where
  "spec_new = \<lparr>sp_state = STATE_FLAGS, sp_alternate = False, sp_minus = False, sp_plus = False, sp_space = False,
     sp_zero = False, sp_width = 0, sp_haswidth = False, sp_precision = 0, sp_hasprecision = False, sp_length = NUL\<rparr>"

text \<open>The characters that only change the specification. The case of \<open>'*'\<close> falls through to that of \<open>'h'\<close>.\<close>

(* src/src/util/url_snprintf.cpp:146-177, url_vsnprintf *)
definition spec_flag :: "char \<Rightarrow> spec \<Rightarrow> spec" where
  "spec_flag c sp =
     (if sp_state sp \<noteq> STATE_FLAGS then sp
      else if c = CHR ''#'' then sp\<lparr>sp_alternate := True\<rparr>
      else if c = CHR ''-'' then sp\<lparr>sp_minus := True\<rparr>
      else if c = CHR ''+'' then sp\<lparr>sp_plus := True\<rparr>
      else if c = CHR '' '' then sp\<lparr>sp_space := True\<rparr>
      else sp)"

(* src/src/util/url_snprintf.cpp:179-203, url_vsnprintf *)
definition spec_digit :: "char \<Rightarrow> spec \<Rightarrow> spec" where
  "spec_digit c sp =
     (if c = CHR ''0'' \<and> sp_state sp = STATE_FLAGS then sp\<lparr>sp_zero := True\<rparr>
      else if sp_state sp \<le> STATE_WIDTH
        then sp\<lparr>sp_width := s32 (sp_width sp * 10 + (int (ord c) - 48)), sp_state := STATE_WIDTH, sp_haswidth := True\<rparr>
      else if sp_state sp = STATE_PRECISION
        then sp\<lparr>sp_precision := s32 (sp_precision sp * 10 + (int (ord c) - 48)), sp_hasprecision := True\<rparr>
      else sp)"

(* src/src/util/url_snprintf.cpp:205-212, url_vsnprintf *)
definition spec_dot :: "spec \<Rightarrow> spec" where
  "spec_dot sp = (if sp_state sp \<le> STATE_PRECISION then sp\<lparr>sp_state := STATE_PRECISION, sp_hasprecision := True\<rparr> else sp)"

(* src/src/util/url_snprintf.cpp:226-252, url_vsnprintf *)
definition spec_length :: "char \<Rightarrow> spec \<Rightarrow> spec" where
  "spec_length c sp =
     (let l = (if c = CHR ''h'' then (if sp_length sp = CHR ''h'' then CHR ''H'' else CHR ''h'')
               else if c = CHR ''l'' then (if sp_length sp = CHR ''l'' then CHR ''L'' else CHR ''l'')
               else if c = CHR ''L'' then CHR ''D''
               else c)
      in sp\<lparr>sp_length := l, sp_state := STATE_LENGTH\<rparr>)"

(* src/src/util/url_snprintf.cpp:213-231, url_vsnprintf *)
definition spec_star :: "'d vargs \<Rightarrow> spec \<Rightarrow> (spec \<times> 'd vargs) option" where
  "spec_star vl sp = do {
     (sp, vl) \<leftarrow>
       (if sp_state sp \<le> STATE_WIDTH then do {
          (w, vl) \<leftarrow> va_int s32 vl;
          Some (sp\<lparr>sp_width := w, sp_state := STATE_PRECISION, sp_haswidth := True\<rparr>, vl) }
        else if sp_state sp = STATE_PRECISION then do {
          (p, vl) \<leftarrow> va_int s32 vl;
          Some (sp\<lparr>sp_precision := p, sp_state := STATE_LENGTH, sp_hasprecision := True\<rparr>, vl) }
        else Some (sp, vl));
     Some (spec_length (CHR ''h'') sp, vl) }"

section \<open>Integers\<close>

text \<open>
  The digits are collected in \<open>tmp\<close>, least significant first. \<open>tmp_put\<close> checks that the array has room.
\<close>

definition tmp_put :: "nat \<Rightarrow> string \<Rightarrow> char \<Rightarrow> string option" where
  "tmp_put maxlen tmp c = (if length tmp < maxlen then Some (tmp @ [c]) else None)"

(* src/src/util/url_snprintf.cpp:275-284, _out_int_alt *)
fun int_digits :: "nat \<Rightarrow> string \<Rightarrow> nat \<Rightarrow> string \<Rightarrow> nat \<Rightarrow> string option" where
  "int_digits maxlen digs base tmp val =
     (if val = 0 \<or> base < 2 then Some tmp
      else do { tmp \<leftarrow> tmp_put maxlen tmp (digs ! (val mod base)); int_digits maxlen digs base tmp (val div base) })"

declare int_digits.simps [simp del]

datatype altern = Alt_None | Alt_O | Alt_X char

text \<open>\<open>int_sign\<close> puts a sign in front: directly, when zeros will follow it, and else at the end of \<open>tmp\<close>.\<close>

(* src/src/util/url_snprintf.cpp:286-306, _out_int_alt *)
definition int_sign :: "nat \<Rightarrow> char \<Rightarrow> spec \<Rightarrow> string \<Rightarrow> ust \<Rightarrow> (spec \<times> string \<times> ust) option" where
  "int_sign maxlen c sp tmp st =
     (if sp_zero sp \<and> sp_width sp \<noteq> 0 then Some (sp\<lparr>sp_width := s32 (sp_width sp - 1)\<rparr>, tmp, url_put c st)
      else do { tmp \<leftarrow> tmp_put maxlen tmp c; Some (sp, tmp, st) })"

(* src/src/util/url_snprintf.cpp:334-356, _alt_o *)
definition int_alt :: "altern \<Rightarrow> nat \<Rightarrow> spec \<Rightarrow> string \<Rightarrow> ust \<Rightarrow> (spec \<times> string \<times> ust) option" where
  "int_alt alt maxlen sp tmp st =
     (if \<not> sp_alternate sp then Some (sp, tmp, st)
      else case alt of
        Alt_None \<Rightarrow> Some (sp, tmp, st)
      | Alt_O \<Rightarrow> int_sign maxlen (CHR ''0'') sp tmp st
      | Alt_X x \<Rightarrow>
          (if sp_zero sp \<and> sp_width sp \<noteq> 0
           then Some (sp\<lparr>sp_width := (if sp_width sp < 2 then 0 else sp_width sp - 2)\<rparr>, tmp, url_put x (url_put (CHR ''0'') st))
           else do { tmp \<leftarrow> tmp_put maxlen tmp x; tmp \<leftarrow> tmp_put maxlen tmp (CHR ''0''); Some (sp, tmp, st) }))"

(* src/src/util/url_snprintf.cpp:323-326, _out_int_alt *)
fun int_chars :: "string \<Rightarrow> int \<Rightarrow> ust \<Rightarrow> int \<times> ust" where
  "int_chars (c # cs) width st = (if snd st > 0 then int_chars cs (s32 (width - 1)) (url_put c st) else (width, st))"
| "int_chars [] width st = (width, st)"

(* src/src/util/url_snprintf.cpp:327-330, _out_int_alt *)
fun int_trail :: "nat \<Rightarrow> ust \<Rightarrow> ust" where
  "int_trail (Suc k) st = (if snd st > 0 then int_trail k (url_put (CHR '' '') st) else st)"
| "int_trail 0 st = st"

(* src/src/util/url_snprintf.cpp:286-306, _out_int_alt *)
definition int_prefix :: "nat \<Rightarrow> bool \<Rightarrow> bool \<Rightarrow> spec \<Rightarrow> string \<Rightarrow> ust \<Rightarrow> (spec \<times> string \<times> ust) option" where
  "int_prefix maxlen hasneg negative sp tmp st =
     (if negative then int_sign maxlen (CHR ''-'') sp tmp st
      else if hasneg \<and> sp_plus sp then int_sign maxlen (CHR ''+'') sp tmp st
      else if hasneg \<and> sp_space sp then int_sign maxlen (CHR '' '') sp tmp st
      else Some (sp, tmp, st))"

(* src/src/util/url_snprintf.cpp:309-330, _out_int_alt *)
definition int_print :: "spec \<Rightarrow> string \<Rightarrow> ust \<Rightarrow> ust" where
  "int_print sp tmp st =
     (let st = (if \<not> sp_minus sp \<and> sp_width sp \<noteq> 0
                then url_put_n (nat (sp_width sp - int (length tmp))) (if sp_zero sp then CHR ''0'' else CHR '' '') st else st);
          (width, st) = int_chars (rev tmp) (sp_width sp) st
      in int_trail (nat width) st)"

text \<open>\<open>conv\<close> is the conversion to the type, under which the negation of the smallest value is the value itself.\<close>

(* src/src/util/url_snprintf.cpp:262-331, _out_int_alt *)
definition out_int_alt :: "(int \<Rightarrow> int) \<Rightarrow> nat \<Rightarrow> bool \<Rightarrow> nat \<Rightarrow> altern \<Rightarrow> string \<Rightarrow> spec \<Rightarrow> 'd vargs \<Rightarrow> ust \<Rightarrow> ('d vargs \<times> ust) option" where
  "out_int_alt conv maxlen hasneg base alt digs sp vl st = do {
     (val, vl) \<leftarrow> va_int conv vl;
     let negative = (val < 0);
     let val = (if negative then conv (- val) else val);
     tmp \<leftarrow> (if val = 0 then tmp_put maxlen [] (CHR ''0'') else int_digits maxlen digs base [] (nat val));
     (sp, tmp, st) \<leftarrow> int_prefix maxlen hasneg negative sp tmp st;
     (sp, tmp, st) \<leftarrow> int_alt alt maxlen sp tmp st;
     Some (vl, int_print sp tmp st) }"

text \<open>The conversions with their types. Lengths that are not listed print nothing and take no argument.\<close>

(* src/src/util/url_snprintf.cpp:357-472, url_vsnprintf *)
definition out_int :: "char \<Rightarrow> spec \<Rightarrow> 'd vargs \<Rightarrow> ust \<Rightarrow> ('d vargs \<times> ust) option" where
  "out_int c sp vl st =
     (let l = sp_length sp;
          signed = (c = CHR ''i'' \<or> c = CHR ''d'');
          base = (if c = CHR ''o'' then 8 else if c = CHR ''x'' \<or> c = CHR ''X'' \<or> c = CHR ''p'' then 16 else 10);
          alt = (if c = CHR ''o'' then Alt_O else if c = CHR ''X'' then Alt_X (CHR ''X'')
                 else if c = CHR ''x'' \<or> c = CHR ''p'' then Alt_X (CHR ''x'') else Alt_None);
          digs = (if c = CHR ''X'' then HEXDIGITS else hexdigits)
      in if c = CHR ''p'' then out_int_alt u64 32 False base alt digs sp vl st
         else if l = NUL \<or> l = CHR ''h'' \<or> l = CHR ''H'' then out_int_alt (if signed then s32 else u32) 16 signed base alt digs sp vl st
         else if l = CHR ''l'' then out_int_alt (if signed then s64 else u64) 32 signed base alt digs sp vl st
         else if l = CHR ''L'' then out_int_alt (if signed then s64 else u64) 64 signed base alt digs sp vl st
         else if l = CHR ''z'' then out_int_alt u64 32 signed base alt digs sp vl st
         else Some (vl, st))"

section \<open>Floating-point numbers\<close>

text \<open>The arithmetic of \<open>double\<close>; \<open>fp_e k\<close> is the literal \<open>1e<k>\<close>, \<open>fp_int\<close> the conversion to \<open>int\<close>.\<close>

record 'd fpops =
  fp_e :: "int \<Rightarrow> 'd"
  fp_half :: 'd
  fp_of_int :: "int \<Rightarrow> 'd"
  fp_int :: "'d \<Rightarrow> int"
  fp_less :: "'d \<Rightarrow> 'd \<Rightarrow> bool"
  fp_le :: "'d \<Rightarrow> 'd \<Rightarrow> bool"
  fp_neg :: "'d \<Rightarrow> 'd"
  fp_add :: "'d \<Rightarrow> 'd \<Rightarrow> 'd"
  fp_sub :: "'d \<Rightarrow> 'd \<Rightarrow> 'd"
  fp_mul :: "'d \<Rightarrow> 'd \<Rightarrow> 'd"
  fp_div :: "'d \<Rightarrow> 'd \<Rightarrow> 'd"

definition c_rem :: "int \<Rightarrow> int \<Rightarrow> int" where
  "c_rem a b = sgn a * (\<bar>a\<bar> mod \<bar>b\<bar>)"

(* src/src/util/url_snprintf.cpp:502-505, url_vsnprintf *)
partial_function (option) fp_scale :: "'d fpops \<Rightarrow> 'd \<Rightarrow> int \<Rightarrow> 'd \<Rightarrow> int \<Rightarrow> ('d \<times> int) option" where
  "fp_scale F val k scale ex =
     (if fp_le F (fp_mul F (fp_e F k) scale) val \<and> ex \<le> 350
      then fp_scale F val k (fp_mul F scale (fp_e F k)) (ex + k)
      else Some (scale, ex))"

(* src/src/util/url_snprintf.cpp:508-511, url_vsnprintf *)
partial_function (option) fp_grow :: "'d fpops \<Rightarrow> int \<Rightarrow> 'd \<Rightarrow> 'd \<Rightarrow> int \<Rightarrow> ('d \<times> int) option" where
  "fp_grow F k bound val ex =
     (if fp_less F val bound \<and> fp_less F (fp_of_int F 0) val
      then fp_grow F k bound (fp_mul F val (fp_e F k)) (ex - k)
      else Some (val, ex))"

(* src/src/util/url_snprintf.cpp:492-518, url_vsnprintf *)
definition fp_normalise :: "'d fpops \<Rightarrow> bool \<Rightarrow> int \<Rightarrow> 'd \<Rightarrow> ('d \<times> 'd \<times> int) option" where
  "fp_normalise F fmode precision val = do {
     let rounder = ((\<lambda>r. fp_mul F r (fp_e F (-1))) ^^ nat precision) (fp_half F);
     let val = (if fmode then fp_add F val rounder else val);
     (scale, ex) \<leftarrow> fp_scale F val 100 (fp_of_int F 1) 0;
     (scale, ex) \<leftarrow> fp_scale F val 64 scale ex;
     (scale, ex) \<leftarrow> fp_scale F val 8 scale ex;
     (scale, ex) \<leftarrow> fp_scale F val 1 scale ex;
     if fmode then Some (val, scale, ex)
     else do {
       let val = fp_div F val scale;
       (val, ex) \<leftarrow> fp_grow F 100 (fp_e F (-100)) val ex;
       (val, ex) \<leftarrow> fp_grow F 64 (fp_e F (-64)) val ex;
       (val, ex) \<leftarrow> fp_grow F 8 (fp_e F (-8)) val ex;
       (val, ex) \<leftarrow> fp_grow F 1 (fp_of_int F 1) val ex;
       let val = fp_add F val rounder;
       Some (if fp_le F (fp_e F 1) val then (fp_mul F val (fp_e F (-1)), scale, ex + 1) else (val, scale, ex)) } }"

(* src/src/util/url_snprintf.cpp:520-539, url_vsnprintf *)
definition fp_length :: "spec \<Rightarrow> bool \<Rightarrow> bool \<Rightarrow> int \<Rightarrow> int \<Rightarrow> int" where
  "fp_length sp fmode negative precision ex =
     (if sp_width sp = 0 then 0
      else (if negative \<or> sp_plus sp \<or> sp_space sp then 1 else 0) +
        (if fmode then ex + 1 + 1 + precision else 1 + 1 + precision + (if ex \<ge> 100 \<or> ex \<le> -100 then 5 else 4)) -
        (if sp_hasprecision sp \<and> precision = 0 \<and> \<not> sp_alternate sp then 1 else 0))"

(* src/src/util/url_snprintf.cpp:562-565, url_vsnprintf *)
fun fp_whole :: "'d fpops \<Rightarrow> nat \<Rightarrow> 'd \<Rightarrow> 'd \<Rightarrow> ust \<Rightarrow> 'd \<times> ust" where
  "fp_whole F (Suc i) val scale st =
     (let q = fp_int F (fp_div F val scale)
      in fp_whole F i (fp_sub F val (fp_mul F (fp_of_int F q) scale)) (fp_mul F scale (fp_e F (-1))) (url_put (byte_of (c_rem q 10 + 48)) st))"
| "fp_whole F 0 val scale st = (val, st)"

(* src/src/util/url_snprintf.cpp:574-578, url_vsnprintf *)
fun fp_fraction :: "'d fpops \<Rightarrow> nat \<Rightarrow> 'd \<Rightarrow> 'd \<Rightarrow> ust \<Rightarrow> ust" where
  "fp_fraction F (Suc i) val scale st =
     (let q = fp_int F (fp_mul F val scale)
      in fp_fraction F i (fp_sub F val (fp_div F (fp_of_int F q) scale)) (fp_mul F scale (fp_e F 1)) (url_put (byte_of (c_rem q 10 + 48)) st))"
| "fp_fraction F 0 val scale st = st"

(* src/src/util/url_snprintf.cpp:585-588, url_vsnprintf *)
fun fp_digits :: "'d fpops \<Rightarrow> nat \<Rightarrow> 'd \<Rightarrow> ust \<Rightarrow> ust" where
  "fp_digits F (Suc i) val st =
     fp_digits F i (fp_mul F (fp_sub F val (fp_of_int F (fp_int F val))) (fp_e F 1)) (url_put (byte_of (fp_int F val + 48)) st)"
| "fp_digits F 0 val st = st"

(* src/src/util/url_snprintf.cpp:600-600, url_vsnprintf *)
partial_function (option) fp_maxexp :: "int \<Rightarrow> int \<Rightarrow> int option" where
  "fp_maxexp ex maxexp = (if maxexp < ex then fp_maxexp ex ((maxexp + 1) * 10 - 1) else Some maxexp)"

(* src/src/util/url_snprintf.cpp:602-605, url_vsnprintf *)
fun fp_exponent :: "int \<Rightarrow> nat \<Rightarrow> ust \<Rightarrow> ust" where
  "fp_exponent ex maxexp st =
     (if maxexp = 0 then st else fp_exponent ex (maxexp div 10) (url_put (byte_of (c_rem (ex div int maxexp) 10 + 48)) st))"

declare fp_exponent.simps [simp del]

(* src/src/util/url_snprintf.cpp:559-606, url_vsnprintf *)
definition fp_body :: "'d fpops \<Rightarrow> bool \<Rightarrow> bool \<Rightarrow> spec \<Rightarrow> int \<Rightarrow> 'd \<Rightarrow> 'd \<Rightarrow> int \<Rightarrow> ust \<Rightarrow> ust option" where
  "fp_body F fmode capital sp precision val scale ex st =
     (let dot = (\<lambda>st. if \<not> (sp_hasprecision sp \<and> precision = 0 \<and> \<not> sp_alternate sp) then url_put (CHR ''.'') st else st)
      in if fmode then
           (let (val, st) = (if fp_le F (fp_of_int F 1) val then fp_whole F (nat (ex + 1)) val scale st else (val, url_put (CHR ''0'') st))
            in Some (fp_fraction F (nat precision) val (fp_of_int F 10) (dot st)))
         else do {
           let st = url_put (byte_of (fp_int F val + 48)) st;
           let val = fp_mul F (fp_sub F val (fp_of_int F (fp_int F val))) (fp_e F 1);
           let st = fp_digits F (nat precision) val (dot st);
           let st = url_put (if capital then CHR ''E'' else CHR ''e'') st;
           let st = url_put (if ex < 0 then CHR ''-'' else CHR ''+'') st;
           let ex = \<bar>ex\<bar>;
           m \<leftarrow> fp_maxexp ex 99;
           Some (fp_exponent ex (nat ((m + 1) div 10)) st) })"

(* src/src/util/url_snprintf.cpp:541-557, url_vsnprintf *)
definition fp_lead :: "spec \<Rightarrow> bool \<Rightarrow> nat \<Rightarrow> ust \<Rightarrow> ust" where
  "fp_lead sp negative pad st =
     (let st = (if \<not> sp_minus sp \<and> \<not> sp_zero sp then url_put_n pad (CHR '' '') st else st);
          st = (if negative then url_put (CHR ''-'') st else if sp_plus sp then url_put (CHR ''+'') st
                else if sp_space sp then url_put (CHR '' '') st else st)
      in if \<not> sp_minus sp \<and> sp_zero sp then url_put_n pad (CHR ''0'') st else st)"

(* src/src/util/url_snprintf.cpp:473-615, url_vsnprintf *)
definition out_double :: "'d fpops \<Rightarrow> char \<Rightarrow> spec \<Rightarrow> 'd vargs \<Rightarrow> ust \<Rightarrow> ('d vargs \<times> ust) option" where
  "out_double F c sp vl st = do {
     let fmode = (c = CHR ''f'');
     (val, vl) \<leftarrow> va_double vl;
     let negative = fp_less F val (fp_of_int F 0);
     let val = (if negative then fp_neg F val else val);
     let precision = (if \<not> sp_hasprecision sp then 6 else sp_precision sp);
     (val, scale, ex) \<leftarrow> fp_normalise F fmode precision val;
     let pad = nat (sp_width sp - fp_length sp fmode negative precision ex);
     st \<leftarrow> fp_body F fmode (c = CHR ''E'' \<or> c = CHR ''G'') sp precision val scale ex (fp_lead sp negative pad st);
     Some (vl, if sp_minus sp then url_put_n pad (CHR '' '') st else st) }"

section \<open>Strings\<close>

(* src/src/util/url_snprintf.cpp:647-651, url_vsnprintf *)
fun str_prec :: "int \<Rightarrow> string \<Rightarrow> ust \<Rightarrow> nat \<times> ust" where
  "str_prec p (c # cs) st =
     (if snd st > 0 \<and> p \<noteq> 0 then (let (n, st) = str_prec (s32 (p - 1)) cs (url_put c st) in (Suc n, st)) else (0, st))"
| "str_prec p [] st = (0, st)"

(* src/src/util/url_snprintf.cpp:653-656, url_vsnprintf *)
fun str_all :: "string \<Rightarrow> ust \<Rightarrow> nat \<times> ust" where
  "str_all (c # cs) st = (if snd st > 0 then (let (n, st) = str_all cs (url_put c st) in (Suc n, st)) else (0, st))"
| "str_all [] st = (0, st)"

(* src/src/util/url_snprintf.cpp:646-657, url_vsnprintf *)
definition str_as_is :: "spec \<Rightarrow> string \<Rightarrow> ust \<Rightarrow> nat \<times> ust" where
  "str_as_is sp val st = (if sp_precision sp \<noteq> 0 then str_prec (sp_precision sp) val st else str_all val st)"

(* src/src/util/url_snprintf.cpp:621-623, url_vsnprintf *)
definition str_len :: "spec \<Rightarrow> string \<Rightarrow> int" where
  "str_len sp val =
     (let len = (if sp_width sp \<le> 0 then 0 else min (int (length val)) (sp_width sp))
      in if sp_precision sp \<noteq> 0 \<and> len > sp_precision sp then sp_precision sp else len)"

(* src/src/util/url_snprintf.cpp:616-666, url_vsnprintf *)
definition out_str :: "spec \<Rightarrow> 'd vargs \<Rightarrow> ust \<Rightarrow> ('d vargs \<times> ust) option" where
  "out_str sp vl st = do {
     (val, vl) \<leftarrow> va_str vl;
     let width = sp_width sp;
     if width \<noteq> 0 \<and> \<not> sp_minus sp then
       (let len = str_len sp val
        in if len < width
           then Some (vl, fold url_put (take (nat len) val) (url_put_n (nat (width - len)) (CHR '' '') st))
           else Some (vl, snd (str_as_is sp val st)))
     else
       (let (n, st) = str_as_is sp val st
        in Some (vl, if width \<noteq> 0 then url_put_n (nat (width - int n)) (CHR '' '') st else st)) }"

section \<open>The format\<close>

text \<open>One character of a conversion specification; the first component tells whether the specification ends with it.\<close>

(* src/src/util/url_snprintf.cpp:144-678, url_vsnprintf *)
definition spec_step :: "'d fpops \<Rightarrow> char \<Rightarrow> spec \<Rightarrow> 'd vargs \<Rightarrow> ust \<Rightarrow> (bool \<times> spec \<times> 'd vargs \<times> ust) option" where
  "spec_step F c sp vl st =
     (if c \<in> set ''#-+ '' then Some (False, spec_flag c sp, vl, st)
      else if c_isdigit c then Some (False, spec_digit c sp, vl, st)
      else if c = CHR ''.'' then Some (False, spec_dot sp, vl, st)
      else if c = CHR ''*'' then do { (sp, vl) \<leftarrow> spec_star vl sp; Some (False, sp, vl, st) }
      else if c \<in> set ''hljztL'' then Some (False, spec_length c sp, vl, st)
      else if c = CHR ''c'' then do { (i, vl) \<leftarrow> va_int s32 vl; Some (True, sp, vl, url_put (byte_of i) st) }
      else if c \<in> set ''iduoxXp'' then do { (vl, st) \<leftarrow> out_int c sp vl st; Some (True, sp, vl, st) }
      else if c \<in> set ''gGfeE'' then do { (vl, st) \<leftarrow> out_double F c sp vl st; Some (True, sp, vl, st) }
      else if c = CHR ''s'' then do { (vl, st) \<leftarrow> out_str sp vl st; Some (True, sp, vl, st) }
      else if c = CHR ''n'' \<or> c = CHR ''%'' then Some (True, sp, vl, url_put (CHR ''%'') st)
      else Some (False, sp, vl, st))"

text \<open>
  When the format ends inside a specification, the loop has read the terminating zero byte and the format
  pointer is behind it: the rest of the format is \<open>None\<close>.
\<close>

(* src/src/util/url_snprintf.cpp:132-677, url_vsnprintf *)
fun spec_loop :: "'d fpops \<Rightarrow> string \<Rightarrow> spec \<Rightarrow> 'd vargs \<Rightarrow> ust \<Rightarrow> (string option \<times> 'd vargs \<times> ust) option" where
  "spec_loop F [] sp vl st = Some (None, vl, st)"
| "spec_loop F (c # fs) sp vl st = do {
     (fin, sp, vl, st) \<leftarrow> spec_step F c sp vl st;
     if fin then Some (Some fs, vl, st) else spec_loop F fs sp vl st }"

lemma spec_loop_shorter: "spec_loop F fs sp vl st = Some (Some fs', vl', st') \<Longrightarrow> length fs' < length fs"
  by (induction fs arbitrary: sp vl st) (fastforce split: Option.bind_splits if_splits)+

(* src/src/util/url_snprintf.cpp:130-682, url_vsnprintf *)
function fmt_loop :: "'d fpops \<Rightarrow> string \<Rightarrow> 'd vargs \<Rightarrow> ust \<Rightarrow> ust option" where
  "fmt_loop F [] vl st = Some st"
| "fmt_loop F (f # fs) vl st =
     (if snd st = 0 then Some st
      else if f = CHR ''%''
        then (case spec_loop F fs spec_new vl st of
                Some (Some fs', vl', st') \<Rightarrow> fmt_loop F fs' vl' st'
              | _ \<Rightarrow> None)
      else fmt_loop F fs vl (url_put f st))"
  by pat_completeness auto
termination
  by (relation "measure (\<lambda>(F, fs, vl, st). length fs)") (auto dest: spec_loop_shorter)

(* src/src/util/url_snprintf.cpp:27-685, url_vsnprintf *)
definition url_vsnprintf :: "'d fpops \<Rightarrow> string \<Rightarrow> nat \<Rightarrow> string \<Rightarrow> 'd vargs \<Rightarrow> (int \<times> string) option" where
  "url_vsnprintf F original_buf sz fmt vl = do {
     (out, _) \<leftarrow> fmt_loop F (cstr fmt) vl ([], sz);
     b \<leftarrow> store_at original_buf 0 (out @ [NUL]);
     Some (s32 (int (length out)), b) }"

(* src/src/util/url_snprintf.cpp:19-26, url_snprintf *)
definition url_snprintf :: "'d fpops \<Rightarrow> string \<Rightarrow> nat \<Rightarrow> string \<Rightarrow> 'd vargs \<Rightarrow> (int \<times> string) option" where
  "url_snprintf F original_buf sz fmt vl = url_vsnprintf F original_buf sz fmt vl"

section \<open>The bytes left\<close>

text \<open>
  Every operation of the printer only appends, and what it appends it takes from the bytes that are left.
\<close>

definition extends :: "ust \<Rightarrow> ust \<Rightarrow> bool" where
  "extends st st' \<longleftrightarrow> (\<exists>xs. fst st' = fst st @ xs \<and> length xs + snd st' = snd st)"

lemma bind_SomeE: "Option.bind x f = Some y \<Longrightarrow> (\<And>z. x = Some z \<Longrightarrow> f z = Some y \<Longrightarrow> P) \<Longrightarrow> P"
  by (cases x) simp_all

lemma extends_refl [simp]: "extends st st"
  by (simp add: extends_def)

lemma extends_trans [trans]: "extends a b \<Longrightarrow> extends b c \<Longrightarrow> extends a c"
  unfolding extends_def by fastforce

lemma put_extends: "extends st (url_put c st)"
  by (cases st) (auto simp: url_put_def extends_def)

lemma put_then: "extends (url_put c st) st' \<Longrightarrow> extends st st'"
  using put_extends extends_trans by blast

lemma put_n_extends: "extends st (url_put_n k c st)"
  by (induction k arbitrary: st) (simp, metis url_put_n.simps(2) put_then)

lemma put_n_then: "extends (url_put_n k c st) st' \<Longrightarrow> extends st st'"
  using put_n_extends extends_trans by blast

lemma fold_put_extends: "extends st (fold url_put cs st)"
  by (induction cs arbitrary: st) (simp, metis fold_simps(2) put_then)

lemma int_chars_extends: "int_chars cs w st = (w', st') \<Longrightarrow> extends st st'"
  by (induction cs arbitrary: w st) (simp, metis int_chars.simps(1) put_then extends_refl snd_conv)

lemma int_trail_extends: "extends st (int_trail k st)"
  by (induction k arbitrary: st) (simp, metis int_trail.simps(1) put_then extends_refl)

lemma int_sign_extends: "int_sign maxlen c sp tmp st = Some (sp', tmp', st') \<Longrightarrow> extends st st'"
  by (auto simp: int_sign_def split: if_splits Option.bind_splits intro: put_extends)

lemma int_alt_extends: "int_alt alt maxlen sp tmp st = Some (sp', tmp', st') \<Longrightarrow> extends st st'"
  by (auto simp: int_alt_def split: if_splits Option.bind_splits altern.splits intro: put_then put_extends int_sign_extends)

lemma int_prefix_extends: "int_prefix maxlen hasneg negative sp tmp st = Some (sp', tmp', st') \<Longrightarrow> extends st st'"
  by (simp add: int_prefix_def int_sign_extends split: if_splits)

lemma int_print_extends: "extends st (int_print sp tmp st)"
proof -
  define st1 where "st1 = (if \<not> sp_minus sp \<and> sp_width sp \<noteq> 0
    then url_put_n (nat (sp_width sp - int (length tmp))) (if sp_zero sp then CHR ''0'' else CHR '' '') st else st)"
  obtain w st2 where 2: "int_chars (rev tmp) (sp_width sp) st1 = (w, st2)" by (metis surj_pair)
  have "extends st st1" by (simp add: st1_def put_n_extends)
  also have "extends st1 st2" by (rule int_chars_extends [OF 2])
  also have "extends st2 (int_trail (nat w) st2)" by (rule int_trail_extends)
  finally show ?thesis using 2 by (simp add: int_print_def st1_def)
qed

lemma out_int_alt_extends:
  assumes "out_int_alt conv maxlen hasneg base alt digs sp vl st = Some (vl', st')"
  shows "extends st st'"
proof -
  obtain neg tmp sp1 tmp1 st1 sp2 tmp2 st2 where 1: "int_prefix maxlen hasneg neg sp tmp st = Some (sp1, tmp1, st1)"
    and 2: "int_alt alt maxlen sp1 tmp1 st1 = Some (sp2, tmp2, st2)" and 3: "st' = int_print sp2 tmp2 st2"
    using assms unfolding out_int_alt_def Let_def by (elim bind_SomeE, clarsimp, elim bind_SomeE, clarsimp, elim bind_SomeE, clarsimp)
  show ?thesis using int_prefix_extends [OF 1] int_alt_extends [OF 2] int_print_extends [of st2 sp2 tmp2] 3 extends_trans by blast
qed

lemma out_int_extends: "out_int c sp vl st = Some (vl', st') \<Longrightarrow> extends st st'"
  unfolding out_int_def Let_def by (metis out_int_alt_extends extends_refl option.inject prod.inject)

lemma fp_whole_extends: "fp_whole F i val scale st = (val', st') \<Longrightarrow> extends st st'"
  by (induction F i val scale st rule: fp_whole.induct) (simp_all add: Let_def, metis put_then)

lemma fp_fraction_extends: "extends st (fp_fraction F i val scale st)"
  by (induction i arbitrary: val scale st) (simp, metis fp_fraction.simps(1) put_then)

lemma fp_digits_extends: "extends st (fp_digits F i val st)"
  by (induction i arbitrary: val st) (simp, metis fp_digits.simps(1) put_then)

lemma fp_exponent_extends: "extends st (fp_exponent ex m st)"
  by (induction ex m st rule: fp_exponent.induct) (metis fp_exponent.simps extends_refl put_then)

lemma fp_body_extends:
  assumes "fp_body F fmode capital sp precision val scale ex st = Some st'"
  shows "extends st st'"
proof (cases fmode)
  case True
  define dot where "dot = (\<lambda>st. if \<not> (sp_hasprecision sp \<and> precision = 0 \<and> \<not> sp_alternate sp) then url_put (CHR ''.'') st else st)"
  have d: "extends st (dot st)" for st by (simp add: dot_def put_extends)
  obtain val1 st1 where 1: "(if fp_le F (fp_of_int F 1) val then fp_whole F (nat (ex + 1)) val scale st
      else (val, url_put (CHR ''0'') st)) = (val1, st1)" by (metis surj_pair)
  have "extends st st1" using 1 fp_whole_extends put_extends by (metis prod.inject)
  moreover have "st' = fp_fraction F (nat precision) val1 (fp_of_int F 10) (dot st1)"
    using assms True 1 by (simp add: fp_body_def dot_def split: if_splits)
  ultimately show ?thesis using d fp_fraction_extends extends_trans by metis
next
  case False
  define dot where "dot = (\<lambda>st. if \<not> (sp_hasprecision sp \<and> precision = 0 \<and> \<not> sp_alternate sp) then url_put (CHR ''.'') st else st)"
  have d: "extends st (dot st)" for st by (simp add: dot_def put_extends)
  obtain c1 c2 c3 v k m where "st' = fp_exponent k m (url_put c3 (url_put c2 (fp_digits F (nat precision) v (dot (url_put c1 st)))))"
    using assms False unfolding fp_body_def Let_def dot_def by (auto elim!: bind_SomeE)
  then show ?thesis using d fp_exponent_extends fp_digits_extends put_extends extends_trans by metis
qed

lemma fp_lead_extends: "extends st (fp_lead sp negative pad st)"
proof -
  define st1 where "st1 = (if \<not> sp_minus sp \<and> \<not> sp_zero sp then url_put_n pad (CHR '' '') st else st)"
  define st2 where "st2 = (if negative then url_put (CHR ''-'') st1 else if sp_plus sp then url_put (CHR ''+'') st1
    else if sp_space sp then url_put (CHR '' '') st1 else st1)"
  have "extends st st1" by (simp add: st1_def put_n_extends)
  also have "extends st1 st2" by (simp add: st2_def put_extends)
  also have "extends st2 (fp_lead sp negative pad st)"
    unfolding fp_lead_def Let_def st1_def [symmetric] st2_def [symmetric] by (simp add: put_n_extends)
  finally show ?thesis .
qed

lemma out_double_extends:
  assumes "out_double F c sp vl st = Some (vl', st')"
  shows "extends st st'"
proof -
  obtain val vl1 where v: "va_double vl = Some (val, vl1)" using assms unfolding out_double_def Let_def by (elim bind_SomeE) auto
  define neg where "neg = fp_less F val (fp_of_int F 0)"
  define prec where "prec = (if \<not> sp_hasprecision sp then 6 else sp_precision sp)"
  obtain val1 scale ex where n: "fp_normalise F (c = CHR ''f'') prec (if neg then fp_neg F val else val) = Some (val1, scale, ex)"
    using assms v unfolding out_double_def Let_def neg_def prec_def by simp (elim bind_SomeE, auto)
  define pad where "pad = nat (sp_width sp - fp_length sp (c = CHR ''f'') neg prec ex)"
  obtain st1 where 1: "fp_body F (c = CHR ''f'') (c = CHR ''E'' \<or> c = CHR ''G'') sp prec val1 scale ex (fp_lead sp neg pad st) = Some st1"
    "st' = (if sp_minus sp then url_put_n pad (CHR '' '') st1 else st1)"
    using assms v n unfolding out_double_def Let_def
    by (simp add: neg_def [symmetric] prec_def [symmetric] pad_def [symmetric])
      (elim bind_SomeE, simp add: neg_def [symmetric] prec_def [symmetric] pad_def [symmetric] cong: if_cong)
  then have "extends st1 st'" using put_n_extends by simp
  then show ?thesis using fp_lead_extends fp_body_extends [OF 1(1)] extends_trans by blast
qed

lemma str_prec_extends: "str_prec p cs st = (n, st') \<Longrightarrow> extends st st'"
proof (induction cs arbitrary: p st n st')
  case (Cons c cs)
  obtain m st1 where 1: "str_prec (s32 (p - 1)) cs (url_put c st) = (m, st1)" by (metis surj_pair)
  then have "extends st st1" using Cons.IH put_then by blast
  then show ?case using Cons.prems 1 by (auto split: if_splits)
qed simp

lemma str_all_extends: "str_all cs st = (n, st') \<Longrightarrow> extends st st'"
proof (induction cs arbitrary: st n st')
  case (Cons c cs)
  obtain m st1 where 1: "str_all cs (url_put c st) = (m, st1)" by (metis surj_pair)
  then have "extends st st1" using Cons.IH put_then by blast
  then show ?case using Cons.prems 1 by (auto split: if_splits)
qed simp

lemma str_as_is_extends: "str_as_is sp cs st = (n, st') \<Longrightarrow> extends st st'"
  unfolding str_as_is_def by (metis str_prec_extends str_all_extends)

lemma out_str_extends:
  assumes "out_str sp vl st = Some (vl', st')"
  shows "extends st st'"
proof -
  obtain val vl1 where v: "va_str vl = Some (val, vl1)" using assms unfolding out_str_def by (elim bind_SomeE) auto
  obtain n st1 where 1: "str_as_is sp val st = (n, st1)" by (metis surj_pair)
  note e = str_as_is_extends [OF 1]
  consider k cs where "st' = fold url_put cs (url_put_n k (CHR '' '') st)" | "st' = st1" | k where "st' = url_put_n k (CHR '' '') st1"
    using assms v 1 unfolding out_str_def Let_def by (auto split: if_splits)
  then show ?thesis
  proof cases
    case 1
    then show ?thesis using fold_put_extends put_n_extends extends_trans by metis
  qed (use e put_n_extends extends_trans in blast)+
qed

lemma spec_step_extends: "spec_step F c sp vl st = Some (fin, sp', vl', st') \<Longrightarrow> extends st st'"
  unfolding spec_step_def
  by (simp only: split: if_splits)
    (elim bind_SomeE | clarsimp | erule out_int_extends | erule out_double_extends | erule out_str_extends | rule put_extends)+

lemma spec_loop_extends: "spec_loop F fs sp vl st = Some (r, vl', st') \<Longrightarrow> extends st st'"
proof (induction fs arbitrary: sp vl st)
  case (Cons c fs)
  obtain fin sp1 vl1 st1 where 1: "spec_step F c sp vl st = Some (fin, sp1, vl1, st1)"
    "(if fin then Some (Some fs, vl1, st1) else spec_loop F fs sp1 vl1 st1) = Some (r, vl', st')"
    using Cons.prems unfolding spec_loop.simps by (elim bind_SomeE) auto
  have "extends st1 st'" using 1(2) Cons.IH by (cases fin) auto
  then show ?case using spec_step_extends [OF 1(1)] extends_trans by blast
qed simp

lemma fmt_loop_extends: "fmt_loop F fs vl st = Some st' \<Longrightarrow> extends st st'"
proof (induction F fs vl st rule: fmt_loop.induct)
  case (2 F f fs vl st)
  show ?case
  proof (cases "snd st = 0")
    case False
    note sz = False
    show ?thesis
    proof (cases "f = CHR ''%''")
      case True
      then obtain fs1 vl1 st1 where 1: "spec_loop F fs spec_new vl st = Some (Some fs1, vl1, st1)" "fmt_loop F fs1 vl1 st1 = Some st'"
        using "2.prems" sz by (auto split: option.splits)
      then show ?thesis using "2.IH"(1) [OF sz True 1(1) refl refl refl 1(2)] spec_loop_extends [OF 1(1)] extends_trans by blast
    next
      case f: False
      then have "fmt_loop F fs vl (url_put f st) = Some st'" using "2.prems" sz by simp
      then show ?thesis using "2.IH"(2) [OF sz f] put_then by blast
    qed
  qed (use "2.prems" in simp)
qed simp

lemma url_vsnprintf_bound:
  assumes "fmt_loop F (cstr fmt) vl ([], sz) = Some (out, n)"
  shows "length out + n = sz"
  using fmt_loop_extends [OF assms] by (auto simp: extends_def)

section \<open>Percent-encoding\<close>

text \<open>The encoding of RFC 3986 and its inverse.\<close>

definition enc_char :: "char \<Rightarrow> string" where
  "enc_char c = (if unreserved c then [c] else ''%'' @ [HEXDIGITS ! (ord c div 16), HEXDIGITS ! (ord c mod 16)])"

definition url_encode :: "string \<Rightarrow> string" where
  "url_encode s = concat (map enc_char s)"

definition hex_value :: "char \<Rightarrow> nat" where
  "hex_value c = (if ord c \<ge> 65 then ord c - 55 else ord c - 48)"

fun url_decode :: "string \<Rightarrow> string" where
  "url_decode (c # h # l # s) = (if c = CHR ''%'' then char_of (16 * hex_value h + hex_value l) # url_decode s else c # url_decode (h # l # s))"
| "url_decode s = s"

lemma hex_value_HEX: "n < 16 \<Longrightarrow> hex_value (HEXDIGITS ! n) = n"
proof -
  have "list_all (\<lambda>n. hex_value (HEXDIGITS ! n) = n) [0..<16]" by code_simp
  then show "n < 16 \<Longrightarrow> hex_value (HEXDIGITS ! n) = n" by (simp add: list_all_iff)
qed

lemma url_decode_Cons: "unreserved c \<Longrightarrow> url_decode (c # s) = c # url_decode s"
proof -
  have "\<not> unreserved (CHR ''%'')" by code_simp
  moreover assume "unreserved c"
  ultimately have "c \<noteq> CHR ''%''" by blast
  then show ?thesis by (cases s rule: url_decode.cases) auto
qed

lemma url_decode_encode: "url_decode (url_encode s) = s"
proof (induction s)
  case (Cons c s)
  have "ord c < 16 * 16" using ord_less_256 [of c] by simp
  then have c: "ord c div 16 < 16" "char_of (16 * (ord c div 16) + ord c mod 16) = c"
    by (rule less_mult_imp_div_less) simp
  show ?case
  proof (cases "unreserved c")
    case True
    then show ?thesis using Cons by (simp add: url_encode_def enc_char_def url_decode_Cons)
  next
    case False
    then have "url_encode (c # s) = CHR ''%'' # HEXDIGITS ! (ord c div 16) # HEXDIGITS ! (ord c mod 16) # url_encode s"
      by (simp add: url_encode_def enc_char_def)
    then show ?thesis using Cons c hex_value_HEX [of "ord c div 16"] hex_value_HEX [of "ord c mod 16"] by simp
  qed
qed (simp add: url_encode_def)

text \<open>As long as there is room, every byte is encoded.\<close>

lemma put_enc: "length (enc_char c) \<le> n \<Longrightarrow> url_put c (out, n) = (out @ enc_char c, n - length (enc_char c))"
  by (cases "unreserved c") (simp_all add: url_put_def enc_char_def)

lemma enc_char_len: "1 \<le> length (enc_char c)" "length (enc_char c) \<le> 3"
  by (simp_all add: enc_char_def)

lemma url_encode_Cons: "url_encode (c # s) = enc_char c @ url_encode s" "url_encode [] = []"
  by (simp_all add: url_encode_def)

lemma url_encode_append: "url_encode (s @ t) = url_encode s @ url_encode t"
  by (simp add: url_encode_def)

lemma length_url_encode: "length (url_encode s) \<le> 3 * length s"
  using enc_char_len(2) by (induction s) (auto simp: url_encode_Cons add_mono)

lemma fold_put_enc:
  "length (url_encode s) \<le> n \<Longrightarrow> fold url_put s (out, n) = (out @ url_encode s, n - length (url_encode s))"
  by (induction s arbitrary: out n) (simp_all add: url_encode_Cons put_enc)

lemma put_n_enc:
  "length (url_encode (replicate k c)) \<le> n \<Longrightarrow>
   url_put_n k c (out, n) = (out @ url_encode (replicate k c), n - length (url_encode (replicate k c)))"
  by (induction k arbitrary: out n) (simp_all add: url_encode_Cons put_enc)

lemma str_all_enc:
  "length (url_encode s) \<le> n \<Longrightarrow> str_all s (out, n) = (length s, out @ url_encode s, n - length (url_encode s))"
proof (induction s arbitrary: out n)
  case (Cons c s)
  then have "length (enc_char c) \<le> n" "0 < n" using enc_char_len(1) [of c] by (simp_all add: url_encode_Cons)
  then show ?case using Cons by (simp add: url_encode_Cons put_enc)
qed (simp add: url_encode_Cons)

section \<open>Results of whole calls\<close>

lemma url_vsnprintf_stores:
  assumes "fmt_loop F (cstr fmt) vl ([], sz) = Some (out, n)" "sz < length buf"
  shows "url_vsnprintf F buf sz fmt vl = Some (s32 (int (length out)), out @ NUL # drop (Suc (length out)) buf) \<and> length out \<le> sz"
proof -
  have "length out \<le> sz" using url_vsnprintf_bound [OF assms(1)] by simp
  then show ?thesis using assms by (simp add: url_vsnprintf_def blit_def)
qed

lemma fmt_loop_unreserved:
  "list_all unreserved s \<Longrightarrow> fmt_loop F s vl (out, n) = Some (out @ take n s, n - length s)"
proof (induction s arbitrary: out n)
  case (Cons c s)
  have "\<not> unreserved (CHR ''%'')" by code_simp
  then have c: "c \<noteq> CHR ''%''" using Cons.prems by auto
  show ?case
  proof (cases n)
    case (Suc k)
    then show ?thesis using Cons c by (simp add: url_put_def)
  qed simp
qed simp

lemma cstr_unreserved: "list_all unreserved s \<Longrightarrow> cstr s = s"
proof (rule cstr_no_nul)
  have "\<not> unreserved NUL" by code_simp
  then show "list_all unreserved s \<Longrightarrow> NUL \<notin> set s" by (auto simp: list_all_iff)
qed

lemma int_digits_dec:
  "0 < n \<Longrightarrow> length tmp + length (dec_str n) \<le> maxlen \<Longrightarrow>
   int_digits maxlen hexdigits 10 tmp n = Some (tmp @ rev (dec_str n))"
proof (induction n arbitrary: tmp rule: less_induct)
  case (less n)
  have "list_all (\<lambda>n. hexdigits ! n = digit n) [0..<10]" by code_simp
  then have "hexdigits ! (n mod 10) = digit (n mod 10)" by (simp add: list_all_iff)
  then have s: "int_digits maxlen hexdigits 10 tmp n =
      do { tmp \<leftarrow> tmp_put maxlen tmp (digit (n mod 10)); int_digits maxlen hexdigits 10 tmp (n div 10) }"
    using less.prems(1) by (subst int_digits.simps) simp
  show ?case
  proof (cases "n < 10")
    case True
    then have "dec_str n = [digit n]" by (subst dec_str.simps) simp
    then show ?thesis using s less.prems True by (simp add: tmp_put_def int_digits.simps)
  next
    case False
    then have d: "dec_str n = dec_str (n div 10) @ [digit (n mod 10)]" by (subst dec_str.simps) simp
    have "int_digits maxlen hexdigits 10 (tmp @ [digit (n mod 10)]) (n div 10) = Some ((tmp @ [digit (n mod 10)]) @ rev (dec_str (n div 10)))"
      using less.prems d False by (intro less.IH) auto
    then show ?thesis using s d less.prems(2) by (simp add: tmp_put_def)
  qed
qed

lemma int_chars_enc:
  "length (url_encode cs) \<le> n \<Longrightarrow> - (2 ^ 31) + int (length cs) \<le> w \<Longrightarrow> w < 2 ^ 31 \<Longrightarrow>
   int_chars cs w (out, n) = (w - int (length cs), out @ url_encode cs, n - length (url_encode cs))"
proof (induction cs arbitrary: w out n)
  case (Cons c cs)
  then have "length (enc_char c) \<le> n" "0 < n" using enc_char_len(1) [of c] by (simp_all add: url_encode_Cons)
  then show ?case using Cons by (simp add: url_encode_Cons put_enc)
qed (simp add: url_encode_Cons)

lemma int_trail_enc:
  "length (url_encode (replicate k (CHR '' ''))) \<le> n \<Longrightarrow>
   int_trail k (out, n) = (out @ url_encode (replicate k (CHR '' '')), n - length (url_encode (replicate k (CHR '' ''))))"
proof (induction k arbitrary: out n)
  case (Suc k)
  then have "length (enc_char (CHR '' '')) \<le> n" "0 < n" using enc_char_len(1) [of "CHR '' ''"] by (simp_all add: url_encode_Cons)
  then show ?case using Suc by (simp add: url_encode_Cons put_enc)
qed (simp add: url_encode_Cons)

text \<open>
  A number without flags: with \<open>k\<close> positions more than digits, there are \<open>k\<close> blanks in front of it, and the
  width that is still positive after its digits puts \<open>k\<close> blanks behind it.
\<close>

lemma int_print_blanks:
  assumes "\<not> sp_minus sp" "\<not> sp_zero sp" "sp_width sp = int (length tmp + k)" "length tmp + k < 2 ^ 31"
    "length (url_encode (replicate k (CHR '' '') @ rev tmp @ replicate k (CHR '' ''))) \<le> n"
  shows "\<exists>n'. int_print sp tmp (out, n) = (out @ url_encode (replicate k (CHR '' '') @ rev tmp @ replicate k (CHR '' '')), n')"
proof -
  let ?s = "url_encode (replicate k (CHR '' ''))"
  have l: "length ?s + length (url_encode (rev tmp)) + length ?s \<le> n" using assms(5) by (simp add: url_encode_append)
  have "(if \<not> sp_minus sp \<and> sp_width sp \<noteq> 0
      then url_put_n (nat (sp_width sp - int (length tmp))) (if sp_zero sp then CHR ''0'' else CHR '' '') (out, n) else (out, n)) =
      (out @ ?s, n - length ?s)"
    using assms(1-3) l put_n_enc [of k "CHR '' ''" n out] by (cases k) (auto simp: url_encode_Cons)
  moreover have "int_chars (rev tmp) (sp_width sp) (out @ ?s, n - length ?s) =
      (int k, (out @ ?s) @ url_encode (rev tmp), n - length ?s - length (url_encode (rev tmp)))"
    using l assms(3,4) int_chars_enc [of "rev tmp" "n - length ?s" "sp_width sp" "out @ ?s"] by simp
  moreover have "int_trail (nat (int k)) ((out @ ?s) @ url_encode (rev tmp), n - length ?s - length (url_encode (rev tmp))) =
      ((out @ ?s) @ url_encode (rev tmp) @ ?s, n - length ?s - length (url_encode (rev tmp)) - length ?s)"
    using l int_trail_enc [of k "n - length ?s - length (url_encode (rev tmp))"] by simp
  ultimately show ?thesis by (simp add: int_print_def url_encode_append)
qed

lemma int_print_plain:
  assumes "sp_width sp = 0" "length tmp < 2 ^ 31" "length (url_encode (rev tmp)) \<le> n"
  shows "int_print sp tmp (out, n) = (out @ url_encode (rev tmp), n - length (url_encode (rev tmp)))"
proof -
  have "int_chars (rev tmp) 0 (out, n) = (- int (length tmp), out @ url_encode (rev tmp), n - length (url_encode (rev tmp)))"
    using assms int_chars_enc [of "rev tmp" n 0 out] by simp
  then show ?thesis using assms(1) by (simp add: int_print_def)
qed

text \<open>The conversion of an \<open>int\<close> without flags.\<close>

lemma out_int_d:
  assumes "sp_length sp = NUL" "\<not> sp_plus sp" "\<not> sp_space sp" "\<not> sp_zero sp" "\<not> sp_alternate sp" "- (2 ^ 31) < v" "v < 2 ^ 31"
  shows "out_int (CHR ''d'') sp (VI v # vl) st = Some (vl, int_print sp (rev (dec_int v)) st)"
proof -
  have len: "length (dec_str (nat \<bar>v\<bar>)) \<le> 10" using assms(6,7) length_dec_str [of "nat \<bar>v\<bar>" 9] by simp
  have "tmp_put 16 [] (CHR ''0'') = Some (rev (dec_str 0))" by code_simp
  then have d: "(if \<bar>v\<bar> = 0 then tmp_put 16 [] (CHR ''0'') else int_digits 16 hexdigits 10 [] (nat \<bar>v\<bar>)) = Some (rev (dec_str (nat \<bar>v\<bar>)))"
    using int_digits_dec [of "nat \<bar>v\<bar>" "[]" 16] len by simp
  show ?thesis
  proof (cases "v < 0")
    case True
    then have "s32 (- v) = \<bar>v\<bar>" "dec_int v = CHR ''-'' # dec_str (nat \<bar>v\<bar>)" using assms(6,7) by (simp_all add: dec_int_def)
    moreover have "int_prefix 16 True True sp (rev (dec_str (nat \<bar>v\<bar>))) st = Some (sp, rev (dec_str (nat \<bar>v\<bar>)) @ ''-'', st)"
      using assms(4) len by (simp add: int_prefix_def int_sign_def tmp_put_def)
    ultimately show ?thesis
      using True d assms by (simp add: out_int_def out_int_alt_def int_alt_def Let_def)
  next
    case False
    then have av: "\<bar>v\<bar> = v" and "dec_int v = dec_str (nat v)" by (simp_all add: dec_int_def)
    moreover have "int_prefix 16 True False sp tmp st = Some (sp, tmp, st)" for tmp using assms(2,3) by (simp add: int_prefix_def)
    ultimately show ?thesis
      using False d [unfolded av] assms by (cases "v = 0") (simp_all add: out_int_def out_int_alt_def int_alt_def Let_def)
  qed
qed

lemma spec_step_final:
  "spec_step F (CHR ''s'') sp vl st = do { (vl, st) \<leftarrow> out_str sp vl st; Some (True, sp, vl, st) }"
  "spec_step F (CHR ''d'') sp vl st = do { (vl, st) \<leftarrow> out_int (CHR ''d'') sp vl st; Some (True, sp, vl, st) }"
  by (simp_all add: spec_step_def c_isdigit_def)

lemma fmt_string:
  fixes F :: "'d fpops"
  assumes "length (url_encode s) \<le> sz" "0 < sz" "NUL \<notin> set s"
  shows "fmt_loop F ''%s'' [VS s] ([], sz) = Some (url_encode s, sz - length (url_encode s))"
proof -
  have "out_str spec_new [VS s :: 'd varg] ([], sz) = Some ([], url_encode s, sz - length (url_encode s))"
    using assms str_all_enc [of s sz "[]"] by (simp add: out_str_def str_as_is_def spec_new_def cstr_no_nul Let_def)
  then show ?thesis using assms(2) by (simp add: spec_step_final)
qed

lemma digit_chars:
  assumes "0 < k" "k < 10"
  shows "digit k \<notin> set ''#-+ ''" "digit k \<noteq> CHR ''0''" "digit k \<noteq> NUL"
proof -
  have "list_all (\<lambda>k. digit k \<notin> set ''#-+ '' \<and> digit k \<noteq> CHR ''0'' \<and> digit k \<noteq> NUL) [1..<10]" by code_simp
  then show "digit k \<notin> set ''#-+ ''" "digit k \<noteq> CHR ''0''" "digit k \<noteq> NUL" using assms by (auto simp: list_all_iff)
qed

lemma fmt_width_d:
  fixes F :: "'d fpops"
  assumes "0 < k" "k < 10" "- (2 ^ 31) < v" "v < 2 ^ 31" "length (dec_int v) \<le> k"
    "length (url_encode (replicate (k - length (dec_int v)) (CHR '' '') @ dec_int v @ replicate (k - length (dec_int v)) (CHR '' ''))) \<le> sz" "0 < sz"
  shows "\<exists>n. fmt_loop F [CHR ''%'', digit k, CHR ''d''] [VI v] ([], sz) =
    Some (url_encode (replicate (k - length (dec_int v)) (CHR '' '') @ dec_int v @ replicate (k - length (dec_int v)) (CHR '' '')), n)"
proof -
  let ?sp = "spec_new\<lparr>sp_width := int k, sp_state := STATE_WIDTH, sp_haswidth := True\<rparr>"
  have "spec_digit (digit k) spec_new = ?sp" using assms(1,2) digit_chars by (simp add: spec_digit_def spec_new_def)
  then have d: "spec_step F (digit k) spec_new vl st = Some (False, ?sp, vl, st)" for vl st
    using digit_chars [OF assms(1,2)] assms(2) by (simp add: spec_step_def)
  have o: "out_int (CHR ''d'') ?sp [VI v :: 'd varg] ([], sz) = Some ([], int_print ?sp (rev (dec_int v)) ([], sz))"
    using assms(3,4) by (intro out_int_d) (simp_all add: spec_new_def)
  obtain n where "int_print ?sp (rev (dec_int v)) ([], sz) =
      ([] @ url_encode (replicate (k - length (dec_int v)) (CHR '' '') @ rev (rev (dec_int v)) @ replicate (k - length (dec_int v)) (CHR '' '')), n)"
    using int_print_blanks [of ?sp "rev (dec_int v)" "k - length (dec_int v)" sz "[]"] assms(2,5,6) by (auto simp: spec_new_def)
  then show ?thesis using assms(7) d o by (simp add: spec_step_final)
qed

section \<open>Properties\<close>

text \<open>
  C20: a string that is printed with \<open>%s\<close> into a buffer with room for it becomes its percent-encoding,
  followed by a zero byte, and decoding the text gives the string back.
\<close>

theorem url_string_decodes:
  assumes "NUL \<notin> set s" "3 * length s \<le> sz" "0 < sz" "sz < length buf" "sz < 2 ^ 31"
  shows "\<exists>n b. url_snprintf F buf sz ''%s'' [VS s] = Some (int n, b) \<and> n \<le> 3 * length s \<and> length b = length buf \<and> b ! n = NUL \<and>
    url_decode (take n b) = s"
proof -
  have l: "length (url_encode s) \<le> sz" using length_url_encode [of s] assms(2) by simp
  have f: "fmt_loop F (cstr ''%s'') [VS s] ([], sz) = Some (url_encode s, sz - length (url_encode s))"
    using fmt_string [OF l assms(3,1), of F] by (simp add: cstr_no_nul)
  show ?thesis
    using url_vsnprintf_stores [OF f assms(4)] l assms(4,5) length_url_encode [of s] url_decode_encode [of s]
    by (intro exI [of _ "length (url_encode s)"]) (auto simp: url_snprintf_def nth_append)
qed

definition demo_fp :: "unit fpops" where
  "demo_fp = \<lparr>fp_e = (\<lambda>_. ()), fp_half = (), fp_of_int = (\<lambda>_. ()), fp_int = (\<lambda>_. 0), fp_less = (\<lambda>_ _. False), fp_le = (\<lambda>_ _. False),
     fp_neg = (\<lambda>_. ()), fp_add = (\<lambda>_ _. ()), fp_sub = (\<lambda>_ _. ()), fp_mul = (\<lambda>_ _. ()), fp_div = (\<lambda>_ _. ())\<rparr>"

theorem url_string_decodes_witness:
  "\<exists>n b. url_snprintf demo_fp (replicate 10 NUL) 9 ''%s'' [VS ''a&b''] = Some (int n, b) \<and> url_decode (take n b) = ''a&b''"
  using url_string_decodes [of "''a&b''" 9 "replicate 10 NUL" demo_fp] by auto

text \<open>
  C38: the terminating zero byte is written behind the size the caller gives: printing a text of unreserved
  characters that fills the \<open>size\<close> bytes of a buffer writes to the byte after it.
\<close>

theorem url_snprintf_writes_past_end:
  assumes "list_all unreserved fmt" "length buf \<le> length fmt"
  shows "url_snprintf F buf (length buf) fmt vl = None"
proof -
  have "fmt_loop F (cstr fmt) vl ([], length buf) = Some (take (length buf) fmt, 0)"
    using fmt_loop_unreserved [OF assms(1), of F vl "[]" "length buf"] cstr_unreserved [OF assms(1)] assms(2) by simp
  then show ?thesis using assms(2) by (simp add: url_snprintf_def url_vsnprintf_def store_at_def)
qed

theorem url_snprintf_writes_past_end_witness: "url_snprintf demo_fp ''xyz'' 3 ''abcd'' [] = None"
proof -
  have "list_all unreserved ''abcd''" by code_simp
  then show ?thesis using url_snprintf_writes_past_end [of "''abcd''" "''xyz''" demo_fp "[]"] by (simp add: numeral_3_eq_3)
qed

text \<open>
  A number that is printed with a width is padded on both sides: the blanks in front of it are not taken off
  the width, so that as many follow it.
\<close>

lemma url_number_padded_twice:
  assumes "0 < k" "k < 10" "- (2 ^ 31) < v" "v < 2 ^ 31" "length (dec_int v) \<le> k" "6 * k \<le> sz" "sz < length buf" "sz < 2 ^ 31"
  shows "\<exists>n b. url_snprintf F buf sz [CHR ''%'', digit k, CHR ''d''] [VI v] = Some (int n, b) \<and>
    url_decode (take n b) = replicate (k - length (dec_int v)) (CHR '' '') @ dec_int v @ replicate (k - length (dec_int v)) (CHR '' '')"
proof -
  let ?t = "replicate (k - length (dec_int v)) (CHR '' '') @ dec_int v @ replicate (k - length (dec_int v)) (CHR '' '')"
  have l: "length (url_encode ?t) \<le> sz" using length_url_encode [of ?t] assms(5,6) by simp
  have sz: "0 < sz" using assms(1,6) by simp
  have c: "cstr [CHR ''%'', digit k, CHR ''d''] = [CHR ''%'', digit k, CHR ''d'']" using digit_chars(3) [OF assms(1,2)] by (intro cstr_no_nul) simp
  obtain n where f: "fmt_loop F (cstr [CHR ''%'', digit k, CHR ''d'']) [VI v] ([], sz) = Some (url_encode ?t, n)"
    using fmt_width_d [OF assms(1-5) l sz, of F] c by auto
  show ?thesis
    using url_vsnprintf_stores [OF f assms(7)] l assms(8) url_decode_encode [of ?t]
    by (intro exI [of _ "length (url_encode ?t)"]) (auto simp: url_snprintf_def)
qed

end
