(* ===== verification/Logging.thy ===== *)
theory Logging
  imports Sds
begin

text \<open>
  The log of \<^verbatim>\<open>src/src/util/log.cpp\<close>: items that are attached to a thread, the record of one message in a buffer
  of 4096 bytes, and the thread that writes the records to three files. The texts that \<open>snprintf\<close> and
  \<open>strftime\<close> produce from their formats are arguments where they are not plain strings. The list of items is
  the chain of its nodes in the order of \<open>next\<close>, and \<open>tail\<close> is its end. Shown is the content of the record
  for every message, and when its buffer overflows.
\<close>

section \<open>Cursors\<close>

abbreviation (input) ESC :: char where "ESC \<equiv> CHR 0x1B"

(* src/src/util/log.cpp:25-29, LOG_BUF_LEN_MAX *)
definition LOG_BUF_LEN_MAX :: nat where "LOG_BUF_LEN_MAX = 4096"

definition LOG_ITEM_LEN_MAX :: nat where "LOG_ITEM_LEN_MAX = 2048"
definition FILE_NAME_MAX :: nat where "FILE_NAME_MAX = 1024"
definition BIN_NAME_MAX :: nat where "BIN_NAME_MAX = 32"

text \<open>The pointer \<open>buf\<close> as an offset, and the \<open>size\<close> that is left.\<close>

record cursor =
  cu_mem :: string
  cu_pos :: int
  cu_size :: int

definition snprintf_at :: "string \<Rightarrow> string \<Rightarrow> int \<Rightarrow> int \<Rightarrow> string option" where
  "snprintf_at t mem pos n = (if n \<le> 0 then Some mem else if pos < 0 then None else store_at mem (nat pos) (take (nat n - 1) t @ [NUL]))"

definition snprintf_ret :: "string \<Rightarrow> int" where
  "snprintf_ret t = (if length t < 2 ^ 31 then int (length t) else -1)"

(* src/src/util/log.cpp:94-102, _ADJUST_LOG_BUF_CURSOR *)
definition adjust_cursor :: "int \<Rightarrow> cursor \<Rightarrow> cursor" where
  "adjust_cursor ret cu =
     (let ret = (if ret < 0 then 0 else if ret \<ge> cu_size cu then cu_size cu - 1 else ret)
      in cu\<lparr>cu_pos := cu_pos cu + ret, cu_size := cu_size cu - ret\<rparr>)"

definition log_text :: "string \<Rightarrow> cursor \<Rightarrow> cursor option" where
  "log_text t cu = do {
     m \<leftarrow> snprintf_at t (cu_mem cu) (cu_pos cu) (cu_size cu);
     Some (adjust_cursor (snprintf_ret t) (cu\<lparr>cu_mem := m\<rparr>)) }"

definition poke_at :: "string \<Rightarrow> int \<Rightarrow> char \<Rightarrow> string option" where
  "poke_at mem pos c = (if pos < 0 then None else poke mem (nat pos) c)"

(* src/src/util/log.cpp:128-134, _ADD_BLANK_SPACE *)
definition add_blank_space :: "cursor \<Rightarrow> cursor option" where
  "add_blank_space cu =
     (if cu_size cu > 0 then do {
        m \<leftarrow> poke_at (cu_mem cu) (cu_pos cu) (CHR '' '');
        m \<leftarrow> poke_at m (cu_pos cu + 1) NUL;
        Some (cu\<lparr>cu_mem := m, cu_pos := cu_pos cu + 1, cu_size := cu_size cu - 1\<rparr>) }
      else Some cu)"

section \<open>Items\<close>

(* src/src/util/log.cpp:31-37, log_data_t *)
record log_item =
  li_buf :: string
  li_len :: int

text \<open>\<open>sizeof (log_data_t)\<close> and \<open>sizeof (log_buf_t)\<close>; the arrays are their first fields.\<close>

definition sizeof_log_data :: nat where "sizeof_log_data = 2080"
definition sizeof_log_buf :: nat where "sizeof_log_buf = 4104"

(* src/src/util/log.cpp:62-70, log_data_new *)
definition log_data_new :: "allocator \<Rightarrow> log_item option" where
  "log_data_new a = do {
     b \<leftarrow> malloc_block a sizeof_log_data;
     b \<leftarrow> poke (take LOG_ITEM_LEN_MAX b) 0 NUL;
     Some \<lparr>li_buf = b, li_len = 0\<rparr> }"

(* src/src/util/log.cpp:114-125, _PUSH *)
definition item_fill :: "string \<Rightarrow> string \<Rightarrow> log_item \<Rightarrow> log_item option" where
  "item_fill key value node = do {
     let cu = \<lparr>cu_mem = li_buf node, cu_pos = 0, cu_size = int LOG_ITEM_LEN_MAX\<rparr>;
     cu \<leftarrow> log_text key cu;
     cu \<leftarrow> log_text ''='' cu;
     cu \<leftarrow> log_text value cu;
     Some \<lparr>li_buf = cu_mem cu, li_len = cu_pos cu\<rparr> }"

(* src/src/util/log.cpp:105-126, _PUSH *)
definition log_push :: "allocator \<Rightarrow> string \<Rightarrow> string \<Rightarrow> log_item list \<Rightarrow> log_item list option" where
  "log_push a key value ld =
     (if ld = [] then None
      else if li_len (last ld) > 0 then do {
        node \<leftarrow> log_data_new a;
        node \<leftarrow> item_fill key value node;
        Some (ld @ [node]) }
      else do { node \<leftarrow> item_fill key value (last ld); Some (butlast ld @ [node]) })"

(* src/src/util/log.cpp:146-148, log_data_push_str *)
definition log_data_push_str :: "allocator \<Rightarrow> string \<Rightarrow> string \<Rightarrow> log_item list \<Rightarrow> log_item list option" where
  "log_data_push_str a key value ld = log_push a (cstr key) (cstr value) ld"

(* src/src/util/log.cpp:82-84, log_data_push *)
definition log_data_push :: "allocator \<Rightarrow> string \<Rightarrow> string \<Rightarrow> log_item list \<Rightarrow> log_item list option" where
  "log_data_push a key value ld = log_data_push_str a key value ld"

(* src/src/util/log.cpp:149-151, log_data_push_int *)
definition log_data_push_int :: "allocator \<Rightarrow> string \<Rightarrow> int \<Rightarrow> log_item list \<Rightarrow> log_item list option" where
  "log_data_push_int a key value ld = log_push a (cstr key) (dec_int value) ld"

(* src/src/util/log.cpp:152-154, log_data_push_uint *)
definition log_data_push_uint :: "allocator \<Rightarrow> string \<Rightarrow> nat \<Rightarrow> log_item list \<Rightarrow> log_item list option" where
  "log_data_push_uint a key value ld = log_push a (cstr key) (dec_str value) ld"

text \<open>\<open>out\<close> is what \<open>%lf\<close> prints for the number.\<close>

(* src/src/util/log.cpp:155-157, log_data_push_double *)
definition log_data_push_double :: "allocator \<Rightarrow> string \<Rightarrow> string \<Rightarrow> log_item list \<Rightarrow> log_item list option" where
  "log_data_push_double a key out ld = log_push a (cstr key) out ld"

section \<open>Records\<close>

(* src/src/util/log.h:22-29, log_level_t *)
datatype log_level = STORE_LOG_MONITOR | STORE_LOG_DEBUG | STORE_LOG_TRACE | STORE_LOG_NOTICE | STORE_LOG_WARNING | STORE_LOG_FATAL

fun level_num :: "log_level \<Rightarrow> int" where
  "level_num STORE_LOG_MONITOR = 32"
| "level_num STORE_LOG_DEBUG = 16"
| "level_num STORE_LOG_TRACE = 8"
| "level_num STORE_LOG_NOTICE = 4"
| "level_num STORE_LOG_WARNING = 2"
| "level_num STORE_LOG_FATAL = 1"

instantiation log_level :: linorder
begin

definition less_eq_log_level :: "log_level \<Rightarrow> log_level \<Rightarrow> bool" where
  "less_eq_log_level x y \<longleftrightarrow> level_num x \<le> level_num y"

definition less_log_level :: "log_level \<Rightarrow> log_level \<Rightarrow> bool" where
  "less_log_level x y \<longleftrightarrow> level_num x < level_num y"

instance
proof
  fix x y :: log_level
  show "x \<le> y \<Longrightarrow> y \<le> x \<Longrightarrow> x = y"
    by (cases x; cases y) (simp_all add: less_eq_log_level_def)
qed (auto simp: less_eq_log_level_def less_log_level_def)

end

(* src/src/util/log.cpp:186-196, log_printf *)
definition level_color :: "log_level \<Rightarrow> string" where
  "level_color level =
     (case level of
        STORE_LOG_WARNING \<Rightarrow> ESC # ''[33m''
      | STORE_LOG_FATAL \<Rightarrow> ESC # ''[1m'' @ ESC # ''[31m''
      | STORE_LOG_NOTICE \<Rightarrow> ESC # ''[36m''
      | STORE_LOG_TRACE \<Rightarrow> ESC # ''[37m''
      | _ \<Rightarrow> ESC # ''[1m'' @ ESC # ''[37m'')"

(* src/src/util/log.cpp:39-43, log_buf_t *)
record log_rec =
  lr_buf :: string
  lr_len :: int
  lr_level :: log_level

text \<open>
  An open log file: the file has received \<open>st_file\<close>, \<open>st_buf\<close> is written and not yet flushed, and \<open>st_old\<close> is what
  the files have received that were opened before under the same name. The C library may flush earlier than it is
  asked to.
\<close>

record stream =
  st_old :: "string list"
  st_file :: string
  st_buf :: string

(* src/src/util/log.cpp:45-60, g_log_level *)
record log_state =
  g_log_level :: int
  g_write_to_stderr :: bool
  g_log_filename :: string
  g_logwf_filename :: string
  g_logmonitor_filename :: string
  g_log_f :: "stream option"
  g_logwf_f :: "stream option"
  g_logmonitor_f :: "stream option"
  g_log_dir :: string
  g_bin_name :: string
  g_log_running :: bool
  g_log_list :: "log_rec list"
  g_key_created :: bool
  g_thread_created :: bool
  g_stderr :: string

text \<open>\<open>now\<close> is the text that \<open>strftime\<close> writes.\<close>

(* src/src/util/log.cpp:182-196, log_printf *)
definition log_prefix :: "string \<Rightarrow> int \<Rightarrow> log_state \<Rightarrow> log_level \<Rightarrow> string \<Rightarrow> string" where
  "log_prefix now pid s level levelstr =
     level_color level @ cstr levelstr @ '': '' @ now @ '' '' @ cstr (g_bin_name s) @ '' * '' @ dec_int pid @ '' [''"

(* src/src/util/log.cpp:199-212, log_printf *)
definition log_place :: "string option \<Rightarrow> string option \<Rightarrow> cursor \<Rightarrow> cursor option" where
  "log_place fileline func cu = do {
     cu \<leftarrow> (case fileline of None \<Rightarrow> Some cu | Some f \<Rightarrow> do { cu \<leftarrow> log_text ''file='' cu; log_text (cstr f) cu });
     (case func of
        None \<Rightarrow> Some cu
      | Some f \<Rightarrow> do { cu \<leftarrow> log_text '' function='' cu; cu \<leftarrow> log_text (cstr f) cu; add_blank_space cu }) }"

(* src/src/util/log.cpp:213-228, log_printf *)
fun log_items :: "log_item list \<Rightarrow> cursor \<Rightarrow> cursor option" where
  "log_items [] cu = Some cu"
| "log_items (i # is) cu = do {
     let ret = (if cu_size cu > li_len i then li_len i else if cu_size cu > 0 then cu_size cu - 1 else 0);
     b \<leftarrow> load_at (li_buf i) 0 (nat ret);
     m \<leftarrow> (if cu_pos cu < 0 then None else store_at (cu_mem cu) (nat (cu_pos cu)) b);
     m \<leftarrow> poke_at m (cu_pos cu + ret) NUL;
     cu \<leftarrow> add_blank_space (cu\<lparr>cu_mem := m, cu_pos := cu_pos cu + ret, cu_size := cu_size cu - ret\<rparr>);
     log_items is cu }"

(* src/src/util/log.cpp:242-247, log_printf *)
definition log_line_end :: string where
  "log_line_end = '']'' @ ESC # ''[0m'' @ [CHR 0x0A]"

(* src/src/util/log.cpp:249-251, log_printf *)
definition end_line :: "cursor \<Rightarrow> string option" where
  "end_line cu = do {
     c \<leftarrow> (if cu_pos cu < 1 then None else peek (cu_mem cu) (nat (cu_pos cu - 1)));
     if c \<noteq> CHR 0x0A then poke_at (cu_mem cu) (cu_pos cu - 1) (CHR 0x0A) else Some (cu_mem cu) }"

(* src/src/util/log.cpp:230-251, log_printf *)
definition log_message :: "log_level \<Rightarrow> string \<Rightarrow> cursor \<Rightarrow> cursor option" where
  "log_message level msg cu = do {
     cu \<leftarrow> (if level \<noteq> STORE_LOG_MONITOR then log_text ''msg='' cu else Some cu);
     cu \<leftarrow> log_text msg cu;
     cu \<leftarrow> log_text log_line_end cu;
     m \<leftarrow> end_line cu;
     Some (cu\<lparr>cu_mem := m\<rparr>) }"

text \<open>\<open>msg\<close> is the text of the format with its arguments.\<close>

(* src/src/util/log.cpp:162-253, log_printf *)
definition log_record :: "allocator \<Rightarrow> string \<Rightarrow> int \<Rightarrow> log_state \<Rightarrow> log_item list \<Rightarrow> log_level \<Rightarrow> string option \<Rightarrow> string option \<Rightarrow>
    string \<Rightarrow> string \<Rightarrow> log_rec option" where
  "log_record a now pid s ld level fileline func levelstr msg = do {
     b \<leftarrow> malloc_block a sizeof_log_buf;
     let cu = \<lparr>cu_mem = take LOG_BUF_LEN_MAX b, cu_pos = 0, cu_size = int LOG_BUF_LEN_MAX\<rparr>;
     cu \<leftarrow> (if level = STORE_LOG_MONITOR then Some cu
            else do {
              cu \<leftarrow> log_text (log_prefix now pid s level levelstr) cu;
              cu \<leftarrow> log_place fileline func cu;
              log_items ld cu });
     cu \<leftarrow> log_message level msg cu;
     Some \<lparr>lr_buf = cu_mem cu, lr_len = cu_pos cu, lr_level = level\<rparr> }"

(* src/src/util/log.cpp:159-265, log_printf *)
definition log_printf :: "allocator \<Rightarrow> string \<Rightarrow> int \<Rightarrow> log_state \<Rightarrow> log_item list \<Rightarrow> log_level \<Rightarrow> string option \<Rightarrow> string option \<Rightarrow>
    string \<Rightarrow> string \<Rightarrow> (int \<times> log_state) option" where
  "log_printf a now pid s ld level fileline func levelstr msg = do {
     p_log \<leftarrow> log_record a now pid s ld level fileline func levelstr msg;
     let s = (if g_write_to_stderr s then s\<lparr>g_stderr := g_stderr s @ cstr (lr_buf p_log)\<rparr> else s);
     Some (lr_len p_log, s\<lparr>g_log_list := g_log_list s @ [p_log]\<rparr>) }"

text \<open>The value of the thread key, or the items the caller gives; no items are the null pointer.\<close>

(* src/src/util/log.h:51-59, log_base *)
definition log_base :: "allocator \<Rightarrow> string \<Rightarrow> int \<Rightarrow> log_item list \<Rightarrow> log_item list \<Rightarrow> log_level \<Rightarrow> string \<Rightarrow> string \<Rightarrow> string \<Rightarrow> string \<Rightarrow>
    log_state \<Rightarrow> log_state option" where
  "log_base a now pid key data lvl fileline func lvlname msg s =
     (let ld = (if data = [] then key else data) in
      if g_log_level s \<ge> level_num lvl \<or> lvl = STORE_LOG_MONITOR
      then map_option snd (log_printf a now pid s ld lvl (Some fileline) (Some func) lvlname msg)
      else Some s)"

(* src/src/util/log.cpp:267-269, log_set_thread_log_data *)
definition log_set_thread_log_data :: "log_item list \<Rightarrow> log_item list \<Rightarrow> log_item list" where
  "log_set_thread_log_data ld key = ld"

(* src/src/util/log.cpp:271-278, log_get_thread_log_data *)
definition log_get_thread_log_data :: "allocator \<Rightarrow> log_item list \<Rightarrow> (log_item list \<times> log_item list) option" where
  "log_get_thread_log_data a key =
     (if key = [] then do { ld \<leftarrow> log_data_new a; Some ([ld], log_set_thread_log_data [ld] key) } else Some (key, key))"

section \<open>The writing thread\<close>

text \<open>
  What a turn of the thread sees of a file: whether \<open>stat\<close> fails and whether \<open>fopen\<close> succeeds. Closing a stream
  flushes it; closing the null pointer is undefined.
\<close>

(* src/src/util/log.cpp:290-297, log_thread_loop *)
definition log_reopen :: "bool \<times> bool \<Rightarrow> stream option \<Rightarrow> stream option option" where
  "log_reopen oc f =
     (case oc of (gone, opened) \<Rightarrow>
        if gone \<and> opened then
          (case f of
             None \<Rightarrow> None
           | Some st \<Rightarrow> Some (Some \<lparr>st_old = st_old st @ [st_file st @ st_buf st], st_file = [], st_buf = []\<rparr>))
        else Some f)"

definition fwrite_stream :: "string \<Rightarrow> stream option \<Rightarrow> stream option option" where
  "fwrite_stream t f = (case f of None \<Rightarrow> None | Some st \<Rightarrow> Some (Some (st\<lparr>st_buf := st_buf st @ t\<rparr>)))"

definition fflush_stream :: "stream option \<Rightarrow> stream option" where
  "fflush_stream f = map_option (\<lambda>st. st\<lparr>st_file := st_file st @ st_buf st, st_buf := []\<rparr>) f"

datatype log_file = Log_F | Logwf_F | Logmonitor_F

(* src/src/util/log.cpp:320-330, log_thread_loop *)
definition log_file_of :: "log_level \<Rightarrow> log_file" where
  "log_file_of level =
     (if level \<le> STORE_LOG_WARNING then Logwf_F
      else if level \<le> STORE_LOG_DEBUG then Log_F
      else Logmonitor_F)"

fun get_file :: "log_file \<Rightarrow> log_state \<Rightarrow> stream option" where
  "get_file Log_F s = g_log_f s"
| "get_file Logwf_F s = g_logwf_f s"
| "get_file Logmonitor_F s = g_logmonitor_f s"

fun set_file :: "log_file \<Rightarrow> stream option \<Rightarrow> log_state \<Rightarrow> log_state" where
  "set_file Log_F f s = s\<lparr>g_log_f := f\<rparr>"
| "set_file Logwf_F f s = s\<lparr>g_logwf_f := f\<rparr>"
| "set_file Logmonitor_F f s = s\<lparr>g_logmonitor_f := f\<rparr>"

definition log_reopen_file :: "log_file \<Rightarrow> bool \<times> bool \<Rightarrow> log_state \<Rightarrow> log_state option" where
  "log_reopen_file x oc s = map_option (\<lambda>f. set_file x f s) (log_reopen oc (get_file x s))"

(* src/src/util/log.cpp:289-312, log_thread_loop *)
definition log_check_files :: "(log_file \<Rightarrow> bool \<times> bool) \<Rightarrow> log_state \<Rightarrow> log_state option" where
  "log_check_files oc s = do {
     s \<leftarrow> log_reopen_file Log_F (oc Log_F) s;
     s \<leftarrow> log_reopen_file Logwf_F (oc Logwf_F) s;
     log_reopen_file Logmonitor_F (oc Logmonitor_F) s }"

(* src/src/util/log.cpp:320-331, log_thread_loop *)
definition log_write :: "log_rec \<Rightarrow> log_state \<Rightarrow> log_state option" where
  "log_write p s = do {
     t \<leftarrow> load_at (lr_buf p) 0 (nat (lr_len p));
     f \<leftarrow> fwrite_stream t (get_file (log_file_of (lr_level p)) s);
     Some (set_file (log_file_of (lr_level p)) f s) }"

definition log_flush_file :: "(log_file \<Rightarrow> bool) \<Rightarrow> log_file \<Rightarrow> log_state \<Rightarrow> log_state" where
  "log_flush_file fl x s = (if fl x then set_file x (fflush_stream (get_file x s)) s else s)"

(* src/src/util/log.cpp:337-345, log_thread_loop *)
definition log_flush :: "(log_file \<Rightarrow> bool) \<Rightarrow> log_state \<Rightarrow> log_state" where
  "log_flush fl s = log_flush_file fl Logmonitor_F (log_flush_file fl Logwf_F (log_flush_file fl Log_F s))"

text \<open>
  The thread is at the test of \<open>g_log_running\<close>, in the inner loop with the files it has to flush, or has returned.
  A turn takes it from one of these points to the next; what other threads do comes between two turns. A record that
  another thread appends during a turn stands behind the one that is written, so that it might as well be appended
  before or after the turn.
\<close>

datatype log_pc = Log_Check | Log_Drain "log_file \<Rightarrow> bool" | Log_Done

(* src/src/util/log.cpp:280-348, log_thread_loop *)
fun log_thread_turn :: "(log_file \<Rightarrow> bool \<times> bool) \<Rightarrow> log_pc \<times> log_state \<Rightarrow> (log_pc \<times> log_state) option" where
  "log_thread_turn oc (Log_Check, s) =
     (if g_log_running s then do { s \<leftarrow> log_check_files oc s; Some (Log_Drain (\<lambda>_. False), s) } else Some (Log_Done, s))"
| "log_thread_turn oc (Log_Drain fl, s) =
     (case g_log_list s of
        [] \<Rightarrow> Some (Log_Check, log_flush fl s)
      | p # ps \<Rightarrow> do {
          s \<leftarrow> log_write p s;
          Some (Log_Drain (fl(log_file_of (lr_level p) := True)), s\<lparr>g_log_list := ps\<rparr>) })"
| "log_thread_turn oc (Log_Done, s) = Some (Log_Done, s)"

section \<open>Start and end\<close>

(* src/src/util/log.h:13-20, log_error_t *)
datatype log_error = LOG_OK | LOG_PARAM_ERROR | LOG_CREATE_DIR_ERROR | LOG_OPEN_FILE_ERROR | LOG_CREATE_THREAD_FAIL | LOG_MALLOC_ERROR | LOG_CREATE_KEY_FAIL

text \<open>The outcomes of the system calls: the directory exists or could be made, which files open, and so on.\<close>

record log_sys =
  ls_stderr :: bool
  ls_dir :: bool
  ls_open :: "log_file \<Rightarrow> bool"
  ls_key :: bool
  ls_thread :: bool

definition fresh_stream :: stream where "fresh_stream = \<lparr>st_old = [], st_file = [], st_buf = []\<rparr>"

definition bounded_text :: "nat \<Rightarrow> string \<Rightarrow> string" where "bounded_text n t = take (n - 1) t"

(* src/src/util/log.cpp:365-369, log_init *)
definition log_names :: "string \<Rightarrow> string \<Rightarrow> log_state \<Rightarrow> log_state" where
  "log_names dir bin s =
     (let d = bounded_text FILE_NAME_MAX (cstr dir); b = bounded_text BIN_NAME_MAX (cstr bin) in
      s\<lparr>g_log_dir := d, g_bin_name := b,
        g_log_filename := bounded_text FILE_NAME_MAX (d @ ''/'' @ b @ ''.log''),
        g_logwf_filename := bounded_text FILE_NAME_MAX (d @ ''/'' @ b @ ''.log.wf''),
        g_logmonitor_filename := bounded_text FILE_NAME_MAX (d @ ''/'' @ b @ ''.log.monitor'')\<rparr>)"

definition log_open :: "log_sys \<Rightarrow> log_file \<Rightarrow> stream option" where
  "log_open sy x = (if ls_open sy x then Some fresh_stream else None)"

(* src/src/util/log.cpp:370-396, log_init *)
definition log_start :: "log_sys \<Rightarrow> log_state \<Rightarrow> log_error \<times> log_state" where
  "log_start sy s =
     (let s = s\<lparr>g_log_f := log_open sy Log_F\<rparr> in
      if g_log_f s = None then (LOG_OPEN_FILE_ERROR, s)
      else let s = s\<lparr>g_logwf_f := log_open sy Logwf_F\<rparr> in
      if g_logwf_f s = None then (LOG_OPEN_FILE_ERROR, s)
      else let s = s\<lparr>g_logmonitor_f := log_open sy Logmonitor_F\<rparr> in
      if g_logmonitor_f s = None then (LOG_OPEN_FILE_ERROR, s)
      else if \<not> ls_key sy then (LOG_CREATE_KEY_FAIL, s)
      else let s = s\<lparr>g_key_created := True\<rparr> in
      if \<not> ls_thread sy then (LOG_CREATE_THREAD_FAIL, s)
      else (LOG_OK, s\<lparr>g_thread_created := True\<rparr>))"

(* src/src/util/log.cpp:350-397, log_init *)
definition log_init :: "log_sys \<Rightarrow> string \<Rightarrow> string \<Rightarrow> int \<Rightarrow> log_state \<Rightarrow> log_error \<times> log_state" where
  "log_init sy dir bin log_level s =
     (if strlen dir \<le> 0 \<or> strlen dir \<ge> FILE_NAME_MAX \<or> strlen bin \<le> 0 \<or> strlen bin \<ge> BIN_NAME_MAX then (LOG_PARAM_ERROR, s)
      else let s = s\<lparr>g_log_level := log_level\<rparr>;
               s = (if ls_stderr sy then s\<lparr>g_write_to_stderr := True\<rparr> else s)
      in if \<not> ls_dir sy then (LOG_CREATE_DIR_ERROR, s) else log_start sy (log_names dir bin s))"

(* src/src/util/log.cpp:399-408, log_close *)
definition log_close :: "bool \<Rightarrow> log_state \<Rightarrow> int \<times> log_state" where
  "log_close joined s = (if joined then 0 else -1, s\<lparr>g_log_running := False\<rparr>)"

(* src/src/util/log.cpp:410-419, log_join *)
definition log_join :: "bool \<Rightarrow> log_state \<Rightarrow> int \<times> log_state" where
  "log_join joined s = (if joined then 0 else -1, s)"

text \<open>A run: records that any thread appends, the first line of \<open>log_close\<close>, and turns of the thread.\<close>

datatype log_event = Log_Append log_rec | Log_Stop | Log_Turn "log_file \<Rightarrow> bool \<times> bool"

fun log_event_step :: "log_event \<Rightarrow> log_pc \<times> log_state \<Rightarrow> (log_pc \<times> log_state) option" where
  "log_event_step (Log_Append p) (pc, s) = Some (pc, s\<lparr>g_log_list := g_log_list s @ [p]\<rparr>)"
| "log_event_step Log_Stop (pc, s) = Some (pc, snd (log_close True s))"
| "log_event_step (Log_Turn oc) (pc, s) = log_thread_turn oc (pc, s)"

fun log_run :: "log_event list \<Rightarrow> log_pc \<times> log_state \<Rightarrow> (log_pc \<times> log_state) option" where
  "log_run [] st = Some st"
| "log_run (e # es) st = do { st \<leftarrow> log_event_step e st; log_run es st }"

section \<open>The text of a record\<close>

text \<open>The first \<open>N - 1\<close> bytes at most are text; the cursor stands behind them.\<close>

definition cu_holds :: "nat \<Rightarrow> string \<Rightarrow> cursor \<Rightarrow> bool" where
  "cu_holds N t cu \<longleftrightarrow> length (cu_mem cu) = N \<and> length t < N \<and> take (length t) (cu_mem cu) = t \<and>
     cu_pos cu = int (length t) \<and> cu_size cu = int N - int (length t)"

lemma cu_holdsD:
  assumes "cu_holds N t cu"
  shows "length (cu_mem cu) = N" "length t < N" "take (length t) (cu_mem cu) = t" "cu_pos cu = int (length t)"
    "cu_size cu = int N - int (length t)"
  using assms by (simp_all add: cu_holds_def)

lemma cu_holds_start: "length b = N \<Longrightarrow> 0 < N \<Longrightarrow> cu_holds N [] \<lparr>cu_mem = b, cu_pos = 0, cu_size = int N\<rparr>"
  by (simp add: cu_holds_def)

lemma take_take_append: "take n (take n t @ u) = take n (t @ u)"
  by (cases "length t \<le> n") (simp_all add: min_def)

lemma adjust_cursor_by:
  assumes "(if ret < 0 then 0 else if ret \<ge> cu_size cu then cu_size cu - 1 else ret) = k"
  shows "adjust_cursor ret (cu\<lparr>cu_mem := m\<rparr>) = cu\<lparr>cu_mem := m, cu_pos := cu_pos cu + k, cu_size := cu_size cu - k\<rparr>"
  unfolding assms [symmetric] by (simp add: adjust_cursor_def Let_def)

lemma take_length_append: "take (length (t @ v)) (t @ v @ w) = t @ v"
  by simp

lemma log_text_holds:
  assumes "cu_holds N t cu" "length u < 2 ^ 31"
  shows "\<exists>cu'. log_text u cu = Some cu' \<and> cu_holds N (take (N - 1) (t @ u)) cu' \<and>
    cu_mem cu' ! length (take (N - 1) (t @ u)) = NUL"
proof -
  note h = cu_holdsD [OF assms(1)]
  let ?v = "take (N - length t - 1) u"
  let ?m = "blit (cu_mem cu) (length t) (?v @ [NUL])"
  have v: "t @ ?v = take (N - 1) (t @ u)" using h(2) by (simp add: min_def)
  have n: "nat (cu_size cu) = N - length t" "\<not> cu_size cu \<le> 0" "\<not> cu_pos cu < 0" using h by auto
  have st: "snprintf_at u (cu_mem cu) (cu_pos cu) (cu_size cu) = Some ?m"
    using h(1,2,4) n by (simp add: snprintf_at_def)
  have w: "take (length t + length (?v @ [NUL])) ?m = take (length t) (cu_mem cu) @ (?v @ [NUL])"
    using h(1,2) by (intro take_blit_whole) simp
  have "take (length (t @ ?v)) ?m = take (length (t @ ?v)) (take (length t + length (?v @ [NUL])) ?m)" by simp
  also have "\<dots> = t @ ?v" unfolding w h(3) by (rule take_length_append)
  finally have tk: "take (length (t @ ?v)) ?m = t @ ?v" .
  have "?m ! length (t @ ?v) = take (length t + length (?v @ [NUL])) ?m ! length (t @ ?v)" by simp
  also have "\<dots> = NUL" unfolding w h(3) append_assoc [symmetric] by (rule nth_append_length)
  finally have z: "?m ! length (t @ ?v) = NUL" .
  have ret: "(if snprintf_ret u < 0 then 0 else if snprintf_ret u \<ge> cu_size cu then cu_size cu - 1 else snprintf_ret u) = int (length ?v)"
    using h(2,5) assms(2) by (auto simp: snprintf_ret_def)
  have "log_text u cu = Some (cu\<lparr>cu_mem := ?m, cu_pos := cu_pos cu + int (length ?v), cu_size := cu_size cu - int (length ?v)\<rparr>)"
    unfolding log_text_def st bind.bind_lunit by (rule arg_cong [of _ _ Some], rule adjust_cursor_by [OF ret])
  moreover have "cu_holds N (t @ ?v) (cu\<lparr>cu_mem := ?m, cu_pos := cu_pos cu + int (length ?v), cu_size := cu_size cu - int (length ?v)\<rparr>)"
    using tk h by (auto simp: cu_holds_def)
  ultimately show ?thesis using z unfolding v [symmetric] by auto
qed

lemma add_blank_holds:
  assumes "cu_holds N t cu"
  shows "if length t + 1 < N then \<exists>cu'. add_blank_space cu = Some cu' \<and> cu_holds N (t @ '' '') cu' else add_blank_space cu = None"
proof -
  note h = cu_holdsD [OF assms]
  have n: "cu_size cu > 0" "\<not> cu_pos cu < 0" "nat (cu_pos cu) = length t" "nat (cu_pos cu + 1) = length t + 1" using h by auto
  have "take (length t + 1) ((cu_mem cu)[length t := CHR '' '', length t + 1 := NUL]) = t @ '' ''"
    using h(1-3) by (simp add: take_Suc_conv_app_nth)
  then show ?thesis using h n by (auto simp: add_blank_space_def poke_at_def poke_def cu_holds_def)
qed

definition item_ok :: "log_item \<Rightarrow> bool" where
  "item_ok i \<longleftrightarrow> 0 \<le> li_len i \<and> li_len i < int LOG_ITEM_LEN_MAX \<and> length (li_buf i) = LOG_ITEM_LEN_MAX"

definition item_text :: "log_item \<Rightarrow> string" where
  "item_text i = take (nat (li_len i)) (li_buf i)"

definition items_text :: "log_item list \<Rightarrow> string" where
  "items_text ld = concat (map (\<lambda>i. item_text i @ '' '') ld)"

lemma item_okD:
  assumes "item_ok i"
  shows "0 \<le> li_len i" "length (item_text i) = nat (li_len i)" "nat (li_len i) \<le> length (li_buf i)"
  using assms by (auto simp: item_ok_def item_text_def)

text \<open>Copying an item: the text that fits, with the terminator behind it.\<close>

lemma item_copy_holds:
  assumes "cu_holds N t cu" "length b < N - length t"
  shows "\<exists>m m'. store_at (cu_mem cu) (length t) b = Some m \<and> poke m (length t + length b) NUL = Some m' \<and>
    cu_holds N (t @ b) (cu\<lparr>cu_mem := m', cu_pos := cu_pos cu + int (length b), cu_size := cu_size cu - int (length b)\<rparr>)"
proof -
  note h = cu_holdsD [OF assms(1)]
  have "take (length t + length b) (blit (cu_mem cu) (length t) b) = take (length t) (cu_mem cu) @ b"
    using h(1) assms(2) by (intro take_blit_whole) simp
  then have "take (length (t @ b)) ((blit (cu_mem cu) (length t) b)[length t + length b := NUL]) = t @ b"
    using h(3) by (simp add: take_update_swap list_update_beyond)
  then show ?thesis using h assms(2) by (simp add: cu_holds_def)
qed

lemma log_items_holds:
  assumes "cu_holds N t cu" "list_all item_ok ld"
  shows "if ld = [] \<or> length (t @ items_text ld) < N
    then \<exists>cu'. log_items ld cu = Some cu' \<and> cu_holds N (t @ items_text ld) cu' else log_items ld cu = None"
  using assms
proof (induction ld arbitrary: t cu)
  case Nil
  then show ?case by (simp add: items_text_def)
next
  case (Cons i ld)
  note h = cu_holdsD [OF Cons.prems(1)]
  have i: "item_ok i" "list_all item_ok ld" using Cons.prems(2) by auto
  define b where "b = take (N - length t - 1) (item_text i)"
  have lb: "length b < N - length t" using h(2) by (auto simp: b_def)
  have ret: "(if cu_size cu > li_len i then li_len i else if cu_size cu > 0 then cu_size cu - 1 else 0) = int (length b)"
    using h(2,5) item_okD [OF i(1)] by (auto simp: b_def)
  have ld: "load_at (li_buf i) 0 (length b) = Some b"
    using item_okD [OF i(1)] by (auto simp: b_def item_text_def load_at_def min_def)
  obtain m m' where m: "store_at (cu_mem cu) (length t) b = Some m" "poke m (length t + length b) NUL = Some m'"
    and c: "cu_holds N (t @ b) (cu\<lparr>cu_mem := m', cu_pos := cu_pos cu + int (length b), cu_size := cu_size cu - int (length b)\<rparr>)"
    using item_copy_holds [OF Cons.prems(1) lb] by blast
  let ?cu = "cu\<lparr>cu_mem := m', cu_pos := cu_pos cu + int (length b), cu_size := cu_size cu - int (length b)\<rparr>"
  have "nat (cu_pos cu + int (length b)) = length t + length b" "nat (cu_pos cu) = length t" using h(4) by auto
  then have run: "log_items (i # ld) cu = do { cu \<leftarrow> add_blank_space ?cu; log_items ld cu }"
    using ret ld m h(4) by (simp add: Let_def poke_at_def)
  show ?case
  proof (cases "length t + length (item_text i) + 1 < N")
    case True
    then have "b = item_text i" by (simp add: b_def)
    then obtain cu' where "add_blank_space ?cu = Some cu'" and c': "cu_holds N ((t @ item_text i) @ '' '') cu'"
      using add_blank_holds [OF c] True by auto
    then have "log_items (i # ld) cu = log_items ld cu'" using run by (simp del: log_items.simps)
    moreover have "((t @ item_text i) @ '' '') @ items_text ld = t @ items_text (i # ld)" by (simp add: items_text_def)
    moreover have "ld = [] \<Longrightarrow> length (t @ items_text (i # ld)) < N" using True by (simp add: items_text_def)
    ultimately show ?thesis using Cons.IH [OF c' i(2)] by (auto split: if_splits simp del: log_items.simps)
  next
    case False
    then have "add_blank_space ?cu = None" using add_blank_holds [OF c] lb by (auto simp: b_def split: if_splits)
    then show ?thesis using run False by (simp add: items_text_def)
  qed
qed

definition file_text :: "string option \<Rightarrow> string" where
  "file_text fileline = (case fileline of None \<Rightarrow> [] | Some f \<Rightarrow> ''file='' @ cstr f)"

definition func_text :: "string option \<Rightarrow> string" where
  "func_text func = (case func of None \<Rightarrow> [] | Some f \<Rightarrow> '' function='' @ cstr f @ '' '')"

definition opt_short :: "string option \<Rightarrow> bool" where
  "opt_short x \<longleftrightarrow> (case x of None \<Rightarrow> True | Some f \<Rightarrow> length (cstr f) < 2 ^ 31)"

lemma fits_take: "v \<noteq> [] \<Longrightarrow> length (take (N - 1) t @ v) < N \<longleftrightarrow> length (t @ v) < N"
  by (cases v) auto

lemma fits_take_eq: "length t < N \<Longrightarrow> take (N - 1) t = t"
  by simp

lemma log_text_twice:
  assumes "cu_holds N t cu" "length u < 2 ^ 31" "length v < 2 ^ 31"
  shows "\<exists>cu'. do { cu \<leftarrow> log_text u cu; log_text v cu } = Some cu' \<and> cu_holds N (take (N - 1) (t @ u @ v)) cu'"
proof -
  obtain c1 where c1: "log_text u cu = Some c1" "cu_holds N (take (N - 1) (t @ u)) c1"
    using log_text_holds [OF assms(1,2)] by blast
  then show ?thesis using log_text_holds [OF c1(2) assms(3)] by (auto simp: take_take_append simp del: take_append)
qed

lemma log_file_holds:
  assumes "cu_holds N t cu" "opt_short fileline"
  shows "\<exists>cu'. (case fileline of None \<Rightarrow> Some cu | Some f \<Rightarrow> do { cu \<leftarrow> log_text ''file='' cu; log_text (cstr f) cu }) = Some cu' \<and>
    cu_holds N (take (N - 1) (t @ file_text fileline)) cu'"
proof (cases fileline)
  case None
  then show ?thesis using assms(1) cu_holdsD(2) [OF assms(1)] by (simp add: file_text_def)
next
  case (Some f)
  then show ?thesis using log_text_twice [OF assms(1), of "''file=''" "cstr f"] assms(2) by (simp add: file_text_def opt_short_def)
qed

lemma log_func_holds:
  assumes "cu_holds N t cu" "length (cstr f) < 2 ^ 31"
  shows "if length (t @ func_text (Some f)) < N
    then \<exists>cu'. do { cu \<leftarrow> log_text '' function='' cu; cu \<leftarrow> log_text (cstr f) cu; add_blank_space cu } = Some cu' \<and>
      cu_holds N (t @ func_text (Some f)) cu'
    else do { cu \<leftarrow> log_text '' function='' cu; cu \<leftarrow> log_text (cstr f) cu; add_blank_space cu } = None"
proof -
  let ?u = "t @ '' function='' @ cstr f"
  obtain c1 where "do { cu \<leftarrow> log_text '' function='' cu; log_text (cstr f) cu } = Some c1" and c1: "cu_holds N (take (N - 1) ?u) c1"
    using log_text_twice [OF assms(1) _ assms(2), of "'' function=''"] by auto
  then have run: "do { cu \<leftarrow> log_text '' function='' cu; cu \<leftarrow> log_text (cstr f) cu; add_blank_space cu } = add_blank_space c1"
    by (auto split: Option.bind_splits)
  have f: "t @ func_text (Some f) = ?u @ '' ''" by (simp add: func_text_def)
  show ?thesis
  proof (cases "length (t @ func_text (Some f)) < N")
    case True
    then have "take (N - 1) ?u = ?u" unfolding f by (intro fits_take_eq) simp
    then show ?thesis using True run add_blank_holds [OF c1] unfolding f by auto
  next
    case False
    then have "\<not> length (take (N - 1) ?u) + 1 < N" unfolding f by auto
    then show ?thesis using False run add_blank_holds [OF c1] by auto
  qed
qed

lemma log_place_holds:
  assumes "cu_holds N t cu" "opt_short fileline" "opt_short func"
  shows "if func = None \<or> length (t @ file_text fileline @ func_text func) < N
    then \<exists>cu'. log_place fileline func cu = Some cu' \<and> cu_holds N (take (N - 1) (t @ file_text fileline @ func_text func)) cu'
    else log_place fileline func cu = None"
proof -
  obtain c1 where r: "log_place fileline func cu =
      (case func of None \<Rightarrow> Some c1 | Some f \<Rightarrow> do { cu \<leftarrow> log_text '' function='' c1; cu \<leftarrow> log_text (cstr f) cu; add_blank_space cu })"
    and c1: "cu_holds N (take (N - 1) (t @ file_text fileline)) c1"
    using log_file_holds [OF assms(1,2)] unfolding log_place_def by fastforce
  show ?thesis
  proof (cases func)
    case None
    then show ?thesis using r c1 by (simp add: func_text_def)
  next
    case (Some f)
    have n: "func_text (Some f) \<noteq> []" by (simp add: func_text_def)
    have l: "length (take (N - 1) (t @ file_text fileline) @ func_text (Some f)) < N \<longleftrightarrow>
        length (t @ file_text fileline @ func_text (Some f)) < N"
      using fits_take [OF n, of N "t @ file_text fileline"] by simp
    have "length (t @ file_text fileline @ func_text (Some f)) < N \<Longrightarrow>
        take (N - 1) (t @ file_text fileline) @ func_text (Some f) = take (N - 1) (t @ file_text fileline @ func_text (Some f))"
      by simp
    then show ?thesis using r Some l log_func_holds [OF c1, of f] assms(3) by (auto simp: opt_short_def split: if_splits)
  qed
qed

definition msg_text :: "log_level \<Rightarrow> string \<Rightarrow> string" where
  "msg_text level msg = (if level \<noteq> STORE_LOG_MONITOR then ''msg='' else []) @ msg @ log_line_end"

text \<open>A text that does not fit ends in a newline all the same.\<close>

definition cut_line :: "nat \<Rightarrow> string \<Rightarrow> string" where
  "cut_line N t = (if length t < N then t else take (N - 2) t @ [CHR 0x0A])"

lemma length_cut_line: "2 \<le> N \<Longrightarrow> length (cut_line N t) < N"
  by (auto simp: cut_line_def)

lemma cut_line_take:
  assumes "2 \<le> N" "t \<noteq> []" "last t = CHR 0x0A"
  shows "(take (N - 1) t)[length (take (N - 1) t) - 1 := CHR 0x0A] = cut_line N t"
proof (cases "length t < N")
  case True
  then have "take (N - 1) t = t" by (rule fits_take_eq)
  moreover have "t[length t - 1 := CHR 0x0A] = t" using assms(2,3) by (metis last_conv_nth list_update_id)
  ultimately show ?thesis using True by (simp add: cut_line_def)
next
  case False
  have s: "N - 1 = Suc (N - 2)" "N - 2 < length t" using assms(1) False by auto
  then have "take (N - 1) t = take (N - 2) t @ [t ! (N - 2)]" by (simp add: take_Suc_conv_app_nth)
  moreover have "length (take (N - 1) t) - 1 = length (take (N - 2) t)" using s by simp
  ultimately show ?thesis using False by (simp add: cut_line_def list_update_append del: length_take)
qed

lemma cut_line_head:
  assumes "2 \<le> N" "u \<noteq> []" "w = t @ u"
  shows "cut_line N (take (N - 1) t @ u) = cut_line N w"
proof (cases "length t < N")
  case True
  then show ?thesis using assms(3) by simp
next
  case False
  then have "take (N - 2) (take (N - 1) t @ u) = take (N - 2) (t @ u)" using assms(1) by (simp add: min_def)
  moreover have "\<not> length (take (N - 1) t @ u) < N" using False assms(1,2) by (cases u) auto
  ultimately show ?thesis using False assms(3) by (simp add: cut_line_def del: take_append)
qed

lemma end_newline:
  assumes "cu_holds N t cu" "t \<noteq> []" "cu_mem cu ! length t = NUL"
  shows "\<exists>m. end_line cu = Some m \<and>
    cu_holds N (t[length t - 1 := CHR 0x0A]) (cu\<lparr>cu_mem := m\<rparr>) \<and> m ! length t = NUL"
proof -
  note h = cu_holdsD [OF assms(1)]
  let ?m = "(cu_mem cu)[length t - 1 := CHR 0x0A]"
  have p: "nat (cu_pos cu - 1) = length t - 1" "\<not> cu_pos cu < 1" "length t - 1 < length (cu_mem cu)"
    using h assms(2) by (auto simp: nat_diff_distrib' Suc_le_eq)
  have "(cu_mem cu ! (length t - 1) = CHR 0x0A) \<Longrightarrow> cu_mem cu = ?m" by (metis list_update_id)
  then have "end_line cu = Some ?m"
    using p by (simp add: end_line_def poke_at_def)
  moreover have "take (length t) ?m = t[length t - 1 := CHR 0x0A]" using h(3) by (simp add: take_update_swap)
  moreover have "?m ! length t = NUL" using assms(2,3) by (cases t) simp_all
  ultimately show ?thesis using h by (simp add: cu_holds_def)
qed

lemma log_message_holds:
  assumes "cu_holds N t cu" "length msg < 2 ^ 31" "2 \<le> N"
  shows "\<exists>cu'. log_message level msg cu = Some cu' \<and> cu_holds N (cut_line N (t @ msg_text level msg)) cu' \<and>
    cu_mem cu' ! length (cut_line N (t @ msg_text level msg)) = NUL"
proof -
  let ?h = "if level \<noteq> STORE_LOG_MONITOR then ''msg='' else []"
  obtain c1 where c1: "(if level \<noteq> STORE_LOG_MONITOR then log_text ''msg='' cu else Some cu) = Some c1"
    "cu_holds N (take (N - 1) (t @ ?h)) c1"
    using log_text_holds [OF assms(1), of "''msg=''"] assms(1) cu_holdsD(2) [OF assms(1)] by (cases "level = STORE_LOG_MONITOR") auto
  obtain c2 where c2: "log_text msg c1 = Some c2" "cu_holds N (take (N - 1) (t @ ?h @ msg)) c2"
    using log_text_holds [OF c1(2) assms(2)] by (auto simp: take_take_append simp del: take_append)
  define w where "w = t @ msg_text level msg"
  have w: "t @ ?h @ msg @ log_line_end = w" "w \<noteq> []" "last w = CHR 0x0A" by (simp_all add: w_def msg_text_def log_line_end_def)
  have "length log_line_end < 2 ^ 31" by (simp add: log_line_end_def)
  then obtain c3 where c3: "log_text log_line_end c2 = Some c3" "cu_holds N (take (N - 1) w) c3" "cu_mem c3 ! length (take (N - 1) w) = NUL"
    using log_text_holds [OF c2(2), of log_line_end] w(1) by (auto simp: take_take_append simp del: take_append length_take)
  have ne: "take (N - 1) w \<noteq> []" using w(2) assms(3) by simp
  have cut: "(take (N - 1) w)[length (take (N - 1) w) - 1 := CHR 0x0A] = cut_line N w" using cut_line_take [OF assms(3) w(2,3)] .
  have len: "length (cut_line N w) = length (take (N - 1) w)" unfolding cut [symmetric] by simp
  obtain m where "end_line c3 = Some m"
    and m: "cu_holds N (cut_line N w) (c3\<lparr>cu_mem := m\<rparr>)" "m ! length (cut_line N w) = NUL"
    using end_newline [OF c3(2) ne c3(3)] unfolding cut len by blast
  then have "log_message level msg cu = Some (c3\<lparr>cu_mem := m\<rparr>)"
    using c1(1) c2(1) c3(1) by (simp add: log_message_def)
  then show ?thesis using m unfolding w_def by auto
qed

lemma items_after:
  assumes "cu_holds N (take (N - 1) t) cu" "list_all item_ok ld"
  shows "if ld = [] \<or> length (t @ items_text ld) < N
    then \<exists>cu'. log_items ld cu = Some cu' \<and> cu_holds N (take (N - 1) (t @ items_text ld)) cu' else log_items ld cu = None"
proof (cases ld)
  case Nil
  then show ?thesis using assms(1) by (simp add: items_text_def)
next
  case (Cons i ld')
  then have "items_text ld \<noteq> []" by (simp add: items_text_def)
  then have l: "length (take (N - 1) t @ items_text ld) < N \<longleftrightarrow> length (t @ items_text ld) < N" by (rule fits_take)
  show ?thesis
  proof (cases "length (t @ items_text ld) < N")
    case True
    then have "take (N - 1) t = t" "take (N - 1) (t @ items_text ld) = t @ items_text ld" by auto
    then show ?thesis using log_items_holds [OF assms] True l by simp
  next
    case False
    then show ?thesis using log_items_holds [OF assms] Cons l by simp
  qed
qed

lemma place_after:
  assumes "cu_holds N (take (N - 1) t) cu" "opt_short fileline" "opt_short func"
  shows "if func = None \<or> length (t @ file_text fileline @ func_text func) < N
    then \<exists>cu'. log_place fileline func cu = Some cu' \<and> cu_holds N (take (N - 1) (t @ file_text fileline @ func_text func)) cu'
    else log_place fileline func cu = None"
proof (cases func)
  case None
  then show ?thesis using log_place_holds [OF assms] by (simp add: take_take_append del: take_append)
next
  case (Some f)
  then have "file_text fileline @ func_text func \<noteq> []" by (simp add: func_text_def)
  then have "length (take (N - 1) t @ file_text fileline @ func_text func) < N \<longleftrightarrow> length (t @ file_text fileline @ func_text func) < N"
    by (rule fits_take)
  then show ?thesis using log_place_holds [OF assms] unfolding take_take_append by metis
qed

definition log_head :: "string \<Rightarrow> int \<Rightarrow> log_state \<Rightarrow> log_item list \<Rightarrow> log_level \<Rightarrow> string option \<Rightarrow> string option \<Rightarrow> string \<Rightarrow> string" where
  "log_head now pid s ld level fileline func levelstr =
     (if level = STORE_LOG_MONITOR then []
      else log_prefix now pid s level levelstr @ (file_text fileline @ func_text func) @ items_text ld)"

text \<open>The last blank of the record does not fit.\<close>

definition log_overflows :: "nat \<Rightarrow> log_item list \<Rightarrow> log_level \<Rightarrow> string option \<Rightarrow> string \<Rightarrow> bool" where
  "log_overflows N ld level func hdr \<longleftrightarrow> level \<noteq> STORE_LOG_MONITOR \<and> (func \<noteq> None \<or> ld \<noteq> []) \<and> N \<le> length hdr"

lemma head_holds:
  assumes "cu_holds N [] cu" "list_all item_ok ld" "opt_short fileline" "opt_short func" "length t < 2 ^ 31"
  defines "r \<equiv> do { cu \<leftarrow> log_text t cu; cu \<leftarrow> log_place fileline func cu; log_items ld cu }"
    and "w \<equiv> t @ (file_text fileline @ func_text func) @ items_text ld"
  shows "if (func = None \<and> ld = []) \<or> length w < N then \<exists>cu'. r = Some cu' \<and> cu_holds N (take (N - 1) w) cu' else r = None"
proof -
  obtain c1 where c1: "log_text t cu = Some c1" "cu_holds N (take (N - 1) t) c1"
    using log_text_holds [OF assms(1,5)] by auto
  note pl = place_after [OF c1(2) assms(3,4)]
  show ?thesis
  proof (cases "func = None \<or> length (t @ file_text fileline @ func_text func) < N")
    case True
    then obtain c2 where c2: "log_place fileline func c1 = Some c2" "cu_holds N (take (N - 1) (t @ file_text fileline @ func_text func)) c2"
      using pl by auto
    have "r = log_items ld c2" using c1(1) c2(1) by (simp add: r_def)
    moreover have "(t @ file_text fileline @ func_text func) @ items_text ld = w" by (simp add: w_def)
    moreover have "ld = [] \<Longrightarrow> func \<noteq> None \<Longrightarrow> length w < N" using True by (auto simp: w_def items_text_def)
    ultimately show ?thesis using items_after [OF c2(2) assms(2)] by (auto split: if_splits simp del: log_items.simps take_append)
  next
    case False
    then show ?thesis using pl c1(1) by (auto simp: r_def w_def)
  qed
qed

lemma LOG_BUF_LEN_simps [simp]: "LOG_BUF_LEN_MAX = 4096" "LOG_ITEM_LEN_MAX = 2048" "sizeof_log_buf = 4104" "sizeof_log_data = 2080"
  by (simp_all add: LOG_BUF_LEN_MAX_def LOG_ITEM_LEN_MAX_def sizeof_log_buf_def sizeof_log_data_def)

definition rec_text :: "log_rec \<Rightarrow> string" where
  "rec_text p = take (nat (lr_len p)) (lr_buf p)"

definition rec_ok :: "log_rec \<Rightarrow> bool" where
  "rec_ok p \<longleftrightarrow> 0 \<le> lr_len p \<and> lr_len p \<le> int (length (lr_buf p))"

text \<open>The record holds the line \<open>t\<close> and a zero byte behind it.\<close>

definition rec_holds :: "log_level \<Rightarrow> string \<Rightarrow> log_rec \<Rightarrow> bool" where
  "rec_holds level t p \<longleftrightarrow> lr_level p = level \<and> length (lr_buf p) = LOG_BUF_LEN_MAX \<and> lr_len p = int (length t) \<and>
     length t < LOG_BUF_LEN_MAX \<and> rec_text p = t \<and> lr_buf p ! length t = NUL"

lemma log_record_holds:
  fixes now pid s ld level fileline func levelstr
  defines "hdr \<equiv> log_head now pid s ld level fileline func levelstr"
  assumes "mem_ok a" "list_all item_ok ld" "opt_short fileline" "opt_short func" "length msg < 2 ^ 31"
    "length (log_prefix now pid s level levelstr) < 2 ^ 31"
  shows "if log_overflows LOG_BUF_LEN_MAX ld level func hdr then log_record a now pid s ld level fileline func levelstr msg = None
    else \<exists>p. log_record a now pid s ld level fileline func levelstr msg = Some p \<and>
      rec_holds level (cut_line LOG_BUF_LEN_MAX (hdr @ msg_text level msg)) p"
proof -
  obtain b where b: "malloc_block a 4104 = Some b" "length b = 4104" using malloc_block_ok [OF assms(2)] by blast
  define c0 where "c0 = \<lparr>cu_mem = take 4096 b, cu_pos = 0, cu_size = 4096\<rparr>"
  have c0: "cu_holds 4096 [] c0" using b(2) by (simp add: c0_def cu_holds_def)
  define r where "r = (if level = STORE_LOG_MONITOR then Some c0
      else do { cu \<leftarrow> log_text (log_prefix now pid s level levelstr) c0; cu \<leftarrow> log_place fileline func cu; log_items ld cu })"
  have run: "log_record a now pid s ld level fileline func levelstr msg = do {
      cu \<leftarrow> r; cu \<leftarrow> log_message level msg cu; Some \<lparr>lr_buf = cu_mem cu, lr_len = cu_pos cu, lr_level = level\<rparr> }"
    by (simp add: log_record_def b(1) r_def Let_def flip: c0_def)
  have h: "if log_overflows 4096 ld level func hdr then r = None
      else \<exists>cu. r = Some cu \<and> cu_holds 4096 (take (4096 - 1) hdr) cu"
    using c0 head_holds [OF c0 assms(3,4,5,7)] by (auto simp: r_def hdr_def log_head_def log_overflows_def simp del: take_append)
  show ?thesis
  proof (cases "log_overflows 4096 ld level func hdr")
    case True
    then show ?thesis using h run by simp
  next
    case False
    then obtain cu where cu: "r = Some cu" "cu_holds 4096 (take (4096 - 1) hdr) cu" using h by auto
    define w where "w = hdr @ msg_text level msg"
    have w: "cut_line 4096 (take (4096 - 1) hdr @ msg_text level msg) = cut_line 4096 w"
      by (rule cut_line_head) (simp_all add: w_def msg_text_def log_line_end_def)
    obtain c1 where c1: "log_message level msg cu = Some c1" "cu_holds 4096 (cut_line 4096 w) c1" "cu_mem c1 ! length (cut_line 4096 w) = NUL"
      using log_message_holds [OF cu(2) assms(6), of level] unfolding w by auto
    note d = cu_holdsD [OF c1(2)]
    show ?thesis using False run cu(1) c1(1,3) d by (simp add: rec_holds_def rec_text_def flip: w_def)
  qed
qed

lemma item_fill_ok:
  assumes "length (li_buf node) = LOG_ITEM_LEN_MAX" "length k < 2 ^ 31" "length v < 2 ^ 31"
  shows "\<exists>i. item_fill k v node = Some i \<and> item_ok i \<and> item_text i = take (LOG_ITEM_LEN_MAX - 1) (k @ ''='' @ v)"
proof -
  let ?c = "\<lparr>cu_mem = li_buf node, cu_pos = 0, cu_size = int LOG_ITEM_LEN_MAX\<rparr>"
  have c: "cu_holds 2048 [] ?c" using assms(1) by (simp add: cu_holds_def)
  obtain c2 where c2: "do { cu \<leftarrow> log_text k ?c; log_text ''='' cu } = Some c2" "cu_holds 2048 (take (2048 - 1) (k @ ''='')) c2"
    using log_text_twice [OF c assms(2), of "''=''"] by auto
  obtain c3 where c3: "log_text v c2 = Some c3" "cu_holds 2048 (take (2048 - 1) (k @ ''='' @ v)) c3"
    using log_text_holds [OF c2(2) assms(3)] unfolding take_take_append append_assoc by blast
  have "item_fill k v node = Some \<lparr>li_buf = cu_mem c3, li_len = cu_pos c3\<rparr>"
    using c2(1) c3(1) by (auto simp: item_fill_def Let_def split: Option.bind_splits)
  then show ?thesis using cu_holdsD [OF c3(2)] by (simp add: item_ok_def item_text_def del: take_append length_take)
qed

lemma log_push_ok:
  assumes "mem_ok a" "ld \<noteq> []" "list_all item_ok ld" "length k < 2 ^ 31" "length v < 2 ^ 31"
  shows "\<exists>i. log_push a k v ld = Some ((if li_len (last ld) > 0 then ld else butlast ld) @ [i]) \<and> item_ok i \<and>
    item_text i = take (LOG_ITEM_LEN_MAX - 1) (k @ ''='' @ v)"
proof (cases "li_len (last ld) > 0")
  case True
  obtain b where "malloc_block a 2080 = Some b" "length b = 2080" using malloc_block_ok [OF assms(1)] by blast
  then obtain n where "log_data_new a = Some n" "length (li_buf n) = LOG_ITEM_LEN_MAX" by (simp add: log_data_new_def)
  then show ?thesis using item_fill_ok [of n, OF _ assms(4,5)] assms(2) True by (auto simp: log_push_def)
next
  case False
  have "item_ok (last ld)" using assms(2,3) by (simp add: list_all_iff)
  then show ?thesis using item_fill_ok [of "last ld", OF _ assms(4,5)] assms(2) False by (auto simp: log_push_def item_ok_def)
qed

section \<open>What the thread writes\<close>

text \<open>Everything a stream has taken, whether it is in a file or in a buffer.\<close>

definition stream_all :: "stream \<Rightarrow> string" where
  "stream_all st = concat (st_old st) @ st_file st @ st_buf st"

definition file_all :: "log_file \<Rightarrow> log_state \<Rightarrow> string" where
  "file_all x s = (case get_file x s of None \<Rightarrow> [] | Some st \<Rightarrow> stream_all st)"

definition recs_for :: "log_file \<Rightarrow> log_rec list \<Rightarrow> string" where
  "recs_for x ps = concat (map rec_text (filter (\<lambda>p. log_file_of (lr_level p) = x) ps))"

definition file_flushed :: "log_file \<Rightarrow> log_state \<Rightarrow> bool" where
  "file_flushed x s \<longleftrightarrow> (case get_file x s of None \<Rightarrow> False | Some st \<Rightarrow> st_buf st = [])"

text \<open>The files are open, the records have the length they say, and a file with unflushed bytes will be flushed.\<close>

fun log_inv :: "log_pc \<times> log_state \<Rightarrow> bool" where
  "log_inv (pc, s) \<longleftrightarrow> (\<forall>x. get_file x s \<noteq> None) \<and> list_all rec_ok (g_log_list s) \<and>
     (\<forall>x. file_flushed x s \<or> (case pc of Log_Drain fl \<Rightarrow> fl x | _ \<Rightarrow> False))"

lemma get_set_file [simp]: "get_file y (set_file x f s) = (if y = x then f else get_file y s)"
  by (cases x; cases y) simp_all

lemma set_file_sel [simp]: "g_log_list (set_file x f s) = g_log_list s" "g_log_running (set_file x f s) = g_log_running s"
  by (cases x; simp)+

lemma get_file_upd [simp]: "get_file x (s\<lparr>g_log_list := l\<rparr>) = get_file x s" "get_file x (s\<lparr>g_log_running := b\<rparr>) = get_file x s"
  by (cases x; simp)+

lemma file_all_upd [simp]: "file_all x (s\<lparr>g_log_list := l\<rparr>) = file_all x s" "file_all x (s\<lparr>g_log_running := b\<rparr>) = file_all x s"
  by (simp_all add: file_all_def)

lemma file_flushed_upd [simp]:
  "file_flushed x (s\<lparr>g_log_list := l\<rparr>) = file_flushed x s" "file_flushed x (s\<lparr>g_log_running := b\<rparr>) = file_flushed x s"
  by (simp_all add: file_flushed_def)

text \<open>Two states with the same records to write and the same text in every file.\<close>

definition same_log :: "log_state \<Rightarrow> log_state \<Rightarrow> bool" where
  "same_log s s' \<longleftrightarrow> (\<forall>x. get_file x s' \<noteq> None \<and> file_all x s' = file_all x s \<and> (file_flushed x s \<longrightarrow> file_flushed x s')) \<and>
     g_log_list s' = g_log_list s \<and> g_log_running s' = g_log_running s"

lemma log_reopen_file_same:
  assumes "\<forall>x. get_file x s \<noteq> None"
  shows "\<exists>s'. log_reopen_file x oc s = Some s' \<and> same_log s s'"
proof -
  obtain st where "get_file x s = Some st" using assms by auto
  then show ?thesis
    using assms by (cases oc) (auto simp: log_reopen_file_def log_reopen_def same_log_def file_all_def stream_all_def file_flushed_def)
qed

lemma same_log_trans: "same_log s s' \<Longrightarrow> same_log s' s'' \<Longrightarrow> same_log s s''"
  by (simp add: same_log_def)

lemma same_log_open: "same_log s s' \<Longrightarrow> \<forall>x. get_file x s' \<noteq> None"
  by (simp add: same_log_def)

lemma log_check_files_same:
  assumes "\<forall>x. get_file x s \<noteq> None"
  shows "\<exists>s'. log_check_files oc s = Some s' \<and> same_log s s'"
proof -
  obtain s1 where s1: "log_reopen_file Log_F (oc Log_F) s = Some s1" "same_log s s1" using log_reopen_file_same [OF assms] by blast
  obtain s2 where s2: "log_reopen_file Logwf_F (oc Logwf_F) s1 = Some s2" "same_log s1 s2"
    using log_reopen_file_same [OF same_log_open [OF s1(2)]] by blast
  obtain s3 where s3: "log_reopen_file Logmonitor_F (oc Logmonitor_F) s2 = Some s3" "same_log s2 s3"
    using log_reopen_file_same [OF same_log_open [OF s2(2)]] by blast
  show ?thesis using s1 s2 s3 same_log_trans by (auto simp: log_check_files_def)
qed

lemma log_flush_file_same:
  assumes "\<forall>x. get_file x s \<noteq> None"
  shows "same_log s (log_flush_file fl x s) \<and> (fl x \<longrightarrow> file_flushed x (log_flush_file fl x s))"
proof -
  obtain st where "get_file x s = Some st" using assms by auto
  then show ?thesis
    using assms by (auto simp: log_flush_file_def same_log_def fflush_stream_def file_all_def stream_all_def file_flushed_def)
qed

lemma log_flush_same:
  assumes "\<forall>x. get_file x s \<noteq> None" "\<forall>x. file_flushed x s \<or> fl x"
  shows "same_log s (log_flush fl s) \<and> (\<forall>x. file_flushed x (log_flush fl s))"
proof -
  let ?s1 = "log_flush_file fl Log_F s" and ?s2 = "log_flush_file fl Logwf_F (log_flush_file fl Log_F s)"
  note f1 = log_flush_file_same [OF assms(1), of fl Log_F]
  note f2 = log_flush_file_same [OF same_log_open [OF conjunct1 [OF f1]], of fl Logwf_F]
  note f3 = log_flush_file_same [OF same_log_open [OF conjunct1 [OF f2]], of fl Logmonitor_F]
  have "file_flushed x (log_flush fl s)" for x
    using f1 f2 f3 assms(2) by (cases x) (auto simp: same_log_def log_flush_def)
  moreover have "same_log s (log_flush fl s)"
    using f1 f2 f3 unfolding log_flush_def by (blast intro: same_log_trans)
  ultimately show ?thesis by blast
qed

lemma log_write_ok:
  assumes "\<forall>x. get_file x s \<noteq> None" "rec_ok p"
  shows "\<exists>s'. log_write p s = Some s' \<and> (\<forall>x. get_file x s' \<noteq> None) \<and> g_log_list s' = g_log_list s \<and> g_log_running s' = g_log_running s \<and>
    (\<forall>x. file_all x s' = file_all x s @ recs_for x [p]) \<and> (\<forall>x. x \<noteq> log_file_of (lr_level p) \<longrightarrow> file_flushed x s' = file_flushed x s)"
proof -
  let ?x = "log_file_of (lr_level p)"
  obtain st where st: "get_file ?x s = Some st" using assms(1) by auto
  have "load_at (lr_buf p) 0 (nat (lr_len p)) = Some (rec_text p)" using assms(2) by (simp add: rec_ok_def rec_text_def load_at_def nat_le_iff)
  then have "log_write p s = Some (set_file ?x (Some (st\<lparr>st_buf := st_buf st @ rec_text p\<rparr>)) s)"
    using st by (simp add: log_write_def fwrite_stream_def)
  then show ?thesis using st assms(1) by (auto simp: file_all_def stream_all_def recs_for_def file_flushed_def)
qed

lemma recs_for_simps [simp]:
  "recs_for x [] = []" "recs_for x (ps @ qs) = recs_for x ps @ recs_for x qs"
  by (simp_all add: recs_for_def)

lemma recs_for_Cons: "recs_for x (p # ps) = recs_for x [p] @ recs_for x ps"
  by (simp add: recs_for_def)

fun appended :: "log_event list \<Rightarrow> log_rec list" where
  "appended [] = []"
| "appended (Log_Append p # es) = p # appended es"
| "appended (_ # es) = appended es"

lemma log_turn_ok:
  assumes "log_inv (pc, s)"
  shows "\<exists>pc' s'. log_thread_turn oc (pc, s) = Some (pc', s') \<and> log_inv (pc', s') \<and>
    (\<forall>x. file_all x s' @ recs_for x (g_log_list s') = file_all x s @ recs_for x (g_log_list s))"
proof (cases pc)
  case Log_Check
  have o: "\<forall>x. get_file x s \<noteq> None" "\<forall>x. file_flushed x s" "list_all rec_ok (g_log_list s)" using assms Log_Check by simp_all
  obtain s' where s': "log_check_files oc s = Some s'" "same_log s s'" using log_check_files_same [OF o(1)] by blast
  then have "log_inv (Log_Drain (\<lambda>_. False), s')" using o by (simp add: same_log_def)
  moreover have "log_inv (Log_Done, s)" using o by simp
  moreover have "log_thread_turn oc (pc, s) = Some (if g_log_running s then (Log_Drain (\<lambda>_. False), s') else (Log_Done, s))"
    using s'(1) Log_Check by simp
  ultimately show ?thesis using s'(2) by (cases "g_log_running s") (simp_all add: same_log_def del: log_inv.simps)
next
  case (Log_Drain fl)
  have o: "\<forall>x. get_file x s \<noteq> None" "\<forall>x. file_flushed x s \<or> fl x" "list_all rec_ok (g_log_list s)" using assms Log_Drain by simp_all
  show ?thesis
  proof (cases "g_log_list s")
    case Nil
    have f: "same_log s (log_flush fl s)" "\<forall>x. file_flushed x (log_flush fl s)" using log_flush_same [OF o(1,2)] by simp_all
    then have "log_inv (Log_Check, log_flush fl s)" using o by (simp add: same_log_def)
    moreover have "log_thread_turn oc (pc, s) = Some (Log_Check, log_flush fl s)" using Nil Log_Drain by simp
    ultimately show ?thesis using f(1) by (simp add: same_log_def del: log_inv.simps)
  next
    case (Cons p ps)
    have p: "rec_ok p" "list_all rec_ok ps" using o(3) Cons by simp_all
    obtain s' where s': "log_write p s = Some s'" "\<forall>x. get_file x s' \<noteq> None" "\<forall>x. file_all x s' = file_all x s @ recs_for x [p]"
      "\<forall>x. x \<noteq> log_file_of (lr_level p) \<longrightarrow> file_flushed x s' = file_flushed x s"
      using log_write_ok [OF o(1) p(1)] by blast
    let ?fl = "fl(log_file_of (lr_level p) := True)"
    have "log_inv (Log_Drain ?fl, s'\<lparr>g_log_list := ps\<rparr>)" using s'(2,4) p(2) o(2) by simp
    moreover have "recs_for x (g_log_list s) = recs_for x [p] @ recs_for x ps" for x unfolding Cons by (rule recs_for_Cons)
    moreover have "log_thread_turn oc (pc, s) = Some (Log_Drain ?fl, s'\<lparr>g_log_list := ps\<rparr>)" using s'(1) Cons Log_Drain by simp
    ultimately show ?thesis using s'(3) by (simp del: log_inv.simps)
  qed
next
  case Log_Done
  then show ?thesis using assms by (simp del: log_inv.simps)
qed

lemma log_event_ok:
  assumes "log_inv (pc, s)" "list_all rec_ok (appended [e])"
  shows "\<exists>pc' s'. log_event_step e (pc, s) = Some (pc', s') \<and> log_inv (pc', s') \<and>
    (\<forall>x. file_all x s' @ recs_for x (g_log_list s') = file_all x s @ recs_for x (g_log_list s) @ recs_for x (appended [e]))"
proof (cases e)
  case (Log_Turn oc)
  then show ?thesis using log_turn_ok [OF assms(1), of oc] by simp
qed (use assms in \<open>auto simp: log_close_def\<close>)

lemma appended_Cons: "appended (e # es) = appended [e] @ appended es"
  by (cases e) simp_all

lemma log_run_ok:
  assumes "log_inv (pc, s)" "list_all rec_ok (appended es)"
  shows "\<exists>pc' s'. log_run es (pc, s) = Some (pc', s') \<and> log_inv (pc', s') \<and>
    (\<forall>x. file_all x s' @ recs_for x (g_log_list s') = file_all x s @ recs_for x (g_log_list s) @ recs_for x (appended es))"
  using assms
proof (induction es arbitrary: pc s)
  case (Cons e es)
  then have r: "list_all rec_ok (appended [e])" "list_all rec_ok (appended es)" by (simp_all add: appended_Cons [of e es])
  obtain pc1 s1 where 1: "log_event_step e (pc, s) = Some (pc1, s1)" "log_inv (pc1, s1)"
    "\<forall>x. file_all x s1 @ recs_for x (g_log_list s1) = file_all x s @ recs_for x (g_log_list s) @ recs_for x (appended [e])"
    using log_event_ok [OF Cons.prems(1) r(1)] by blast
  obtain pc2 s2 where 2: "log_run es (pc1, s1) = Some (pc2, s2)" "log_inv (pc2, s2)"
    "\<forall>x. file_all x s2 @ recs_for x (g_log_list s2) = file_all x s1 @ recs_for x (g_log_list s1) @ recs_for x (appended es)"
    using Cons.IH [OF 1(2) r(2)] by blast
  have "file_all x s2 @ recs_for x (g_log_list s2) = file_all x s @ recs_for x (g_log_list s) @ recs_for x (appended (e # es))" for x
    unfolding appended_Cons [of e es] using 1(3) 2(3) by (simp flip: append_assoc)
  then show ?case using 1(1) 2(1,2) by auto
qed simp

text \<open>In the inner loop the thread needs a turn per record and one to flush.\<close>

lemma log_drains:
  assumes "log_inv (Log_Drain fl, s)" "length ocs = length (g_log_list s) + 1"
  shows "\<exists>s'. log_run (map Log_Turn ocs) (Log_Drain fl, s) = Some (Log_Check, s') \<and> g_log_list s' = [] \<and> (\<forall>x. file_flushed x s')"
  using assms
proof (induction "g_log_list s" arbitrary: s fl ocs)
  case Nil
  have l: "g_log_list s = []" using Nil(1) by simp
  then obtain oc where "ocs = [oc]" using Nil(3) by (auto simp: length_Suc_conv)
  then show ?case using log_flush_same [of s fl] Nil(2) l by (auto simp: same_log_def)
next
  case (Cons p ps)
  obtain oc ocs' where o: "ocs = oc # ocs'" "length ocs' = length ps + 1" using Cons(4) unfolding Cons(2) [symmetric] by (cases ocs) auto
  obtain s' where s': "log_write p s = Some s'" using log_write_ok [of s p] Cons(2,3) by (metis list.pred_inject(2) log_inv.simps)
  let ?fl = "fl(log_file_of (lr_level p) := True)"
  have t: "log_thread_turn oc (Log_Drain fl, s) = Some (Log_Drain ?fl, s'\<lparr>g_log_list := ps\<rparr>)"
    using s' Cons(2) by (simp flip: Cons(2))
  then have "log_inv (Log_Drain ?fl, s'\<lparr>g_log_list := ps\<rparr>)" using log_turn_ok [OF Cons(3), of oc] by auto
  then show ?case using Cons(1) [of "s'\<lparr>g_log_list := ps\<rparr>" ?fl ocs'] o t by (simp del: log_thread_turn.simps log_inv.simps)
qed

lemma log_done: "log_run (map Log_Turn ocs) (Log_Done, s) = Some (Log_Done, s)"
  by (induction ocs) simp_all

lemma log_init_inv:
  assumes "log_init sy dir bin lv s0 = (LOG_OK, s)" "list_all rec_ok (g_log_list s0)"
  shows "log_inv (Log_Check, s)" "file_all x s = []" "g_log_list s = g_log_list s0" "g_log_running s = g_log_running s0"
proof -
  let ?s0 = "s0\<lparr>g_log_level := lv\<rparr>"
  define s1 where "s1 = log_names dir bin (if ls_stderr sy then ?s0\<lparr>g_write_to_stderr := True\<rparr> else ?s0)"
  have s1: "g_log_list s1 = g_log_list s0" "g_log_running s1 = g_log_running s0" by (simp_all add: s1_def log_names_def Let_def)
  have "log_start sy s1 = (LOG_OK, s)"
    using assms(1) by (auto simp: log_init_def Let_def s1_def split: if_splits)
  then have s: "s = s1\<lparr>g_log_f := Some fresh_stream, g_logwf_f := Some fresh_stream, g_logmonitor_f := Some fresh_stream,
      g_key_created := True, g_thread_created := True\<rparr>"
    by (auto simp: log_start_def Let_def log_open_def split: if_splits)
  then have f: "get_file y s = Some fresh_stream" for y by (cases y) simp_all
  show "log_inv (Log_Check, s)" "file_all x s = []" "g_log_list s = g_log_list s0" "g_log_running s = g_log_running s0"
    using f s1 s assms(2) by (simp_all add: file_all_def file_flushed_def fresh_stream_def stream_all_def)
qed

lemma log_check_drains:
  assumes "log_inv (Log_Check, s)" "g_log_running s" "length ocs = length (g_log_list s) + 2"
  shows "\<exists>s'. log_run (map Log_Turn ocs) (Log_Check, s) = Some (Log_Check, s') \<and> g_log_list s' = [] \<and> (\<forall>x. file_flushed x s')"
proof -
  obtain oc ocs' where o: "ocs = oc # ocs'" "length ocs' = length (g_log_list s) + 1" using assms(3) by (cases ocs) auto
  obtain s1 where s1: "log_check_files oc s = Some s1" "same_log s s1" using log_check_files_same [of s oc] assms(1) by auto
  then have "log_inv (Log_Drain (\<lambda>_. False), s1)" using assms(1) by (auto simp: same_log_def)
  then show ?thesis using log_drains [of "\<lambda>_. False" s1 ocs'] s1 o assms(2) by (auto simp: same_log_def simp del: log_inv.simps)
qed

lemma appended_turns [simp]: "appended (map Log_Turn ocs) = []"
  by (induction ocs) simp_all

lemma log_run_append: "log_run (es @ fs) st = do { st \<leftarrow> log_run es st; log_run fs st }"
  by (induction es arbitrary: st) (simp_all cong: Option.bind_cong)

lemma log_turns_running:
  "log_run (map Log_Turn ocs) (pc, s) = Some (pc', s') \<Longrightarrow> g_log_running s' = g_log_running s"
proof (induction ocs arbitrary: pc s)
  case (Cons oc ocs)
  obtain pc1 s1 where 1: "log_thread_turn oc (pc, s) = Some (pc1, s1)" "log_run (map Log_Turn ocs) (pc1, s1) = Some (pc', s')"
    using Cons.prems by (auto split: Option.bind_splits)
  have "g_log_running s1 = g_log_running s"
    using 1(1) by (cases pc) (auto simp: log_check_files_def log_reopen_file_def log_write_def log_flush_def log_flush_file_def
        split: Option.bind_splits if_splits list.splits)
  then show ?case using Cons.IH [OF 1(2)] by simp
qed simp

section \<open>Properties\<close>

text \<open>
  C16: a message becomes one line: colour, level, time, program and process, place, the items of the thread, each followed
  by a blank, and the message. A line that does not fit into the 4096 bytes of a record is cut and still ends in a
  newline, and the record is terminated. The exception is a line whose last blank does not fit: the blank is put into
  the last byte of the array and the terminator behind the array.
\<close>

theorem log_printf_writes_line:
  assumes "mem_ok a" "list_all item_ok ld" "opt_short fileline" "opt_short func" "length msg < 2 ^ 31"
    "length (log_prefix now pid s level levelstr) < 2 ^ 31"
  shows "if log_overflows LOG_BUF_LEN_MAX ld level func (log_head now pid s ld level fileline func levelstr)
    then log_printf a now pid s ld level fileline func levelstr msg = None
    else \<exists>p s'. log_printf a now pid s ld level fileline func levelstr msg = Some (lr_len p, s') \<and>
      g_log_list s' = g_log_list s @ [p] \<and>
      rec_holds level (cut_line LOG_BUF_LEN_MAX (log_head now pid s ld level fileline func levelstr @ msg_text level msg)) p"
  using log_record_holds [OF assms] by (auto simp: log_printf_def Let_def)

definition demo_log :: log_state where
  "demo_log = \<lparr>g_log_level = 16, g_write_to_stderr = False, g_log_filename = [], g_logwf_filename = [], g_logmonitor_filename = [],
     g_log_f = None, g_logwf_f = None, g_logmonitor_f = None, g_log_dir = [], g_bin_name = ''srv'', g_log_running = True,
     g_log_list = [], g_key_created = False, g_thread_created = False, g_stderr = []\<rparr>"

theorem log_printf_writes_line_witness:
  "\<exists>p s'. log_printf demo_mem ''11-15 08:00:00'' 7 demo_log [] STORE_LOG_NOTICE (Some ''a.cpp:3'') (Some ''f'') ''NOTICE'' ''up'' = Some (lr_len p, s') \<and>
    rec_text p = ESC # ''[36mNOTICE: 11-15 08:00:00 srv * 7 [file=a.cpp:3 function=f msg=up]'' @ ESC # ''[0m'' @ [CHR 0x0A]"
proof -
  have h: "log_head ''11-15 08:00:00'' 7 demo_log [] STORE_LOG_NOTICE (Some ''a.cpp:3'') (Some ''f'') ''NOTICE'' =
      ESC # ''[36mNOTICE: 11-15 08:00:00 srv * 7 [file=a.cpp:3 function=f ''" by code_simp
  have m: "msg_text STORE_LOG_NOTICE ''up'' = ''msg=up]'' @ ESC # ''[0m'' @ [CHR 0x0A]" by code_simp
  have p: "log_prefix ''11-15 08:00:00'' 7 demo_log STORE_LOG_NOTICE ''NOTICE'' = ESC # ''[36mNOTICE: 11-15 08:00:00 srv * 7 [''" by code_simp
  show ?thesis
    using log_printf_writes_line [OF demo_mem_ok, of "[]" "Some ''a.cpp:3''" "Some ''f''" "''up''" "''11-15 08:00:00''" 7 demo_log
        STORE_LOG_NOTICE "''NOTICE''"] unfolding h m p
    by (auto simp: log_overflows_def opt_short_def cstr_def cut_line_def rec_holds_def)
qed


definition demo_sys :: log_sys where
  "demo_sys = \<lparr>ls_stderr = False, ls_dir = True, ls_open = (\<lambda>_. True), ls_key = True, ls_thread = True\<rparr>"

definition demo_rec :: "log_level \<Rightarrow> string \<Rightarrow> log_rec" where
  "demo_rec level t = \<lparr>lr_buf = t, lr_len = int (length t), lr_level = level\<rparr>"


text \<open>
  C37: \<open>log_close\<close> makes the thread return in a bounded number of turns. If the thread is in its sleep or in its inner
  loop at that moment, everything that waits is written and flushed first. If it is at its test, it returns at once and
  the records that wait are never written: they stay in the list.
\<close>

theorem log_close_flushes_unless_at_test:
  assumes "log_inv (pc, s)" "length ocs = length (g_log_list s) + 2"
  shows "\<exists>s'. log_run (Log_Stop # map Log_Turn ocs) (pc, s) = Some (Log_Done, s') \<and>
    (case pc of
       Log_Drain _ \<Rightarrow> g_log_list s' = [] \<and> (\<forall>x. file_flushed x s' \<and> file_all x s' = file_all x s @ recs_for x (g_log_list s))
     | _ \<Rightarrow> g_log_list s' = g_log_list s \<and> (\<forall>x. file_all x s' = file_all x s))"
proof (cases pc)
  case Log_Check
  obtain oc ocs' where "ocs = oc # ocs'" using assms(2) by (cases ocs) auto
  then show ?thesis using log_done [of ocs' "s\<lparr>g_log_running := False\<rparr>"] Log_Check by (simp add: log_close_def)
next
  case (Log_Drain fl)
  let ?s = "s\<lparr>g_log_running := False\<rparr>"
  obtain oc ocs' where o: "ocs = ocs' @ [oc]" "length ocs' = length (g_log_list ?s) + 1" using assms(2) by (cases ocs rule: rev_cases) auto
  have i: "log_inv (Log_Drain fl, ?s)" using assms(1) Log_Drain by simp
  obtain s' where s': "log_run (map Log_Turn ocs') (Log_Drain fl, ?s) = Some (Log_Check, s')" "g_log_list s' = []" "\<forall>x. file_flushed x s'"
    using log_drains [OF i o(2)] by blast
  moreover have "\<not> g_log_running s'" using log_turns_running [OF s'(1)] by simp
  moreover have "file_all x s' = file_all x s @ recs_for x (g_log_list s)" for x
    using log_run_ok [OF i, of "map Log_Turn ocs'"] s'(1,2) by auto
  ultimately show ?thesis using Log_Drain o(1) by (auto simp: log_run_append log_close_def)
next
  case Log_Done
  then show ?thesis using log_done [of ocs "s\<lparr>g_log_running := False\<rparr>"] by (simp add: log_close_def)
qed

theorem log_close_flushes_unless_at_test_witness:
  "\<exists>s'. log_run (Log_Stop # map Log_Turn (replicate 3 (\<lambda>_. (False, False)))) (Log_Check,
      demo_log\<lparr>g_log_f := Some fresh_stream, g_logwf_f := Some fresh_stream, g_logmonitor_f := Some fresh_stream,
        g_log_list := [demo_rec STORE_LOG_FATAL ''x'']\<rparr>) = Some (Log_Done, s') \<and> g_log_list s' = [demo_rec STORE_LOG_FATAL ''x'']"
proof -
  let ?s = "demo_log\<lparr>g_log_f := Some fresh_stream, g_logwf_f := Some fresh_stream, g_logmonitor_f := Some fresh_stream,
        g_log_list := [demo_rec STORE_LOG_FATAL ''x'']\<rparr>"
  have "get_file x ?s = Some fresh_stream" for x by (cases x) simp_all
  then have "log_inv (Log_Check, ?s)" by (simp add: file_flushed_def fresh_stream_def rec_ok_def demo_rec_def)
  then show ?thesis
    using log_close_flushes_unless_at_test [of Log_Check ?s "replicate 3 (\<lambda>_. (False, False))"]
    by (simp del: log_inv.simps) blast
qed

end
