(* ===== verification/Stats.thy ===== *)
theory Stats
  imports Sds "HOL-Library.AList"
begin

text \<open>
  The counters of \<^verbatim>\<open>src/src/util/stat.cpp\<close>. Every thread has a map of its own, which is made at its first access; a
  query adds the maps up or takes the largest value. A map is an association list; its order does not matter. The maps
  live at addresses, because \<open>stat_destroy\<close> releases them and leaves the pointers of the threads as they are. Every
  operation holds the lock of the map it works on and is one step.
\<close>

type_synonym container = "(string \<times> int) list"

(* src/src/util/stat.cpp:24-32, stat_data_t *)
record stats =
  st_data :: "nat \<Rightarrow> container option"
  st_thread :: "nat \<Rightarrow> nat option"
  st_list :: "nat list"
  st_next :: nat

definition stats_new :: stats where
  "stats_new = \<lparr>st_data = (\<lambda>_. None), st_thread = (\<lambda>_. None), st_list = [], st_next = 0\<rparr>"

text \<open>The value behind \<open>operator[]\<close>, which makes an entry with the value 0 where there is none.\<close>

definition entry :: "container \<Rightarrow> string \<Rightarrow> int" where
  "entry m k = (case map_of m k of None \<Rightarrow> 0 | Some v \<Rightarrow> v)"

definition touch :: "string \<Rightarrow> container \<Rightarrow> container" where
  "touch k m = AList.update k (entry m k) m"

definition s64_range :: "int \<Rightarrow> bool" where
  "s64_range v \<longleftrightarrow> - (2 ^ 63) \<le> v \<and> v < 2 ^ 63"

text \<open>Signed overflow is undefined.\<close>

definition add_entry :: "string \<Rightarrow> int \<Rightarrow> container \<Rightarrow> container option" where
  "add_entry k d m = (if s64_range (entry m k + d) then Some (AList.update k (entry m k + d) m) else None)"

(* src/src/util/stat.cpp:38-46, stat_init_thread_data *)
definition stat_init_thread_data :: "nat \<Rightarrow> stats \<Rightarrow> (nat \<times> stats) option" where
  "stat_init_thread_data t s =
     (if st_thread s t \<noteq> None then None
      else Some (st_next s, s\<lparr>st_data := (st_data s)(st_next s \<mapsto> []), st_thread := (st_thread s)(t \<mapsto> st_next s),
        st_list := st_list s @ [st_next s], st_next := st_next s + 1\<rparr>))"

(* src/src/util/stat.cpp:49-57, stat_destroy_thread_data *)
definition stat_destroy :: "stats \<Rightarrow> stats" where
  "stat_destroy s = s\<lparr>st_data := (\<lambda>p. if p \<in> set (st_list s) then None else st_data s p), st_list := []\<rparr>"

(* src/src/util/stat.cpp:59-67, stat_get_thread_data *)
definition stat_get_thread_data :: "nat \<Rightarrow> stats \<Rightarrow> (nat \<times> stats) option" where
  "stat_get_thread_data t s = (case st_thread s t of Some p \<Rightarrow> Some (p, s) | None \<Rightarrow> stat_init_thread_data t s)"

definition on_thread :: "nat \<Rightarrow> (container \<Rightarrow> ('r \<times> container) option) \<Rightarrow> stats \<Rightarrow> ('r \<times> stats) option" where
  "on_thread t f s = do {
     (p, s) \<leftarrow> stat_get_thread_data t s;
     m \<leftarrow> st_data s p;
     (r, m) \<leftarrow> f m;
     Some (r, s\<lparr>st_data := (st_data s)(p \<mapsto> m)\<rparr>) }"

(* src/src/util/stat.cpp:73-77, stat_set *)
definition stat_set :: "nat \<Rightarrow> string \<Rightarrow> int \<Rightarrow> stats \<Rightarrow> (unit \<times> stats) option" where
  "stat_set t k v = on_thread t (\<lambda>m. Some ((), AList.update k v m))"

(* src/src/util/stat.cpp:79-85, stat_set_max *)
definition stat_set_max :: "nat \<Rightarrow> string \<Rightarrow> int \<Rightarrow> stats \<Rightarrow> (unit \<times> stats) option" where
  "stat_set_max t k v = on_thread t (\<lambda>m. let m = touch k m in Some ((), if v > entry m k then AList.update k v m else m))"

(* src/src/util/stat.cpp:87-91, stat_incr *)
definition stat_incr :: "nat \<Rightarrow> string \<Rightarrow> int \<Rightarrow> stats \<Rightarrow> (unit \<times> stats) option" where
  "stat_incr t k step = on_thread t (\<lambda>m. map_option (Pair ()) (add_entry k step m))"

(* src/src/util/stat.cpp:93-97, stat_decr *)
definition stat_decr :: "nat \<Rightarrow> string \<Rightarrow> int \<Rightarrow> stats \<Rightarrow> (unit \<times> stats) option" where
  "stat_decr t k step = on_thread t (\<lambda>m. map_option (Pair ()) (add_entry k (- step) m))"

(* src/src/util/stat.cpp:99-103, stat_get *)
definition stat_get :: "nat \<Rightarrow> string \<Rightarrow> stats \<Rightarrow> (int \<times> stats) option" where
  "stat_get t k = on_thread t (\<lambda>m. let m = touch k m in Some (entry m k, m))"

(* src/src/util/stat.cpp:122-126, stat_get_all *)
definition max_entry :: "string \<Rightarrow> int \<Rightarrow> container \<Rightarrow> container" where
  "max_entry k v m =
     (let m = (if map_of m k = None then AList.update k v m else m)
      in if entry m k < v then AList.update k v m else m)"

(* src/src/util/stat.cpp:116-127, stat_get_all *)
fun collect :: "container \<Rightarrow> container \<times> container \<Rightarrow> (container \<times> container) option" where
  "collect [] r = Some r"
| "collect ((k, v) # m) (sum_result, max_result) = do {
     sum_result \<leftarrow> add_entry k v sum_result;
     collect m (sum_result, max_entry k v max_result) }"

fun collect_all :: "container list \<Rightarrow> container \<times> container \<Rightarrow> (container \<times> container) option" where
  "collect_all [] r = Some r"
| "collect_all (m # ms) r = do { r \<leftarrow> collect m r; collect_all ms r }"

definition thread_maps :: "stats \<Rightarrow> container list option" where
  "thread_maps s = those (map (st_data s) (st_list s))"

(* src/src/util/stat.cpp:105-129, stat_get_all *)
definition stat_get_all :: "stats \<Rightarrow> (container \<times> container) option" where
  "stat_get_all s = do { ms \<leftarrow> thread_maps s; collect_all ms ([], []) }"

text \<open>The sum makes an entry in the map of every thread.\<close>

fun sum_loop :: "string \<Rightarrow> nat list \<Rightarrow> int \<Rightarrow> stats \<Rightarrow> (int \<times> stats) option" where
  "sum_loop k [] result s = Some (result, s)"
| "sum_loop k (p # ps) result s = do {
     m \<leftarrow> st_data s p;
     if s64_range (result + entry m k)
     then sum_loop k ps (result + entry m k) (s\<lparr>st_data := (st_data s)(p \<mapsto> touch k m)\<rparr>) else None }"

(* src/src/util/stat.cpp:131-142, stat_get_sum *)
definition stat_get_sum :: "string \<Rightarrow> stats \<Rightarrow> (int \<times> stats) option" where
  "stat_get_sum k s = sum_loop k (st_list s) 0 s"

fun max_loop :: "string \<Rightarrow> container list \<Rightarrow> int \<Rightarrow> int" where
  "max_loop k [] result = result"
| "max_loop k (m # ms) result =
     max_loop k ms (case map_of m k of None \<Rightarrow> result | Some v \<Rightarrow> if v > result then v else result)"

(* src/src/util/stat.cpp:144-159, stat_get_max *)
definition stat_get_max :: "string \<Rightarrow> stats \<Rightarrow> int option" where
  "stat_get_max k s = do { ms \<leftarrow> thread_maps s; Some (max_loop k ms (- (2 ^ 63))) }"

section \<open>Sums and maxima over all threads\<close>

text \<open>The values the threads have for a key.\<close>

definition vals :: "string \<Rightarrow> container list \<Rightarrow> int list" where
  "vals k ms = List.map_filter (\<lambda>m. map_of m k) ms"

definition collected :: "(string \<Rightarrow> int list) \<Rightarrow> container \<times> container \<Rightarrow> bool" where
  "collected vs r \<longleftrightarrow> (\<forall>k. map_of (fst r) k = (if vs k = [] then None else Some (sum_list (vs k))) \<and>
     map_of (snd r) k = (if vs k = [] then None else Some (Max (set (vs k)))))"

lemma map_of_max_entry:
  "map_of (max_entry k v m) j = (if j = k then Some (case map_of m k of None \<Rightarrow> v | Some w \<Rightarrow> max w v) else map_of m j)"
  by (auto simp: max_entry_def entry_def Let_def update_conv' max_def split: option.split)

lemma collect_ok:
  assumes "collected vs r" "distinct (map fst m)" "\<forall>k v. (k, v) \<in> set m \<longrightarrow> s64_range (sum_list (vs k) + v)"
  shows "\<exists>r'. collect m r = Some r' \<and> collected (\<lambda>k. vs k @ (case map_of m k of None \<Rightarrow> [] | Some v \<Rightarrow> [v])) r'"
  using assms
proof (induction m arbitrary: r vs)
  case Nil
  then show ?case by simp
next
  case (Cons kv m)
  obtain k v where kv: "kv = (k, v)" by (cases kv)
  obtain sm mx where r: "r = (sm, mx)" by (cases r)
  have e: "entry sm k = sum_list (vs k)" using Cons.prems(1) by (auto simp: collected_def entry_def r)
  let ?vs = "vs(k := vs k @ [v])"
  have c: "collected ?vs (AList.update k (entry sm k + v) sm, max_entry k v mx)"
    using Cons.prems(1) e by (auto simp: collected_def r update_conv' map_of_max_entry max.commute)
  have "\<forall>j w. (j, w) \<in> set m \<longrightarrow> s64_range (sum_list (?vs j) + w)"
    using Cons.prems(2,3) by (force simp: kv)
  then obtain r' where r': "collect m (AList.update k (entry sm k + v) sm, max_entry k v mx) = Some r'"
    "collected (\<lambda>j. ?vs j @ (case map_of m j of None \<Rightarrow> [] | Some v \<Rightarrow> [v])) r'"
    using Cons.IH [OF c] Cons.prems(2) by auto
  have "k \<notin> fst ` set m" using Cons.prems(2) by (simp add: kv)
  then have "map_of m k = None" by (simp add: map_of_eq_None_iff)
  then have "(\<lambda>j. ?vs j @ (case map_of m j of None \<Rightarrow> [] | Some v \<Rightarrow> [v])) =
      (\<lambda>j. vs j @ (case map_of (kv # m) j of None \<Rightarrow> [] | Some v \<Rightarrow> [v]))"
    by (auto simp: kv)
  then show ?case using r' Cons.prems(3) e by (simp add: kv r add_entry_def)
qed

lemma vals_Cons: "vals k (m # ms) = (case map_of m k of None \<Rightarrow> [] | Some v \<Rightarrow> [v]) @ vals k ms"
  by (simp add: vals_def List.map_filter_simps split: option.split)

text \<open>Counters below \<open>2^31\<close> in absolute value, over fewer than \<open>2^32\<close> threads, do not overflow.\<close>

definition small_map :: "container \<Rightarrow> bool" where
  "small_map m \<longleftrightarrow> distinct (map fst m) \<and> (\<forall>(k, v) \<in> set m. \<bar>v\<bar> < 2 ^ 31)"

lemma sum_small:
  assumes "\<forall>v \<in> set vs. \<bar>v\<bar> < (2 ^ 31 :: int)"
  shows "\<bar>sum_list vs\<bar> \<le> int (length vs) * 2 ^ 31"
  using assms by (induction vs) auto

lemma collect_all_ok:
  assumes "collected vs r" "\<forall>m \<in> set ms. small_map m" "\<forall>k. (\<forall>v \<in> set (vs k). \<bar>v\<bar> < 2 ^ 31) \<and> length (vs k) + length ms < 2 ^ 32"
  shows "\<exists>r'. collect_all ms r = Some r' \<and> collected (\<lambda>k. vs k @ vals k ms) r'"
  using assms
proof (induction ms arbitrary: r vs)
  case Nil
  then show ?case by (simp add: vals_def List.map_filter_simps)
next
  case (Cons m ms)
  let ?vs = "\<lambda>k. vs k @ (case map_of m k of None \<Rightarrow> [] | Some v \<Rightarrow> [v])"
  have m: "distinct (map fst m)" "\<And>k v. (k, v) \<in> set m \<Longrightarrow> \<bar>v\<bar> < 2 ^ 31" using Cons.prems(2) by (auto simp: small_map_def)
  have "s64_range (sum_list (vs k) + v)" if "(k, v) \<in> set m" for k v
  proof -
    have "\<bar>sum_list (vs k)\<bar> \<le> int (length (vs k)) * 2 ^ 31" "int (length (vs k)) \<le> 2 ^ 32 - 2"
      using sum_small [of "vs k"] Cons.prems(3) [rule_format, of k] by auto
    then have "\<bar>sum_list (vs k)\<bar> \<le> (2 ^ 32 - 2) * 2 ^ 31"
      using mult_right_mono [of "int (length (vs k))" "2 ^ 32 - 2" "2 ^ 31"] by (meson order_trans zero_le_numeral zero_le_power)
    then show ?thesis using m(2) [OF that] by (auto simp: s64_range_def abs_le_iff abs_less_iff)
  qed
  then obtain r1 where r1: "collect m r = Some r1" "collected ?vs r1" using collect_ok [OF Cons.prems(1) m(1)] by blast
  have "(\<forall>v \<in> set (?vs k). \<bar>v\<bar> < 2 ^ 31) \<and> length (?vs k) + length ms < 2 ^ 32" for k
    using Cons.prems(3) [rule_format, of k] m(2) by (auto dest!: map_of_SomeD split: option.split)
  then obtain r' where "collect_all ms r1 = Some r'" "collected (\<lambda>k. ?vs k @ vals k ms) r'"
    using Cons.IH [OF r1(2)] Cons.prems(2) by auto
  then show ?case using r1(1) by (simp add: vals_Cons)
qed

text \<open>\<open>stat_get_all\<close> returns, for exactly the keys that some thread has, the sum and the largest of the values.\<close>

lemma stat_get_all_ok:
  assumes "thread_maps s = Some ms" "\<forall>m \<in> set ms. small_map m" "length ms < 2 ^ 32"
  shows "\<exists>sm mx. stat_get_all s = Some (sm, mx) \<and>
    (\<forall>k. map_of sm k = (if vals k ms = [] then None else Some (sum_list (vals k ms))) \<and>
      map_of mx k = (if vals k ms = [] then None else Some (Max (set (vals k ms)))))"
proof -
  have "collected (\<lambda>_. []) ([], [])" by (simp add: collected_def)
  then show ?thesis using collect_all_ok [of "\<lambda>_. []" "([], [])" ms] assms by (auto simp: stat_get_all_def collected_def)
qed

lemma max_loop_eq: "max_loop k ms r = Max (set (r # vals k ms))"
proof (induction ms arbitrary: r)
  case Nil
  then show ?case by (simp add: vals_def List.map_filter_simps)
next
  case (Cons m ms)
  show ?case
  proof (cases "map_of m k")
    case None
    then show ?thesis using Cons by (simp add: vals_Cons)
  next
    case (Some v)
    have "Max (insert (max v r) (set (vals k ms))) = Max (insert r (insert v (set (vals k ms))))"
      by (cases "vals k ms = []") (simp_all add: max.assoc max.commute max.left_commute)
    moreover have "max_loop k (m # ms) r = max_loop k ms (max v r)" using Some by (auto simp: max_def)
    ultimately show ?thesis using Cons [of "max v r"] Some by (simp add: vals_Cons del: max_loop.simps)
  qed
qed

lemma those_mem: "those xs = Some ms \<Longrightarrow> Some m \<in> set xs \<Longrightarrow> m \<in> set ms"
  by (induction xs arbitrary: ms) (auto split: option.splits)

text \<open>
  Reading a counter changes it: \<open>stat_get\<close> makes an entry 0 in the map of the calling thread, so that
  afterwards the maximum over all threads is not below 0.
\<close>

lemma stat_get_changes_max:
  assumes "stat_get t k s = Some (v, s')" "stat_get_max k s' = Some x" "st_thread s t = None"
  shows "v = 0 \<and> 0 \<le> x"
proof -
  let ?m = "AList.update k 0 ([] :: container)"
  have s': "v = 0" "st_list s' = st_list s @ [st_next s]" "st_data s' (st_next s) = Some ?m"
    using assms(1,3)
    by (auto simp: stat_get_def on_thread_def stat_get_thread_data_def stat_init_thread_data_def touch_def entry_def Let_def)
  obtain ms where ms: "thread_maps s' = Some ms" "x = max_loop k ms (- (2 ^ 63))"
    using assms(2) by (auto simp: stat_get_max_def split: Option.bind_splits)
  have "?m \<in> set ms" using ms(1) s'(2,3) those_mem [of "map (st_data s') (st_list s')" ms ?m] by (simp add: thread_maps_def)
  then have "0 \<in> set (vals k ms)" by (force simp: vals_def List.map_filter_def)
  then show ?thesis using s'(1) ms(2) by (auto simp: max_loop_eq intro: Max_ge)
qed

end
