(* ===== verification/Hash_Lock.thy ===== *)
theory Hash_Lock
  imports Statuses "HOL-Library.Word"
begin

unbundle bit_operations_syntax

text \<open>
  The hash function of \<^verbatim>\<open>src/src/util/hash.cpp\<close> and the locks by key of \<^verbatim>\<open>key_lock.h\<close>. The hash reads eight bytes at a
  time in the byte order of the machine, which is little-endian here. A lock is the thread that holds it.
\<close>

section \<open>MurmurHash64A\<close>

definition murmur_m :: "64 word" where "murmur_m = 0xc6a4a7935bd1e995"

(* src/src/util/hash.cpp:34-39, MurmurHash64A *)
definition murmur_mix :: "64 word \<Rightarrow> 64 word \<Rightarrow> 64 word" where
  "murmur_mix k h =
     (let k = k * murmur_m; k = k XOR drop_bit 47 k; k = k * murmur_m in (h XOR k) * murmur_m)"

(* src/src/util/hash.cpp:30-40, MurmurHash64A *)
fun murmur_words :: "nat \<Rightarrow> string \<Rightarrow> nat \<Rightarrow> 64 word \<Rightarrow> 64 word option" where
  "murmur_words 0 key p h = Some h"
| "murmur_words (Suc n) key p h = do { b \<leftarrow> load_at key p 8; murmur_words n key (p + 8) (murmur_mix (of_nat (le_nat b)) h) }"

text \<open>The cases fall through from the last byte to the first.\<close>

(* src/src/util/hash.cpp:46-52, MurmurHash64A *)
fun murmur_bytes :: "nat \<Rightarrow> string \<Rightarrow> nat \<Rightarrow> 64 word \<Rightarrow> 64 word option" where
  "murmur_bytes 0 key p h = Some h"
| "murmur_bytes (Suc n) key p h = do { c \<leftarrow> peek key (p + n); murmur_bytes n key p (h XOR push_bit (8 * n) (of_nat (ord c))) }"

(* src/src/util/hash.cpp:44-54, MurmurHash64A *)
definition murmur_tail :: "nat \<Rightarrow> string \<Rightarrow> nat \<Rightarrow> 64 word \<Rightarrow> 64 word option" where
  "murmur_tail n key p h = (if n = 0 then Some h else map_option (\<lambda>h. h * murmur_m) (murmur_bytes n key p h))"

(* src/src/util/hash.cpp:20-61, MurmurHash64A *)
definition MurmurHash64A :: "string \<Rightarrow> int \<Rightarrow> 32 word \<Rightarrow> 64 word option" where
  "MurmurHash64A key len seed =
     (if len < 0 then None
      else do {
        let h = ucast seed XOR (of_int len * murmur_m);
        h \<leftarrow> murmur_words (nat len div 8) key 0 h;
        h \<leftarrow> murmur_tail (nat len mod 8) key (8 * (nat len div 8)) h;
        let h = (h XOR drop_bit 47 h) * murmur_m;
        Some (h XOR drop_bit 47 h) })"

(* src/src/util/hash.cpp:63-65, hash *)
definition hash :: "string \<Rightarrow> nat \<Rightarrow> 64 word option" where
  "hash src sz = MurmurHash64A src (s32 (int sz)) 0xba1dba1d"

(* src/src/util/hash.cpp:67-69, strhash *)
definition strhash :: "string \<Rightarrow> 64 word option" where
  "strhash s = hash s (strlen s)"

section \<open>Locks by key\<close>

(* src/src/util/key_lock.h:60-63, KeyLock *)
record key_lock =
  kl_num :: nat
  kl_mask :: nat
  kl_list :: "nat option list"

text \<open>Shifting by the width of \<open>int\<close> or into its sign is undefined.\<close>

(* src/src/util/key_lock.cpp:18-28, KeyLock::KeyLock *)
definition KeyLock_new :: "nat \<Rightarrow> key_lock option" where
  "KeyLock_new bucket_power =
     (if bucket_power \<ge> 31 then None
      else Some \<lparr>kl_num = 2 ^ bucket_power, kl_mask = 2 ^ bucket_power - 1, kl_list = replicate (2 ^ bucket_power) None\<rparr>)"

definition kl_bucket :: "key_lock \<Rightarrow> slice_t \<Rightarrow> nat option" where
  "kl_bucket kl key = map_option (\<lambda>h. unat (h AND of_nat (kl_mask kl))) (hash (drop (sl_data key) (sl_mem key)) (sl_size key))"

text \<open>A mutex is not recursive. Locking one that is held blocks, which is \<open>Some None\<close> here.\<close>

(* src/src/util/key_lock.h:35-38, KeyLock::lock *)
definition KeyLock_lock :: "nat \<Rightarrow> slice_t \<Rightarrow> key_lock \<Rightarrow> key_lock option option" where
  "KeyLock_lock t key kl = do {
     i \<leftarrow> kl_bucket kl key;
     m \<leftarrow> peek (kl_list kl) i;
     Some (if m = None then Some (kl\<lparr>kl_list := (kl_list kl)[i := Some t]\<rparr>) else None) }"

text \<open>Unlocking a mutex that another thread holds, or none, is undefined.\<close>

(* src/src/util/key_lock.h:40-43, KeyLock::unlock *)
definition KeyLock_unlock :: "nat \<Rightarrow> slice_t \<Rightarrow> key_lock \<Rightarrow> key_lock option" where
  "KeyLock_unlock t key kl = do {
     i \<leftarrow> kl_bucket kl key;
     m \<leftarrow> peek (kl_list kl) i;
     if m = Some t then Some (kl\<lparr>kl_list := (kl_list kl)[i := None]\<rparr>) else None }"

(* src/src/util/key_lock.h:45-57, KeyLock::try_lock *)
definition KeyLock_try_lock :: "nat \<Rightarrow> slice_t \<Rightarrow> key_lock \<Rightarrow> (bool \<times> key_lock) option" where
  "KeyLock_try_lock t key kl = do {
     i \<leftarrow> kl_bucket kl key;
     m \<leftarrow> peek (kl_list kl) i;
     Some (if m = None then (True, kl\<lparr>kl_list := (kl_list kl)[i := Some t]\<rparr>) else (False, kl)) }"

section \<open>The hash is a function of the content\<close>

text \<open>The same hash over the list of the bytes: eight at a time, then the rest.\<close>

definition murmur_rest :: "string \<Rightarrow> 64 word \<Rightarrow> 64 word" where
  "murmur_rest bs h = foldr (\<lambda>i h. h XOR push_bit (8 * i) (of_nat (ord (bs ! i)))) [0..<length bs] h"

fun murmur_ref :: "nat \<Rightarrow> string \<Rightarrow> 64 word \<Rightarrow> 64 word" where
  "murmur_ref 0 bs h = (if bs = [] then h else murmur_rest bs h * murmur_m)"
| "murmur_ref (Suc n) bs h = murmur_ref n (drop 8 bs) (murmur_mix (of_nat (le_nat (take 8 bs))) h)"

definition murmur_hash :: "string \<Rightarrow> 32 word \<Rightarrow> 64 word" where
  "murmur_hash bs seed =
     (let h = murmur_ref (length bs div 8) bs (ucast seed XOR (of_nat (length bs) * murmur_m));
          h = (h XOR drop_bit 47 h) * murmur_m
      in h XOR drop_bit 47 h)"

lemma murmur_bytes_ok:
  assumes "p + n \<le> length key"
  shows "murmur_bytes n key p h = Some (foldr (\<lambda>i h. h XOR push_bit (8 * i) (of_nat (ord (key ! (p + i))))) [0..<n] h)"
  using assms
proof (induction n arbitrary: h)
  case (Suc n)
  then show ?case by simp
qed simp

lemma murmur_words_ok:
  assumes "p + 8 * n + r \<le> length key"
  shows "\<exists>h'. murmur_words n key p h = Some h' \<and>
    murmur_ref n (take (8 * n + r) (drop p key)) h = murmur_ref 0 (take r (drop (p + 8 * n) key)) h'"
  using assms
proof (induction n arbitrary: p h)
  case (Suc n)
  let ?b = "take 8 (drop p key)"
  have b: "load_at key p 8 = Some ?b" using Suc.prems by simp
  obtain h' where h': "murmur_words n key (p + 8) (murmur_mix (of_nat (le_nat ?b)) h) = Some h'"
    "murmur_ref n (take (8 * n + r) (drop (p + 8) key)) (murmur_mix (of_nat (le_nat ?b)) h) =
       murmur_ref 0 (take r (drop (p + 8 + 8 * n) key)) h'"
    using Suc.IH [of "p + 8"] Suc.prems by auto
  have "drop 8 (take (8 * Suc n + r) (drop p key)) = take (8 * n + r) (drop (p + 8) key)"
    by (simp add: drop_take add.commute)
  moreover have "take 8 (take (8 * Suc n + r) (drop p key)) = ?b" by simp
  ultimately have "murmur_ref (Suc n) (take (8 * Suc n + r) (drop p key)) h = murmur_ref 0 (take r (drop (p + 8 + 8 * n) key)) h'"
    using h'(2) by (simp only: murmur_ref.simps)
  moreover have "murmur_words (Suc n) key p h = Some h'" using b h'(1) by simp
  ultimately show ?case by (simp add: add.assoc)
qed simp

lemma foldr_upt_cong: "(\<And>i h. i < n \<Longrightarrow> f i h = g i h) \<Longrightarrow> foldr f [0..<n] h = foldr g [0..<n] h"
  by (induction n arbitrary: h) simp_all

lemma murmur_rest_ok:
  assumes "p + r \<le> length key"
  shows "murmur_bytes r key p h = Some (murmur_rest (take r (drop p key)) h)"
proof -
  let ?bs = "take r (drop p key)"
  have l: "length ?bs = r" using assms by simp
  have "foldr (\<lambda>i h. h XOR push_bit (8 * i) (of_nat (ord (key ! (p + i))))) [0..<r] h =
      foldr (\<lambda>i h. h XOR push_bit (8 * i) (of_nat (ord (?bs ! i)))) [0..<r] h"
    by (rule foldr_upt_cong) (use assms in simp)
  then show ?thesis using murmur_bytes_ok [OF assms, of h] unfolding murmur_rest_def l by simp
qed

text \<open>
  The function reads the \<open>len\<close> bytes it is given and no other, and its value is a function of these bytes.
\<close>

lemma MurmurHash64A_ok:
  assumes "n \<le> length key" "n < 2 ^ 31"
  shows "MurmurHash64A key (int n) seed = Some (murmur_hash (take n key) seed)"
proof -
  let ?r = "n mod 8" and ?d = "n div 8"
  have n: "8 * ?d + ?r = n" by simp
  define h0 where "h0 = ucast seed XOR (of_nat n * murmur_m)"
  obtain h1 where h1: "murmur_words ?d key 0 h0 = Some h1"
    "murmur_ref ?d (take n key) h0 = murmur_ref 0 (take ?r (drop (8 * ?d) key)) h1"
    using murmur_words_ok [of 0 ?d ?r key h0] assms(1) n by auto
  have "length (take ?r (drop (8 * ?d) key)) = ?r" using assms(1) n unfolding length_take length_drop by linarith
  then have e: "take ?r (drop (8 * ?d) key) = [] \<longleftrightarrow> ?r = 0" by (metis length_0_conv)
  have "murmur_tail ?r key (8 * ?d) h1 = Some (murmur_ref ?d (take n key) h0)"
    using murmur_rest_ok [of "8 * ?d" ?r key h1] assms(1) n e unfolding h1(2) by (auto simp: murmur_tail_def)
  moreover have "length (take n key) = n" using assms(1) by simp
  ultimately show ?thesis
    using h1(1) by (simp add: MurmurHash64A_def murmur_hash_def Let_def h0_def)
qed

lemma hash_ok: "n \<le> length key \<Longrightarrow> n < 2 ^ 31 \<Longrightarrow> hash key n = Some (murmur_hash (take n key) 0xba1dba1d)"
  using MurmurHash64A_ok by (simp add: hash_def)

section \<open>Mutual exclusion by key\<close>

definition kl_ok :: "key_lock \<Rightarrow> bool" where
  "kl_ok kl \<longleftrightarrow> (\<exists>n < 31. kl_num kl = 2 ^ n \<and> kl_mask kl = 2 ^ n - 1 \<and> length (kl_list kl) = 2 ^ n)"

lemma KeyLock_new_ok: "KeyLock_new n = Some kl \<Longrightarrow> kl_ok kl"
  by (auto simp: KeyLock_new_def kl_ok_def split: if_splits)

lemma bucket_in_range:
  assumes "kl_ok kl" "slice_ok key" "sl_size key < 2 ^ 31"
  shows "\<exists>i. kl_bucket kl key = Some i \<and> i < length (kl_list kl) \<and>
    i = unat (murmur_hash (slice_val key) 0xba1dba1d AND of_nat (kl_mask kl))"
proof -
  obtain n where n: "n < 31" "kl_mask kl = 2 ^ n - 1" "length (kl_list kl) = 2 ^ n" using assms(1) by (auto simp: kl_ok_def)
  let ?h = "murmur_hash (slice_val key) 0xba1dba1d"
  have "hash (drop (sl_data key) (sl_mem key)) (sl_size key) = Some ?h"
    using hash_ok [of "sl_size key" "drop (sl_data key) (sl_mem key)"] assms(2,3) by (simp add: slice_ok_def slice_val_def)
  moreover have "(of_nat (2 ^ n - 1) :: 64 word) = mask n" by (simp add: mask_eq_exp_minus_1 of_nat_diff)
  then have "?h AND of_nat (kl_mask kl) = take_bit n ?h" by (simp add: n(2) take_bit_eq_mask)
  then have "unat (?h AND of_nat (kl_mask kl)) < 2 ^ n" by (simp add: unsigned_take_bit_eq take_bit_nat_less_exp)
  ultimately show ?thesis using n(3) by (simp add: kl_bucket_def)
qed

text \<open>
  After a thread has locked a key, no thread locks a key with the same bytes until it is unlocked, and unlocking
  leaves the locks as they were.
\<close>

lemma key_lock_excludes:
  assumes "kl_ok kl" "slice_ok key" "slice_ok key'" "slice_val key' = slice_val key" "sl_size key < 2 ^ 31"
    "KeyLock_lock t key kl = Some (Some kl1)"
  shows "kl_ok kl1" "KeyLock_lock t' key' kl1 = Some None" "KeyLock_try_lock t' key' kl1 = Some (False, kl1)"
    "KeyLock_unlock t key' kl1 = Some kl"
proof -
  have "sl_size key' = sl_size key" using length_slice_val [OF assms(2)] length_slice_val [OF assms(3)] assms(4) by simp
  moreover obtain i where i: "kl_bucket kl key = Some i" "i < length (kl_list kl)"
      "i = unat (murmur_hash (slice_val key) 0xba1dba1d AND of_nat (kl_mask kl))"
    using bucket_in_range [OF assms(1,2,5)] by blast
  moreover have k1: "kl_list kl ! i = None" "kl1 = kl\<lparr>kl_list := (kl_list kl)[i := Some t]\<rparr>"
    using assms(6) i by (auto simp: KeyLock_lock_def split: if_splits)
  then show "kl_ok kl1" using assms(1) by (simp add: kl_ok_def)
  ultimately have j: "kl_bucket kl1 key' = Some i"
    using bucket_in_range [of kl1 key'] assms(3-5) \<open>kl_ok kl1\<close> k1(2) by auto
  show "KeyLock_lock t' key' kl1 = Some None" "KeyLock_try_lock t' key' kl1 = Some (False, kl1)"
    using j i(2) k1 by (simp_all add: KeyLock_lock_def KeyLock_try_lock_def)
  have "(kl_list kl)[i := None] = kl_list kl" using k1(1) by (metis list_update_id)
  then show "KeyLock_unlock t key' kl1 = Some kl" using j i(2) k1 by (simp add: KeyLock_unlock_def)
qed

end
