(* ===== verification/File_Util.thy ===== *)
theory File_Util
  imports Sds
begin

text \<open>
  The path functions of \<^verbatim>\<open>src/src/util/file.cpp\<close>. A \<open>std::string\<close> is the list of its characters, which may contain zero
  bytes; what the system sees of it is its C string. The state of the file system is a parameter, with the
  outcomes of the calls on it. Paths are shorter than \<open>2^31\<close> bytes, so that their length fits the \<open>int\<close> it is stored in.
\<close>

section \<open>Paths\<close>

text \<open>An index that moves backwards while a condition holds; the number is one more than the index.\<close>

fun back_while :: "(char \<Rightarrow> bool) \<Rightarrow> string \<Rightarrow> nat \<Rightarrow> nat" where
  "back_while P s 0 = 0"
| "back_while P s (Suc n) = (if P (s ! n) then back_while P s n else Suc n)"

(* src/src/util/file.cpp:83-86, FileUtil::dirname *)
fun skip_slashes :: "string \<Rightarrow> nat \<Rightarrow> nat" where
  "skip_slashes s (Suc (Suc n)) = (if s ! Suc n = CHR ''/'' then skip_slashes s (Suc n) else Suc (Suc n))"
| "skip_slashes s n = n"

(* src/src/util/file.cpp:58-91, FileUtil::dirname *)
definition dirname :: "string \<Rightarrow> bool \<Rightarrow> string" where
  "dirname pathname reserve_last_slash =
     (let n = back_while (\<lambda>c. c = CHR ''/'') pathname (length pathname) in
      if n = 0 then ''/''
      else
        let n = back_while (\<lambda>c. c \<noteq> CHR ''/'') pathname n;
            (parent, n) = (if n = 0 then (''./'', 2) else (pathname[n := NUL], n))
        in if reserve_last_slash then parent else parent[skip_slashes parent n := NUL])"

(* src/src/util/file.cpp:93-113, FileUtil::basename *)
definition basename :: "string \<Rightarrow> string" where
  "basename pathname =
     (let e = back_while (\<lambda>c. c = CHR ''/'') pathname (length pathname) in
      if e = 0 then ''/''
      else let b = back_while (\<lambda>c. c \<noteq> CHR ''/'') pathname e in take (e - b) (drop b pathname))"

section \<open>Directories\<close>

text \<open>
  \<open>fo_usable\<close>: the path is a directory that can be read, written and searched; \<open>fo_exists\<close>: there is something at the
  path; \<open>fo_mkdir\<close>: the outcome of making a directory.
\<close>

record 'f fs_ops =
  fo_usable :: "string \<Rightarrow> 'f \<Rightarrow> bool"
  fo_exists :: "string \<Rightarrow> 'f \<Rightarrow> bool"
  fo_mkdir :: "string \<Rightarrow> 'f \<Rightarrow> bool \<times> 'f"

(* src/src/util/file.cpp:115-135, FileUtil::create_parent_dir *)
partial_function (option) create_parent_dir :: "'f fs_ops \<Rightarrow> string \<Rightarrow> 'f \<Rightarrow> (int \<times> 'f) option" where
  "create_parent_dir fo path f =
     (let parent = dirname path False in
      if fo_usable fo (cstr parent) f then Some (0, f)
      else if fo_exists fo (cstr parent) f then Some (-1, f)
      else do {
        (r, f) \<leftarrow> create_parent_dir fo parent f;
        if r = 0 then (case fo_mkdir fo (cstr parent) f of (ok, f) \<Rightarrow> Some (if ok then 0 else -1, f)) else Some (-1, f) })"

(* src/src/util/file.cpp:137-153, FileUtil::create_dir *)
definition create_dir :: "'f fs_ops \<Rightarrow> string \<Rightarrow> 'f \<Rightarrow> (int \<times> 'f) option" where
  "create_dir fo path f =
     (if fo_usable fo (cstr path) f then Some (0, f)
      else if fo_exists fo (cstr path) f then Some (-1, f)
      else do {
        (r, f) \<leftarrow> create_parent_dir fo path f;
        if r = 0 then (case fo_mkdir fo (cstr path) f of (ok, f) \<Rightarrow> Some (if ok then 0 else -1, f)) else Some (-1, f) })"

text \<open>
  The entries of the directory and whether reading it failed after them. A name is compared with as many bytes as the
  prefix has; behind its end it has unspecified bytes up to the 256 of the array.
\<close>

(* src/src/util/file.cpp:155-197, FileUtil::scan_dir *)
definition scan_dir :: "(string list \<times> bool) option \<Rightarrow> string \<Rightarrow> (int \<times> string list) option" where
  "scan_dir dir prefix =
     (case dir of
        None \<Rightarrow> Some (-1, [])
      | Some (names, failed) \<Rightarrow>
          if length prefix > 256 \<or> NUL \<in> set prefix then None
          else Some (if failed then -1 else 0,
            filter (\<lambda>d. take (length prefix) d = prefix) (filter (\<lambda>d. d \<noteq> ''..'' \<and> d \<noteq> ''.'') names)))"

section \<open>The parts of a path\<close>

lemma back_while_append:
  assumes "\<forall>c \<in> set t. P c" "s = [] \<or> \<not> P (last s)"
  shows "back_while P (s @ t @ u) (length s + length t) = length s"
  using assms(1)
proof (induction t arbitrary: u rule: rev_induct)
  case Nil
  show ?case
  proof (cases s rule: rev_cases)
    case (snoc s' c)
    then show ?thesis using assms(2) by (simp add: nth_append)
  qed simp
next
  case (snoc c t)
  then show ?case using snoc.IH [of "c # u"] by (simp add: nth_append)
qed

lemma skip_slashes_append:
  assumes "\<forall>c \<in> set t. c = CHR ''/''" "s \<noteq> []" "length s = 1 \<or> last s \<noteq> CHR ''/''"
  shows "skip_slashes (s @ t @ u) (length s + length t) = length s"
  using assms(1)
proof (induction t arbitrary: u rule: rev_induct)
  case Nil
  obtain s' c where s: "s = s' @ [c]" using assms(2) by (cases s rule: rev_cases) auto
  show ?case
  proof (cases s' rule: rev_cases)
    case Nil
    then show ?thesis using s by simp
  next
    case (snoc s'' d)
    then show ?thesis using s assms(3) by (simp add: nth_append)
  qed
next
  case (snoc c t)
  obtain n where n: "length s + length t = Suc n" using assms(2) by (cases s) auto
  then have "(s @ t @ c # u) ! Suc n = c" by (metis append_assoc length_append nth_append_length)
  then show ?case using snoc.IH [of "c # u"] snoc.prems n by simp
qed

text \<open>
  A path \<open>dir/base///\<close>, with any number of slashes at either place, has the directory \<open>dir\<close> and the base name \<open>base\<close>. What
  \<open>dirname\<close> returns is as long as the path, however: the directory, zero bytes and the rest of the path.
\<close>

lemma path_parts:
  fixes i j :: nat
  assumes "dir \<noteq> []" "NUL \<notin> set dir" "last dir \<noteq> CHR ''/''" "base \<noteq> []" "CHR ''/'' \<notin> set base" "0 < i"
  defines "path \<equiv> dir @ replicate i (CHR ''/'') @ base @ replicate j (CHR ''/'')"
  shows "cstr (dirname path False) = dir" "length (dirname path False) = length path" "basename path = base"
proof -
  let ?sl = "replicate i (CHR ''/'')"
  have b: "last base \<noteq> CHR ''/''" using assms(4,5) by (metis last_in_set)
  have p: "path = (dir @ ?sl @ base) @ replicate j (CHR ''/'') @ []" by (simp add: path_def)
  have n1: "back_while (\<lambda>c. c = CHR ''/'') path (length path) = length (dir @ ?sl @ base)"
    using back_while_append [of "replicate j (CHR ''/'')" "\<lambda>c. c = CHR ''/''" "dir @ ?sl @ base" "[]"] b assms(4) unfolding p by (simp add: add.assoc)
  have l: "last (dir @ ?sl) = CHR ''/''" using assms(6) by simp
  have n2: "back_while (\<lambda>c. c \<noteq> CHR ''/'') path (length (dir @ ?sl @ base)) = length (dir @ ?sl)"
    using back_while_append [of base "\<lambda>c. c \<noteq> CHR ''/''" "dir @ ?sl" "replicate j (CHR ''/'')"] assms(5) l
    by (auto simp: path_def simp flip: append_assoc)
  obtain c base' where base: "base = c # base'" using assms(4) by (cases base) auto
  let ?u = "NUL # base' @ replicate j (CHR ''/'')"
  have par: "path[length (dir @ ?sl) := NUL] = dir @ ?sl @ ?u" by (simp add: path_def base list_update_append)
  have sk: "skip_slashes (dir @ ?sl @ ?u) (length (dir @ ?sl)) = length dir"
    using skip_slashes_append [of ?sl dir ?u] assms(1,3) by simp
  have d: "dirname path False = (dir @ ?sl @ ?u)[length dir := NUL]"
    using n1 n2 par sk assms(1,4) by (simp add: dirname_def Let_def)
  obtain k where "i = Suc k" using assms(6) by (cases i) auto
  then have "(dir @ ?sl @ ?u)[length dir := NUL] = dir @ NUL # replicate k (CHR ''/'') @ ?u" by (simp add: list_update_append)
  then show "cstr (dirname path False) = dir" using d assms(2) by (simp add: cstr_append_nul cstr_no_nul)
  show "length (dirname path False) = length path" unfolding d by (simp add: path_def base)
  show "basename path = base" using n1 n2 assms(1,4) by (simp add: basename_def Let_def path_def)
qed

end
