(* ===== verification/Gsdm.thy ===== *)
theory Gsdm
  imports Lockfree_Queue
begin

text \<open>
  The workers of \<^verbatim>\<open>src/src/gsdm/new_worker.cpp\<close>, which send commands to each other: a queue per sender and type of
  command, and a datagram socket that tells the receiver which queue to look at. The two levels of the map of queues are
  one map over pairs; the empty inner map that \<open>operator[]\<close> makes for an unknown sender is not visible to any
  operation. A null pointer is None. \<open>process_unix_notify\<close> ends without a \<open>return\<close> after a command; its result is not used, and
  the model returns the command whose \<open>process\<close> is called instead.
\<close>

(* src/src/gsdm/basecmd.h:18-21, CmdInfo *)
type_synonym cmd_info = "int \<times> int"

(* src/src/gsdm/new_worker.h:44-62, NewGenericWorker *)
record 'c gworker =
  gw_id :: int
  gw_queues :: "cmd_info \<Rightarrow> 'c option lfq option"
  gw_wait :: "cmd_info list"

text \<open>The key of a queue: the number of the sender is converted to an unsigned one.\<close>

definition gw_key :: "cmd_info \<Rightarrow> cmd_info" where
  "gw_key i = (u32 (fst i), snd i)"

(* src/src/gsdm/new_worker.cpp:84-95, NewGenericWorker::setup_queue *)
definition setup_queue :: "int \<Rightarrow> int \<Rightarrow> 'c gworker \<Rightarrow> 'c gworker" where
  "setup_queue src_worker_id cmd_type w =
     (let k = gw_key (src_worker_id, cmd_type) in
      if gw_queues w k = None then w\<lparr>gw_queues := (gw_queues w)(k \<mapsto> lfq_new None)\<rparr> else w)"

text \<open>Whether the datagram is delivered is the outcome of \<open>sendto\<close>, which the source ignores.\<close>

(* src/src/gsdm/new_worker.cpp:108-111, NewGenericWorker::notify_unix *)
definition notify_unix :: "bool \<Rightarrow> cmd_info \<Rightarrow> 'c gworker \<Rightarrow> 'c gworker" where
  "notify_unix sent info w = (if sent then w\<lparr>gw_wait := gw_wait w @ [info]\<rparr> else w)"

(* src/src/gsdm/new_worker.cpp:97-106, NewGenericWorker::send_cmd *)
definition send_cmd :: "bool \<Rightarrow> int \<Rightarrow> int \<Rightarrow> 'c option \<Rightarrow> 'c gworker \<Rightarrow> 'c gworker option" where
  "send_cmd sent src cmd_type cmd w =
     (case gw_queues w (gw_key (src, cmd_type)) of
        None \<Rightarrow> Some w
      | Some q \<Rightarrow> do {
          q \<leftarrow> lfq_produce cmd q;
          Some (notify_unix sent (src, cmd_type) (w\<lparr>gw_queues := (gw_queues w)(gw_key (src, cmd_type) \<mapsto> q)\<rparr>)) })"

(* src/src/gsdm/new_worker.cpp:113-127, NewGenericWorker::process_unix_notify *)
definition process_unix_notify :: "cmd_info \<Rightarrow> 'c gworker \<Rightarrow> ('c option \<times> 'c gworker) option" where
  "process_unix_notify info w =
     (case gw_queues w (gw_key info) of
        None \<Rightarrow> Some (None, w)
      | Some q \<Rightarrow> do {
          (x, q) \<leftarrow> lfq_consume q;
          Some (case x of None \<Rightarrow> None | Some cmd \<Rightarrow> cmd, w\<lparr>gw_queues := (gw_queues w)(gw_key info \<mapsto> q)\<rparr>) })"

(* src/src/gsdm/new_worker.cpp:16-21, recv_unix_notify *)
definition recv_unix_notify :: "'c gworker \<Rightarrow> ('c option \<times> 'c gworker) option" where
  "recv_unix_notify w =
     (case gw_wait w of [] \<Rightarrow> Some (None, w) | i # is \<Rightarrow> process_unix_notify i (w\<lparr>gw_wait := is\<rparr>))"

fun send_all :: "(cmd_info \<times> 'c) list \<Rightarrow> 'c gworker \<Rightarrow> 'c gworker option" where
  "send_all [] w = Some w"
| "send_all ((i, c) # ms) w = do { w \<leftarrow> send_cmd True (fst i) (snd i) (Some c) w; send_all ms w }"

fun recv_all :: "nat \<Rightarrow> 'c gworker \<Rightarrow> ('c option list \<times> 'c gworker) option" where
  "recv_all 0 w = Some ([], w)"
| "recv_all (Suc n) w = do { (c, w) \<leftarrow> recv_unix_notify w; (cs, w) \<leftarrow> recv_all n w; Some (c # cs, w) }"

section \<open>Commands are executed in the order in which they were sent\<close>

text \<open>The messages on their way: the datagrams in order, and each queue with the commands of its key.\<close>

definition in_flight :: "(cmd_info \<times> 'c) list \<Rightarrow> 'c gworker \<Rightarrow> bool" where
  "in_flight ms w \<longleftrightarrow> gw_wait w = map fst ms \<and> (\<forall>m \<in> set ms. gw_queues w (gw_key (fst m)) \<noteq> None) \<and>
     (\<forall>k q. gw_queues w k = Some q \<longrightarrow> lfq_rep q (map (Some \<circ> snd) (filter (\<lambda>m. gw_key (fst m) = k) ms)))"

lemma send_cmd_in_flight:
  assumes "in_flight ms w" "gw_queues w (gw_key i) \<noteq> None"
  shows "\<exists>w'. send_cmd True (fst i) (snd i) (Some c) w = Some w' \<and> in_flight (ms @ [(i, c)]) w' \<and> dom (gw_queues w') = dom (gw_queues w)"
proof -
  obtain q where q: "gw_queues w (gw_key i) = Some q" using assms(2) by blast
  then obtain q' where q': "lfq_produce (Some c) q = Some q'"
    "lfq_rep q' (map (Some \<circ> snd) (filter (\<lambda>m. gw_key (fst m) = gw_key i) ms) @ [Some c])"
    using assms(1) lfq_produce_rep [of q _ "Some c"] unfolding in_flight_def by blast
  let ?w = "w\<lparr>gw_queues := (gw_queues w)(gw_key i \<mapsto> q'), gw_wait := gw_wait w @ [i]\<rparr>"
  have "send_cmd True (fst i) (snd i) (Some c) w = Some ?w" using q q'(1) by (simp add: send_cmd_def notify_unix_def)
  moreover have "in_flight (ms @ [(i, c)]) ?w" using assms(1) q'(2) by (simp add: in_flight_def)
  moreover have "dom (gw_queues ?w) = dom (gw_queues w)" using q by auto
  ultimately show ?thesis by blast
qed

lemma recv_in_flight:
  assumes "in_flight ((i, c) # ms) w"
  shows "\<exists>w'. recv_unix_notify w = Some (Some c, w') \<and> in_flight ms w'"
proof -
  have f: "gw_wait w = i # map fst ms" "\<forall>m \<in> set ms. gw_queues w (gw_key (fst m)) \<noteq> None" "gw_queues w (gw_key i) \<noteq> None"
    using assms by (simp_all add: in_flight_def)
  have g: "\<And>k q. gw_queues w k = Some q \<Longrightarrow> lfq_rep q (map (Some \<circ> snd) (filter (\<lambda>m. gw_key (fst m) = k) ((i, c) # ms)))"
    using assms unfolding in_flight_def by blast
  obtain q where q: "gw_queues w (gw_key i) = Some q" using f(3) by blast
  have "lfq_rep q (Some c # map (Some \<circ> snd) (filter (\<lambda>m. gw_key (fst m) = gw_key i) ms))" using g [OF q] by simp
  then obtain q' where q': "lfq_consume q = Some (Some (Some c), q')"
    "lfq_rep q' (map (Some \<circ> snd) (filter (\<lambda>m. gw_key (fst m) = gw_key i) ms))"
    using lfq_consume_rep [of q] by blast
  have "lfq_rep r (map (Some \<circ> snd) (filter (\<lambda>m. gw_key (fst m) = k) ms))" if "((gw_queues w)(gw_key i \<mapsto> q')) k = Some r" for k r
    using that q'(2) g [of k r] by (cases "k = gw_key i") auto
  then have "in_flight ms (w\<lparr>gw_wait := map fst ms, gw_queues := (gw_queues w)(gw_key i \<mapsto> q')\<rparr>)"
    using f(2) unfolding in_flight_def by (auto split: if_splits)
  moreover have "recv_unix_notify w = Some (Some c, w\<lparr>gw_wait := map fst ms, gw_queues := (gw_queues w)(gw_key i \<mapsto> q')\<rparr>)"
    using f(1) q q'(1) by (simp add: recv_unix_notify_def process_unix_notify_def)
  ultimately show ?thesis by blast
qed

lemma recv_all_in_flight: "in_flight ms w \<Longrightarrow> \<exists>w'. recv_all (length ms) w = Some (map (Some \<circ> snd) ms, w') \<and> in_flight [] w'"
proof (induction ms arbitrary: w)
  case (Cons m ms)
  obtain w1 where "recv_unix_notify w = Some (Some (snd m), w1)" "in_flight ms w1"
    using recv_in_flight [of "fst m" "snd m" ms w] Cons.prems by auto
  then show ?case using Cons.IH [of w1] by auto
qed simp

lemma send_all_in_flight:
  assumes "in_flight ms0 w" "\<forall>m \<in> set ms. gw_queues w (gw_key (fst m)) \<noteq> None"
  shows "\<exists>w'. send_all ms w = Some w' \<and> in_flight (ms0 @ ms) w'"
  using assms
proof (induction ms arbitrary: w ms0)
  case (Cons m ms)
  obtain i c where m: "m = (i, c)" by (cases m)
  obtain w1 where w1: "send_cmd True (fst i) (snd i) (Some c) w = Some w1" "in_flight (ms0 @ [(i, c)]) w1" "dom (gw_queues w1) = dom (gw_queues w)"
    using send_cmd_in_flight [OF Cons.prems(1), of i c] Cons.prems(2) m by auto
  have "\<forall>m \<in> set ms. gw_queues w1 (gw_key (fst m)) \<noteq> None" using Cons.prems(2) w1(3) by (metis domIff list.set_intros(2))
  then show ?case using Cons.IH [OF w1(2)] w1(1) m by auto
qed simp

text \<open>
  Commands that are sent over queues that were set up, to whatever senders and types they belong, are executed
  once each and in the order in which they were sent.
\<close>

lemma commands_in_order:
  assumes "in_flight [] w" "\<forall>m \<in> set ms. gw_queues w (gw_key (fst m)) \<noteq> None"
  shows "\<exists>w1 w2. send_all ms w = Some w1 \<and> recv_all (length ms) w1 = Some (map (Some \<circ> snd) ms, w2) \<and> in_flight [] w2"
proof -
  obtain w1 where "send_all ms w = Some w1" "in_flight ms w1" using send_all_in_flight [OF assms] by auto
  then show ?thesis using recv_all_in_flight by blast
qed

lemma setup_queue_in_flight: "in_flight [] w \<Longrightarrow> in_flight [] (setup_queue src ty w)"
  by (simp add: in_flight_def setup_queue_def Let_def lfq_rep_new)

end
