(* ===== verification/Spec2Isabelle.thy ===== *)
theory Spec2Isabelle
  imports Zf_Prelude Lockfree_Queue Sds Sds_Text Event_Loop Sockets Connections Worker Serving Simple_Worker Dispatcher Crc32c Num_Utils Config_Lexer Config_Tree Config_File Server Linux_List Statuses Url_Snprintf Logging Stats Hash_Lock File_Util Gsdm
begin

text \<open>
  This development models the network framework under \<^verbatim>\<open>src/\<close> and the libraries of it that a server uses, and proves
  what they do. Paths are given as in the repository.

  \<^bold>\<open>The program.\<close> A server (\<^verbatim>\<open>src/src/server/server.cpp\<close>) reads options from a configuration file and starts a dispatcher
  thread (\<^verbatim>\<open>dispatcher.cpp\<close>). The dispatcher listens, accepts sockets and gives each of them to the next worker thread
  through a lock-free queue (\<^verbatim>\<open>src/src/util/queue.h\<close>) and a byte in a pipe. A worker (\<^verbatim>\<open>worker.cpp\<close>) owns a table of
  connections; the watchers of its event loop (\<^verbatim>\<open>event.cpp\<close>, over libev) call it when a descriptor is readable or
  writable or a connection is idle. It collects the bytes of a request in a dynamic string (\<^verbatim>\<open>sds.cpp\<close>), hands a
  complete request to the application, and sends the replies. The echo server under \<^verbatim>\<open>src/examples/demo\<close> is such an
  application. Below these are utilities: the parser of configuration files (\<^verbatim>\<open>src/deps/new-config\<close>), checksums,
  numbers, linked lists, slices and statuses, a percent-encoding printer and the log.

  \<^bold>\<open>Conventions.\<close> A function of the source is a function of the same name. Objects are records with the members of the
  class, bytes are \<^typ>\<open>char\<close>, a block of memory is the list of its bytes, and C integers are \<^typ>\<open>int\<close> with the
  conversions \<open>s32\<close>, \<open>u32\<close>, \<open>s64\<close>, \<open>u64\<close> where the source converts or may overflow; the checksum uses machine words.
  The outer \<^typ>\<open>'a option\<close> of a result is None where the source has undefined behaviour, aborts or fails an
  assertion: a theorem that says \<open>f x = Some y\<close> says that \<open>f\<close> returns and touches no memory it must not touch. Errors
  the source reports are values. Every definition that translates code is preceded by the lines it translates.

  \<^bold>\<open>Departures from the language.\<close> In a few places the models are more defined than C++ is, and the theorems about them
  hold only under the reading given here. \<open>Connection::read\<close> and \<open>Connection::write\<close> (\<^verbatim>\<open>connection.cpp\<close>) call the socket
  and end without a \<open>return\<close>, which is undefined; the models take the value of the inner call as their result, which is
  what the calling convention leaves in the unoptimised build of \<^verbatim>\<open>src/Makefile\<close>. Every theorem about reading from and
  writing to connections, those of the echo server included, depends on it. The same holds of \<open>process_unix_notify\<close>
  (\<^verbatim>\<open>new_worker.cpp\<close>), whose result nobody uses. Signed overflow in \<open>timetoll\<close> wraps around,
  and the list of log records, which is read without its lock, behaves as if each operation on it were one step. Calls to the log
  are left out of the other models, with the consequence that a call with a wrong format, as in
  \<open>GenericDispatcher::create_server\<close> after a failure, does nothing in them.

  \<^bold>\<open>Parameters.\<close> What is not part of the repository is an argument. \<open>allocator\<close> says which requests succeed and what
  fresh memory contains, and \<open>mem_ok\<close> that all succeed. \<open>sysops\<close> are the socket calls over an abstract kernel state,
  and \<open>kernel_ok\<close> says what they do to the open descriptors. \<open>cenv\<close> gives the outcomes of allocations in the
  configuration parser, \<open>spawn_env\<close> those of starting a thread, \<open>log_sys\<close> those of opening a log. \<open>fpops\<close> is the
  floating-point arithmetic of the printer; the output of the C library's formatting is given as text.

  \<^bold>\<open>Theories.\<close>
  \<^item> \<open>Zf_Prelude\<close>: integer conversions, C strings, bounds-checked memory, decimal text, the allocator.
  \<^item> \<open>Lockfree_Queue\<close> (\<^verbatim>\<open>queue.h\<close>): the operations over a heap of nodes, and their single memory accesses as steps of two
    threads. Sequentially the queue refines a list, by the locale \<open>fifo\<close>. In every interleaving the consumed values are
    a prefix of the produced ones and no freed node is touched.
  \<^item> \<open>Sds\<close>, \<open>Sds_Text\<close> (\<^verbatim>\<open>sds.cpp\<close>, \<^verbatim>\<open>sds.h\<close>): every operation keeps the header in step with the bytes and does to the
    content what its name says; splitting inverts quoting. The locale \<open>byte_emitter\<close> holds the induction over appended
    pieces, for plain and for quoted appending. \<open>sds_limit\<close> is the largest length at which doubling the room stays
    within 31 bits.
  \<^item> \<open>Event_Loop\<close> (\<^verbatim>\<open>event.cpp\<close>, parts of \<^verbatim>\<open>ev.c\<close>): masks of interest and timers.
  \<^item> \<open>Sockets\<close> (\<^verbatim>\<open>socket.cpp\<close>, \<^verbatim>\<open>tcp_socket.cpp\<close>, \<^verbatim>\<open>udp_socket.cpp\<close>, \<^verbatim>\<open>network_manager.cpp\<close>): which descriptors are open
    after each outcome.
  \<^item> \<open>Connections\<close>, \<open>Worker\<close>, \<open>Serving\<close> (\<^verbatim>\<open>connection.cpp\<close>, \<^verbatim>\<open>tcp_connection.cpp\<close>, \<^verbatim>\<open>worker.cpp\<close>): the table of connections and its
    invariant, the callbacks on every branch, and a worker driven by any sequence of callbacks. The locale
    \<open>io_handler\<close> states what the worker needs of an application; \<open>echo_handler\<close> extends it.
  \<^item> \<open>Simple_Worker\<close> (\<^verbatim>\<open>simple_worker.cpp\<close>, \<^verbatim>\<open>nshead.h\<close>): interprets both locales. The server never fails, returns exactly the
    bytes it received, and answers requests that arrive in pieces. \<open>body_bound\<close>, half of \<open>2^30\<close>, keeps header, body and the
    doubled room below \<open>sds_limit\<close>; larger bodies are the subject of a theorem of their own.
  \<^item> \<open>Dispatcher\<close> (\<^verbatim>\<open>dispatcher.cpp\<close>, \<^verbatim>\<open>thread.cpp\<close>): round-robin distribution, delivery through queue and pipe, and what
    failures leave behind.
  \<^item> \<open>Crc32c\<close> (\<^verbatim>\<open>crc32c.cpp\<close>): the tables are spans of eight generators, so the unrolled loop is the bitwise checksum.
  \<^item> \<open>Num_Utils\<close> (\<^verbatim>\<open>utils.cpp\<close>): numbers to text and back, sizes and durations with units.
  \<^item> \<open>Config_Lexer\<close>, \<open>Config_Tree\<close> (\<^verbatim>\<open>lexer.l\<close>, \<^verbatim>\<open>config.c\<close>): the rules of the scanner, the parser over a store of nodes with
    first-child and next-sibling pointers, and the release of a tree. Parsing is safe on every input.
  \<^item> \<open>Config_File\<close>, \<open>Server\<close> (\<^verbatim>\<open>config_file.cpp\<close>, \<^verbatim>\<open>server.cpp\<close>): command tables writing into the bytes of the options. The
    locale \<open>slot_handler\<close> is the contract of the five handlers. From it follow that a file never changes the type of
    the options, and that a server with a valid file starts with the workers the file asks for.
  \<^item> \<open>Linux_List\<close> (\<^verbatim>\<open>list.h\<close>): rings of nodes; the operations act as on sequences.
  \<^item> \<open>Statuses\<close> (\<^verbatim>\<open>slice.h\<close>, \<^verbatim>\<open>status.cpp\<close>): views of bytes, and the block of a code and its message.
  \<^item> \<open>Url_Snprintf\<close> (\<^verbatim>\<open>url_snprintf.cpp\<close>): the format interpreter; it never writes more than \<open>size\<close> bytes before the
    terminator, and strings decode to what was printed.
  \<^item> \<open>Gsdm\<close> (\<^verbatim>\<open>src/src/gsdm/new_worker.cpp\<close>): workers that send each other commands over queues by sender and type; commands
    are executed in the order in which they were sent.
  \<^item> \<open>Stats\<close> (\<^verbatim>\<open>stat.cpp\<close>), \<open>Hash_Lock\<close> (\<^verbatim>\<open>hash.cpp\<close>, \<^verbatim>\<open>key_lock.h\<close>), \<open>File_Util\<close> (\<^verbatim>\<open>file.cpp\<close>): counters by thread and their sums and
    maxima; the hash of a key as a function of its bytes, and mutual exclusion of equal keys; the parts of a path.
  \<^item> \<open>Logging\<close> (\<^verbatim>\<open>log.cpp\<close>): the record of a message, and the thread that writes the records, in every interleaving with
    the threads that append them.

  \<^bold>\<open>Loops.\<close> Loops over data are structural or have a termination proof. Loops over pointers and loops that the kernel
  controls are \<^theory_text>\<open>partial_function\<close>s into \<^typ>\<open>'a option\<close>, and the theorems show that they return, or, for the UDP
  writer, that they do not. No definition uses fuel.

  \<^bold>\<open>Not modelled.\<close> Under \<^verbatim>\<open>src/deps\<close>, only the parser of configuration files and the watchers of libev are translated. The
  back ends of libev, jemalloc, protobuf, libatomic and evhttpclient are large libraries with contracts of their own;
  of these, the framework reaches what is proved here only through the allocator and the sequence of callbacks, which are
  parameters. The generated \<^verbatim>\<open>lexer.c\<close> is represented by the rules it is generated from. Accesses of several threads to
  one object are modelled for the queue and for the list of log records; elsewhere a callback is one step, because
  the objects of a worker belong to its thread. Weak memory is not modelled. Release of memory is modelled where a
  double release or a use after release is possible (queue, configuration tree, connections, counters), and left out
  for values that are not shared. Not modelled are the wrappers around single library calls (\<^verbatim>\<open>lock.h\<close>, \<^verbatim>\<open>profiler.h\<close>,
  \<^verbatim>\<open>string.cpp\<close>), the accounting in \<^verbatim>\<open>zmalloc.cpp\<close>, which depends on the allocator it is compiled with, the HTTP client and
  the proxy example, which are calls to evhttpclient and its callbacks, \<^verbatim>\<open>pack.cpp\<close> and the mcpack readers and writers, which
  forward to a library that is not in the repository, the handler of the UDP example, and the test programs.
\<close>

end
